(* ===== verification/Nq_Prelude.thy ===== *)
theory Nq_Prelude
  imports
    Main
    "HOL-Library.Word"
    "HOL-Library.Char_ord"
    "HOL-Library.List_Lexorder"
    "HOL-Library.Multiset"
    "HOL-Library.AList"
begin

text \<open>
  Shared vocabulary of the development: the machine integers of the Rust sources, big-endian
  byte strings, saturating arithmetic, the two standard maps the sources use
  (\<open>BTreeMap\<close>, iterated in key order, and \<open>HashMap\<close>, iterated in an unspecified order) and
  the list operations \<open>dedup\<close>, \<open>retain\<close> and \<open>sort_by_key\<close>.
\<close>

unbundle bit_operations_syntax

named_theorems btree_simps \<open>facts about ordered association lists (BTreeMap)\<close>
named_theorems be_simps \<open>big-endian encoding and decoding of machine integers\<close>

section \<open>Machine integers\<close>

type_synonym u8 = "8 word"
type_synonym u16 = "16 word"
type_synonym u32 = "32 word"
type_synonym u64 = "64 word"
type_synonym u128 = "128 word"
type_synonym bytes = "u8 list"

text \<open>\<open>u64::saturating_add\<close> and friends, on natural numbers read from a \<open>u64\<close>.\<close>

definition u64_max :: nat where
  "u64_max = 2 ^ 64 - 1"

definition sat_add64 :: "nat \<Rightarrow> nat \<Rightarrow> nat" where
  "sat_add64 a b = min (a + b) u64_max"

text \<open>\<open>saturating_add\<close> and \<open>saturating_sub\<close> on a machine word.\<close>

definition word_sat_add :: "'a::len word \<Rightarrow> 'a word \<Rightarrow> 'a word" where
  "word_sat_add a b = (if unat a + unat b < 2 ^ LENGTH('a) then a + b else - 1)"

definition word_sat_sub :: "'a::len word \<Rightarrow> 'a word \<Rightarrow> 'a word" where
  "word_sat_sub a b = (if b \<le> a then a - b else 0)"

definition sat_mul64 :: "nat \<Rightarrow> nat \<Rightarrow> nat" where
  "sat_mul64 a b = min (a * b) u64_max"

text \<open>Evaluation stays in binary: it compares words and integers, never counts up to a bound.\<close>

lemma word_sat_add_code [code]: "word_sat_add a b = (if a \<le> - 1 - b then a + b else - 1)"
  for a b :: "'a::len word"
proof -
  have "unat (- 1 - b) = 2 ^ LENGTH('a) - 1 - unat b"
    by (simp add: unat_sub unsigned_minus_1_eq_mask mask_eq_exp_minus_1)
  moreover have "unat b < 2 ^ LENGTH('a)" by (rule unsigned_less)
  ultimately have "a \<le> - 1 - b \<longleftrightarrow> unat a + unat b < 2 ^ LENGTH('a)"
    unfolding word_le_nat_alt by linarith
  then show ?thesis by (simp add: word_sat_add_def)
qed

lemma sat_add64_code [code]: "sat_add64 a b = nat (min (int a + int b) 18446744073709551615)"
  by (simp add: sat_add64_def u64_max_def min_def nat_add_distrib flip: of_nat_add)

lemma sat_mul64_code [code]: "sat_mul64 a b = nat (min (int a * int b) 18446744073709551615)"
  by (simp add: sat_mul64_def u64_max_def min_def nat_mult_distrib flip: of_nat_mult)

lemma unat_word_sat_add:
  "unat (word_sat_add a b :: 'a::len word) = min (unat a + unat b) (2 ^ LENGTH('a) - 1)"
  by (auto simp: word_sat_add_def unat_word_ariths unsigned_minus_1_eq_mask
      mask_eq_exp_minus_1)

lemma unat_word_sat_sub: "unat (word_sat_sub a b :: 'a::len word) = unat a - unat b"
  by (auto simp: word_sat_sub_def unat_sub word_le_nat_alt)

lemma word_less_succ:
  fixes g :: "'a::len word"
  assumes "g \<noteq> - 1"
  shows "g < g + 1"
proof (rule ccontr)
  assume "\<not> g < g + 1"
  then have "\<not> unat g + 1 < 2 ^ LENGTH('a)"
    by (auto simp: word_less_nat_alt unat_word_ariths mod_less)
  then have "unat g + 1 = 2 ^ LENGTH('a)" using unsigned_less [of g, where ?'a = nat] by linarith
  then have "unat (g + 1) = 0" by (simp add: unat_word_ariths)
  then have "g + 1 = 0" by (simp only: unat_eq_zero)
  with assms show False by (simp add: eq_neg_iff_add_eq_0)
qed

text \<open>\<open>to_be_bytes\<close>: \<open>n\<close> bytes, the most significant first; \<open>from_be_bytes\<close> is its inverse.\<close>

fun be_bytes :: "nat \<Rightarrow> 'a::len word \<Rightarrow> bytes" where
  "be_bytes 0 w = []"
| "be_bytes (Suc n) w = be_bytes n (drop_bit 8 w) @ [ucast w]"

definition from_be :: "bytes \<Rightarrow> 'a::len word" where
  "from_be bs = foldl (\<lambda>acc b. push_bit 8 acc OR ucast b) 0 bs"

lemma length_be_bytes [simp, be_simps]: "length (be_bytes n w) = n"
  by (induction n arbitrary: w) auto

lemma from_be_Nil [simp, be_simps]: "from_be [] = 0"
  by (simp add: from_be_def)

lemma from_be_snoc [be_simps]: "from_be (bs @ [b]) = push_bit 8 (from_be bs) OR ucast b"
  by (simp add: from_be_def)

lemma from_be_be_bytes_take:
  "from_be (be_bytes n (w :: 'a::len word)) = take_bit (8 * n) w"
proof (induction n arbitrary: w)
  case 0
  then show ?case by simp
next
  case (Suc n)
  have "push_bit 8 (take_bit (8 * n) (drop_bit 8 w)) OR ucast (ucast w :: u8)
      = take_bit (8 * Suc n) w"
    by (rule bit_word_eqI) (auto simp: bit_simps)
  with Suc show ?case by (simp add: from_be_snoc)
qed

lemma from_be_be_bytes [simp, be_simps]:
  "LENGTH('a) \<le> 8 * n \<Longrightarrow> from_be (be_bytes n (w :: 'a::len word)) = w"
  by (simp add: from_be_be_bytes_take take_bit_word_eq_self)

lemma be_bytes_from_be [simp, be_simps]:
  assumes "8 * length bs \<le> LENGTH('a)"
  shows "be_bytes (length bs) (from_be bs :: 'a::len word) = bs"
  using assms
proof (induction bs rule: rev_induct)
  case Nil
  then show ?case by simp
next
  case (snoc b bs)
  let ?w = "from_be bs :: 'a word"
  have len: "8 * length bs \<le> LENGTH('a)" using snoc.prems by simp
  have eq: "be_bytes (length bs) (drop_bit 8 (push_bit 8 ?w OR ucast b)) = be_bytes (length bs) ?w"
  proof -
    have small: "\<not> bit ?w i" if "8 * length bs \<le> i" for i
    proof -
      have "take_bit (8 * length bs) ?w = ?w"
        using from_be_be_bytes_take [of "length bs" ?w] snoc.IH [OF len] by simp
      then show ?thesis using that by (metis bit_take_bit_iff not_le)
    qed
    have "drop_bit 8 (push_bit 8 ?w OR (ucast b :: 'a word)) = ?w"
    proof (rule bit_word_eqI)
      fix i assume i: "i < LENGTH('a)"
      show "bit (drop_bit 8 (push_bit 8 ?w OR (ucast b :: 'a word))) i = bit ?w i"
      proof (cases "i + 8 < LENGTH('a)")
        case True
        then show ?thesis using i bit_imp_le_length [of b "i + 8"]
          by (auto simp: bit_simps add.commute)
      next
        case False
        then have "8 * length bs \<le> i" using snoc.prems by simp
        then show ?thesis using False small by (auto simp: bit_simps add.commute)
      qed
    qed
    then show ?thesis by simp
  qed
  have "ucast (push_bit 8 ?w OR (ucast b :: 'a word)) = b"
    using snoc.prems by (intro bit_word_eqI) (auto simp: bit_simps)
  with eq snoc.IH [OF len] show ?case by (simp add: from_be_snoc)
qed

lemma be_bytes_from_be_length [simp, be_simps]:
  "length bs = n \<Longrightarrow> 8 * n \<le> LENGTH('a) \<Longrightarrow> be_bytes n (from_be bs :: 'a::len word) = bs"
  using be_bytes_from_be by blast

lemma length_4_conv: "length xs = 4 \<longleftrightarrow> (\<exists>a b c d. xs = [a, b, c, d])"
  by (auto simp: numeral_eq_Suc length_Suc_conv)

lemma length_8_conv: "length xs = 8 \<longleftrightarrow> (\<exists>a b c d e f g h. xs = [a, b, c, d, e, f, g, h])"
  by (auto simp: numeral_eq_Suc length_Suc_conv)

lemma be_bytes_4_obtain:
  obtains a b c d where "be_bytes 4 (w :: u32) = [a, b, c, d]" "from_be [a, b, c, d] = w"
proof -
  obtain a b c d where l: "be_bytes 4 w = [a, b, c, d]"
    using length_be_bytes [of 4 w] unfolding length_4_conv by blast
  have "from_be (be_bytes 4 w) = w" by simp
  with l that show ?thesis by simp
qed

lemma be_bytes_8_obtain:
  obtains a b c d e f g h where "be_bytes 8 (w :: u64) = [a, b, c, d, e, f, g, h]"
    "from_be [a, b, c, d, e, f, g, h] = w"
proof -
  obtain a b c d e f g h where l: "be_bytes 8 w = [a, b, c, d, e, f, g, h]"
    using length_be_bytes [of 8 w] unfolding length_8_conv by blast
  have "from_be (be_bytes 8 w) = w" by simp
  with l that show ?thesis by simp
qed

text \<open>A field of a byte string: \<open>n\<close> bytes from offset \<open>i\<close> (\<open>buf[i..i + n]\<close>).\<close>

definition slice :: "nat \<Rightarrow> nat \<Rightarrow> 'a list \<Rightarrow> 'a list" where
  "slice i n xs = take n (drop i xs)"

lemma length_slice [simp]: "i + n \<le> length xs \<Longrightarrow> length (slice i n xs) = n"
  by (simp add: slice_def)

lemma slice_append_left: "i + n \<le> length xs \<Longrightarrow> slice i n (xs @ ys) = slice i n xs"
  by (simp add: slice_def)

lemma slice_split: "i + n \<le> length xs \<Longrightarrow> slice i n xs @ drop (i + n) xs = drop i xs"
  by (simp add: slice_def flip: drop_drop) (metis add.commute append_take_drop_id drop_drop)

lemma from_be_list [be_simps]:
  "from_be [a] = ucast a"
  "from_be [a, b] = push_bit 8 (ucast a) OR ucast b"
  "from_be [a, b, c, d] = push_bit 8 (push_bit 8 (push_bit 8 (ucast a) OR ucast b) OR ucast c) OR ucast d"
  by (simp_all add: from_be_def)

section \<open>Results\<close>

text \<open>\<open>Result<T, E>\<close> is the sum \<open>'e + 'a\<close>, the error on the left; \<open>res_bind\<close> is the \<open>?\<close> operator.\<close>

definition res_bind :: "'e + 'a \<Rightarrow> ('a \<Rightarrow> 'e + 'b) \<Rightarrow> 'e + 'b" where
  "res_bind r f = (case r of Inl e \<Rightarrow> Inl e | Inr a \<Rightarrow> f a)"

lemma res_bind_simps [simp]:
  "res_bind (Inl e) f = Inl e"
  "res_bind (Inr a) f = f a"
  by (simp_all add: res_bind_def)

lemma res_bind_Inr_conv:
  "res_bind r f = Inr b \<longleftrightarrow> (\<exists>a. r = Inr a \<and> f a = Inr b)"
  by (cases r) auto

lemma res_bind_Inl_conv:
  "res_bind r f = Inl e \<longleftrightarrow> r = Inl e \<or> (\<exists>a. r = Inr a \<and> f a = Inl e)"
  by (cases r) auto

text \<open>
  \<open>ensure!\<close> and \<open>bail!\<close>, a \<open>for\<close> loop that may return early with an error, and one that threads a state.
\<close>

definition ensure :: "bool \<Rightarrow> 'e \<Rightarrow> 'e + unit" where
  "ensure c e = (if c then Inr () else Inl e)"

primrec res_iter :: "('a \<Rightarrow> 'e + unit) \<Rightarrow> 'a list \<Rightarrow> 'e + unit" where
  "res_iter f [] = Inr ()"
| "res_iter f (x # xs) = res_bind (f x) (\<lambda>_. res_iter f xs)"

primrec res_fold :: "('a \<Rightarrow> 's \<Rightarrow> 'e + 's) \<Rightarrow> 'a list \<Rightarrow> 's \<Rightarrow> 'e + 's" where
  "res_fold f [] s = Inr s"
| "res_fold f (x # xs) s = res_bind (f x s) (res_fold f xs)"

lemma ensure_Inr [simp]: "ensure c e = Inr u \<longleftrightarrow> c"
  by (simp add: ensure_def)

lemma res_iter_Inr: "res_iter f xs = Inr u \<longleftrightarrow> (\<forall>x \<in> set xs. f x = Inr ())"
  by (induction xs) (auto simp: res_bind_Inr_conv)

lemma res_fold_invariant:
  assumes "res_fold f xs s = Inr t" and "I s"
    and "\<And>x s t. x \<in> set xs \<Longrightarrow> I s \<Longrightarrow> f x s = Inr t \<Longrightarrow> I t"
  shows "I t"
  using assms
proof (induction xs arbitrary: s)
  case (Cons x xs)
  then obtain s' where "f x s = Inr s'" "res_fold f xs s' = Inr t"
    by (auto simp: res_bind_Inr_conv)
  with Cons show ?case by (metis list.set_intros)
qed simp

text \<open>\<open>str::split\<close> on one character: always at least one part.\<close>

fun split_on :: "'a \<Rightarrow> 'a list \<Rightarrow> 'a list list" where
  "split_on c [] = [[]]"
| "split_on c (x # xs) =
     (if x = c then [] # split_on c xs
      else case split_on c xs of [] \<Rightarrow> [[x]] | p # ps \<Rightarrow> (x # p) # ps)"

lemma split_on_ne [simp]: "split_on c xs \<noteq> []"
  by (cases xs) (auto split: list.splits)

lemma split_on_append:
  "c \<notin> set xs \<Longrightarrow> split_on c (xs @ c # ys) = xs # split_on c ys"
  by (induction xs) auto

lemma split_on_single: "c \<notin> set xs \<Longrightarrow> split_on c xs = [xs]"
  by (induction xs) auto

section \<open>BTreeMap: association lists in strictly increasing key order\<close>

type_synonym ('k, 'v) btree = "('k \<times> 'v) list"

abbreviation bt_wf :: "('k::linorder, 'v) btree \<Rightarrow> bool" where
  "bt_wf m \<equiv> sorted_wrt (<) (map fst m)"

fun bt_insert :: "'k::linorder \<Rightarrow> 'v \<Rightarrow> ('k, 'v) btree \<Rightarrow> ('k, 'v) btree" where
  "bt_insert k v [] = [(k, v)]"
| "bt_insert k v (e # m) =
     (if fst e < k then e # bt_insert k v m
      else if fst e = k then (k, v) # m
      else (k, v) # e # m)"

definition bt_remove :: "'k::linorder \<Rightarrow> ('k, 'v) btree \<Rightarrow> ('k, 'v) btree" where
  "bt_remove k m = filter (\<lambda>e. fst e \<noteq> k) m"

text \<open>\<open>iter.collect()\<close> into a \<open>BTreeMap\<close>: a later entry with the same key replaces an earlier one.\<close>

definition bt_collect :: "('k::linorder \<times> 'v) list \<Rightarrow> ('k, 'v) btree" where
  "bt_collect kvs = fold (\<lambda>e m. bt_insert (fst e) (snd e) m) kvs []"

lemma map_of_bt_insert [simp, btree_simps]: "map_of (bt_insert k v m) = (map_of m)(k \<mapsto> v)"
  by (induction m) (auto simp: fun_eq_iff)

lemma fst_bt_insert [btree_simps]: "fst ` set (bt_insert k v m) = insert k (fst ` set m)"
  by (induction m) auto

lemma bt_wf_insert [simp, intro, btree_simps]: "bt_wf m \<Longrightarrow> bt_wf (bt_insert k v m)"
proof (induction m)
  case (Cons e m)
  have "\<forall>x \<in> fst ` set (bt_insert k v m). fst e < x" if "fst e < k"
    using Cons.prems that by (auto simp: fst_bt_insert)
  with Cons show ?case by auto
qed simp

lemma map_of_bt_remove [simp, btree_simps]: "map_of (bt_remove k m) = (map_of m)(k := None)"
  by (induction m) (auto simp: bt_remove_def fun_eq_iff)

lemma bt_wf_remove [simp, intro, btree_simps]: "bt_wf m \<Longrightarrow> bt_wf (bt_remove k m)"
  by (simp add: bt_remove_def sorted_wrt_map sorted_wrt_filter)

lemma bt_wf_fold_insert:
  "bt_wf m \<Longrightarrow> bt_wf (fold (\<lambda>e m. bt_insert (fst e) (snd e) m) kvs m)"
  by (induction kvs arbitrary: m) auto

lemma bt_wf_collect [simp, intro, btree_simps]: "bt_wf (bt_collect kvs)"
  by (simp add: bt_collect_def bt_wf_fold_insert)

lemma map_of_fold_insert:
  "map_of (fold (\<lambda>e m. bt_insert (fst e) (snd e) m) kvs m) = map_of m ++ map_of (rev kvs)"
  by (induction kvs arbitrary: m) (auto simp: map_add_def fun_eq_iff split: option.splits)

lemma map_of_bt_collect [simp, btree_simps]: "map_of (bt_collect kvs) = map_of (rev kvs)"
  by (simp add: bt_collect_def map_of_fold_insert)

lemma bt_wf_distinct: "bt_wf m \<Longrightarrow> distinct (map fst m)"
  by (simp add: strict_sorted_iff)

lemma map_of_rev_distinct: "distinct (map fst m) \<Longrightarrow> map_of (rev m) = map_of m"
  by (intro map_of_inject_set [THEN iffD2]) (auto simp flip: rev_map)

lemma alist_eqI:
  assumes "map fst m = map fst m'" and "distinct (map fst m)" and "map_of m = map_of m'"
  shows "m = m'"
  using assms
proof (induction m arbitrary: m')
  case (Cons e m)
  then obtain e' n where m': "m' = e' # n" by (cases m') auto
  with Cons.prems have fst: "fst e' = fst e" by simp
  have "snd e' = snd e"
    using fun_cong [OF Cons.prems(3), of "fst e"] m' fst by (cases e; cases e') simp
  with fst have e: "e' = e" by (simp add: prod_eq_iff)
  have "map_of m = map_of n"
  proof
    fix k
    have "map_of m (fst e) = None" "map_of n (fst e) = None"
      using Cons.prems m' fst by (simp_all add: map_of_eq_None_iff flip: set_map)
    then show "map_of m k = map_of n k"
      using fun_cong [OF Cons.prems(3), of k] m' e by (cases e) (auto split: if_splits)
  qed
  with Cons m' e show ?case by auto
qed simp

text \<open>Two ordered maps with the same lookups are the same list.\<close>

lemma bt_ext:
  assumes "bt_wf m" and "bt_wf m'" and "map_of m = map_of m'"
  shows "m = m'"
proof -
  have "set (map fst m) = set (map fst m')"
    using assms(3) by (metis dom_map_of_conv_image_fst list.set_map)
  then have "map fst m = map fst m'"
    using assms(1,2) by (simp add: strict_sorted_equal)
  then show ?thesis
    using bt_wf_distinct [OF assms(1)] assms(3) by (rule alist_eqI)
qed

lemma bt_collect_id [simp]: "bt_wf m \<Longrightarrow> bt_collect m = m"
  by (rule bt_ext) (auto dest!: bt_wf_distinct simp: rev_map [symmetric] map_of_inject_set)

section \<open>HashMap: association lists with distinct keys, in no particular order\<close>

type_synonym ('k, 'v) hmap = "('k \<times> 'v) list"

abbreviation hm_insert :: "'k \<Rightarrow> 'v \<Rightarrow> ('k, 'v) hmap \<Rightarrow> ('k, 'v) hmap" where
  "hm_insert \<equiv> AList.update"

abbreviation hm_remove :: "'k \<Rightarrow> ('k, 'v) hmap \<Rightarrow> ('k, 'v) hmap" where
  "hm_remove \<equiv> AList.delete"

abbreviation hm_wf :: "('k, 'v) hmap \<Rightarrow> bool" where
  "hm_wf m \<equiv> distinct (map fst m)"

lemma map_of_hm_insert [simp]: "map_of (hm_insert k v m) = (map_of m)(k \<mapsto> v)"
  by (simp add: update_conv')

lemma map_of_hm_remove [simp]: "map_of (hm_remove k m) = (map_of m)(k := None)"
  by (simp add: delete_conv')

lemma hm_wf_insert [simp, intro]: "hm_wf m \<Longrightarrow> hm_wf (hm_insert k v m)"
  by (rule distinct_update)

lemma hm_wf_remove [simp, intro]: "hm_wf m \<Longrightarrow> hm_wf (hm_remove k m)"
  by (rule distinct_delete)

section \<open>Lists kept in canonical order by a key\<close>

text \<open>\<open>Vec::dedup_by\<close>: drop every element equal, under the test, to the last one kept.\<close>

fun dedup_by :: "('a \<Rightarrow> 'a \<Rightarrow> bool) \<Rightarrow> 'a list \<Rightarrow> 'a list" where
  "dedup_by eq [] = []"
| "dedup_by eq [x] = [x]"
| "dedup_by eq (x # y # zs) =
     (if eq y x then dedup_by eq (x # zs) else x # dedup_by eq (y # zs))"

definition keyed :: "('a \<Rightarrow> 'k) \<Rightarrow> 'a list \<Rightarrow> ('k \<times> 'a) list" where
  "keyed key xs = map (\<lambda>x. (key x, x)) xs"

lemma map_fst_keyed [simp]: "map fst (keyed key xs) = map key xs"
  by (simp add: keyed_def comp_def)

lemma map_snd_keyed [simp]: "map snd (keyed key xs) = xs"
  by (simp add: keyed_def comp_def)

lemma keyed_simps [simp]:
  "keyed key [] = []"
  "keyed key (x # xs) = (key x, x) # keyed key xs"
  "keyed key (xs @ ys) = keyed key xs @ keyed key ys"
  "keyed key (rev xs) = rev (keyed key xs)"
  by (simp_all add: keyed_def rev_map)

lemma map_of_keyed_filter:
  "map_of (keyed key xs) k =
     (case filter (\<lambda>x. key x = k) xs of [] \<Rightarrow> None | x # _ \<Rightarrow> Some x)"
  by (induction xs) auto

lemma map_of_keyed_Some: "map_of (keyed key xs) k = Some x \<Longrightarrow> key x = k \<and> x \<in> set xs"
  by (induction xs) (auto split: if_splits)

lemma map_of_keyed_dedup:
  "map_of (keyed key (dedup_by (\<lambda>a b. key a = key b) xs)) = map_of (keyed key xs)"
  by (induction "\<lambda>a b. key a = key b" xs rule: dedup_by.induct) (auto simp: fun_eq_iff)

lemma set_dedup_by: "set (dedup_by eq xs) \<subseteq> set xs"
  by (induction eq xs rule: dedup_by.induct) auto

lemma hd_dedup_by: "dedup_by eq (x # xs) = y # ys \<Longrightarrow> y = x"
  by (induction eq "x # xs" arbitrary: xs rule: dedup_by.induct) (auto split: if_splits)

lemma strict_sorted_dedup:
  "sorted (map key xs) \<Longrightarrow> sorted_wrt (<) (map key (dedup_by (\<lambda>a b. key a = key b) xs))"
proof (induction "\<lambda>a b. key a = key b" xs rule: dedup_by.induct)
  case (3 x y zs)
  show ?case
  proof (cases "key y = key x")
    case True
    with 3 show ?thesis by simp
  next
    case False
    with "3.prems" have lt: "key x < key y" by (simp add: order_less_le)
    have "\<forall>z \<in> set (dedup_by (\<lambda>a b. key a = key b) (y # zs)). key y \<le> key z"
      using set_dedup_by [of "\<lambda>a b. key a = key b" "y # zs"] "3.prems" by auto
    with lt False 3 show ?thesis by fastforce
  qed
qed auto

end
