(* ===== verification/Nq_Frame.thy ===== *)
theory Nq_Frame
  imports Nq_Prelude
begin

text \<open>
  Data-plane frames (\<open>crates/nqvpn-proto/src/frame.rs\<close>, \<open>types.rs\<close>): the routed header every
  relay parses, the in-place hop counter, hop-local probes, relay decisions and trace notes.
\<close>

section \<open>Node identities and roles\<close>

type_synonym node_id = u32

datatype role = Client | Relay

section \<open>Constants\<close>

definition T_DATA :: u8 where "T_DATA = 0x01"
definition T_HANDSHAKE :: u8 where "T_HANDSHAKE = 0x02"
definition T_PROBE :: u8 where "T_PROBE = 0xF1"
definition T_REPLY :: u8 where "T_REPLY = 0xF2"
definition T_TRACE_NOTE :: u8 where "T_TRACE_NOTE = 0xF3"
definition ROUTED_HEADER_LEN :: nat where "ROUTED_HEADER_LEN = 15"
definition PROBE_LEN :: nat where "PROBE_LEN = 17"
definition TRACE_NOTE_LEN :: nat where "TRACE_NOTE_LEN = 19"
definition FLAG_TRACE :: u8 where "FLAG_TRACE = 0x01"
definition MAX_HOPS :: u8 where "MAX_HOPS = 2"
definition OFF_FLAGS :: nat where "OFF_FLAGS = 9"
definition OFF_HOP :: nat where "OFF_HOP = 10"

lemmas frame_consts =
  T_DATA_def T_HANDSHAKE_def T_PROBE_def T_REPLY_def T_TRACE_NOTE_def
  ROUTED_HEADER_LEN_def PROBE_LEN_def TRACE_NOTE_LEN_def
  FLAG_TRACE_def MAX_HOPS_def OFF_FLAGS_def OFF_HOP_def

section \<open>The routed header\<close>

record routed_header =
  rh_kind :: u8
  rh_src_id :: node_id
  rh_dst_id :: node_id
  rh_flags :: u8
  rh_hop :: u8
  rh_trace :: u32

definition rh_new :: "u8 \<Rightarrow> node_id \<Rightarrow> node_id \<Rightarrow> u32 \<Rightarrow> routed_header" where
  "rh_new kind src_id dst_id trace =
     \<lparr>rh_kind = kind, rh_src_id = src_id, rh_dst_id = dst_id, rh_flags = 0, rh_hop = 0,
      rh_trace = trace\<rparr>"

definition rh_write :: "routed_header \<Rightarrow> bytes \<Rightarrow> bytes" where
  "rh_write h out =
     out @ [rh_kind h] @ be_bytes 4 (rh_src_id h) @ be_bytes 4 (rh_dst_id h)
       @ [rh_flags h] @ [rh_hop h] @ be_bytes 4 (rh_trace h)"

definition rh_parse :: "bytes \<Rightarrow> routed_header option" where
  "rh_parse buf =
     (if length buf < ROUTED_HEADER_LEN then None
      else let kind = buf ! 0 in
        if kind \<noteq> T_DATA \<and> kind \<noteq> T_HANDSHAKE then None
        else Some \<lparr>
          rh_kind = kind,
          rh_src_id = from_be [buf ! 1, buf ! 2, buf ! 3, buf ! 4],
          rh_dst_id = from_be [buf ! 5, buf ! 6, buf ! 7, buf ! 8],
          rh_flags = buf ! OFF_FLAGS,
          rh_hop = buf ! OFF_HOP,
          rh_trace = from_be [buf ! 11, buf ! 12, buf ! 13, buf ! 14]\<rparr>)"

definition rh_traced :: "routed_header \<Rightarrow> bool" where
  "rh_traced h \<longleftrightarrow> rh_flags h AND FLAG_TRACE \<noteq> 0"

text \<open>\<open>u8::saturating_add\<close>.\<close>

definition sat_add8 :: "u8 \<Rightarrow> u8 \<Rightarrow> u8" where
  "sat_add8 a b = (if unat a + unat b < 256 then a + b else 255)"

text \<open>\<open>bump_hop\<close> updates the buffer in place: the model returns the verdict and the buffer.\<close>

definition bump_hop :: "bytes \<Rightarrow> u8 option \<times> bytes" where
  "bump_hop buf =
     (if length buf < ROUTED_HEADER_LEN then (None, buf)
      else let next = sat_add8 (buf ! OFF_HOP) 1 in
        if next > MAX_HOPS then (None, buf)
        else (Some next, buf[OFF_HOP := next]))"

section \<open>Probes\<close>

record probe =
  pr_kind :: u8
  pr_seq :: u64
  pr_t_sent :: u64

definition probe_encode :: "probe \<Rightarrow> bytes" where
  "probe_encode p = [pr_kind p] @ be_bytes 8 (pr_seq p) @ be_bytes 8 (pr_t_sent p)"

definition probe_parse :: "bytes \<Rightarrow> probe option" where
  "probe_parse buf =
     (if length buf < PROBE_LEN \<or> (buf ! 0 \<noteq> T_PROBE \<and> buf ! 0 \<noteq> T_REPLY) then None
      else Some \<lparr>pr_kind = buf ! 0, pr_seq = from_be (slice 1 8 buf),
                 pr_t_sent = from_be (slice 9 8 buf)\<rparr>)"

definition probe_into_reply :: "probe \<Rightarrow> probe" where
  "probe_into_reply p = p\<lparr>pr_kind := T_REPLY\<rparr>"

section \<open>Decisions\<close>

datatype decision =
    DeliverLocal | ForwardMesh | TerminateHere
  | DropSrcSpoofed | DropNoSecondHop | DropMeshLinkDown | DropDstUnknown | DropNoEndpoint
  | DropTooManyHops | DropSendFailed | DropRateLimited | DropMalformed

fun decision_u8 :: "decision \<Rightarrow> u8" where
  "decision_u8 DeliverLocal = 1"
| "decision_u8 ForwardMesh = 2"
| "decision_u8 TerminateHere = 3"
| "decision_u8 DropSrcSpoofed = 16"
| "decision_u8 DropNoSecondHop = 17"
| "decision_u8 DropMeshLinkDown = 18"
| "decision_u8 DropDstUnknown = 19"
| "decision_u8 DropNoEndpoint = 20"
| "decision_u8 DropTooManyHops = 21"
| "decision_u8 DropSendFailed = 22"
| "decision_u8 DropRateLimited = 23"
| "decision_u8 DropMalformed = 24"

definition decision_from_u8 :: "u8 \<Rightarrow> decision option" where
  "decision_from_u8 v =
     (if v = 1 then Some DeliverLocal
      else if v = 2 then Some ForwardMesh
      else if v = 3 then Some TerminateHere
      else if v = 16 then Some DropSrcSpoofed
      else if v = 17 then Some DropNoSecondHop
      else if v = 18 then Some DropMeshLinkDown
      else if v = 19 then Some DropDstUnknown
      else if v = 20 then Some DropNoEndpoint
      else if v = 21 then Some DropTooManyHops
      else if v = 22 then Some DropSendFailed
      else if v = 23 then Some DropRateLimited
      else if v = 24 then Some DropMalformed
      else None)"

fun decision_as_str :: "decision \<Rightarrow> string" where
  "decision_as_str DeliverLocal = ''deliver_local''"
| "decision_as_str ForwardMesh = ''forward_mesh''"
| "decision_as_str TerminateHere = ''terminate_here''"
| "decision_as_str DropSrcSpoofed = ''drop_src_spoofed''"
| "decision_as_str DropNoSecondHop = ''drop_no_second_hop''"
| "decision_as_str DropMeshLinkDown = ''drop_mesh_link_down''"
| "decision_as_str DropDstUnknown = ''drop_dst_unknown''"
| "decision_as_str DropNoEndpoint = ''drop_no_endpoint''"
| "decision_as_str DropTooManyHops = ''drop_too_many_hops''"
| "decision_as_str DropSendFailed = ''drop_send_failed''"
| "decision_as_str DropRateLimited = ''drop_rate_limited''"
| "decision_as_str DropMalformed = ''drop_malformed''"

definition decision_is_drop :: "decision \<Rightarrow> bool" where
  "decision_is_drop d \<longleftrightarrow> decision_u8 d \<ge> 16"

definition decision_ALL :: "decision list" where
  "decision_ALL =
     [DeliverLocal, ForwardMesh, TerminateHere, DropSrcSpoofed, DropNoSecondHop,
      DropMeshLinkDown, DropDstUnknown, DropNoEndpoint, DropTooManyHops, DropSendFailed,
      DropRateLimited, DropMalformed]"

section \<open>Trace notes\<close>

record trace_note =
  tn_origin :: node_id
  tn_trace :: u32
  tn_hop :: u8
  tn_relay_id :: node_id
  tn_decision :: decision
  tn_detail :: u32

definition trace_note_encode :: "trace_note \<Rightarrow> bytes" where
  "trace_note_encode n =
     [T_TRACE_NOTE] @ be_bytes 4 (tn_origin n) @ be_bytes 4 (tn_trace n) @ [tn_hop n]
       @ be_bytes 4 (tn_relay_id n) @ [decision_u8 (tn_decision n)] @ be_bytes 4 (tn_detail n)"

definition trace_note_parse :: "bytes \<Rightarrow> trace_note option" where
  "trace_note_parse buf =
     (if length buf < TRACE_NOTE_LEN \<or> buf ! 0 \<noteq> T_TRACE_NOTE then None
      else case decision_from_u8 (buf ! 14) of
        None \<Rightarrow> None
      | Some d \<Rightarrow> Some \<lparr>
          tn_origin = from_be (slice 1 4 buf),
          tn_trace = from_be (slice 5 4 buf),
          tn_hop = buf ! 9,
          tn_relay_id = from_be (slice 10 4 buf),
          tn_decision = d,
          tn_detail = from_be (slice 15 4 buf)\<rparr>)"

section \<open>Lemmas\<close>

lemma length_rh_write [simp]: "length (rh_write h out) = length out + ROUTED_HEADER_LEN"
  by (simp add: rh_write_def ROUTED_HEADER_LEN_def)

lemma length_ge_15_conv:
  "15 \<le> length xs \<longleftrightarrow>
     (\<exists>a b c d e f g h i j k l m n p ys. xs = a # b # c # d # e # f # g # h # i # j # k # l # m # n # p # ys)"
  by (auto simp: numeral_eq_Suc Suc_le_length_iff)

lemma rh_parse_iff:
  "rh_parse buf = Some h \<longleftrightarrow>
     (rh_kind h = T_DATA \<or> rh_kind h = T_HANDSHAKE) \<and> (\<exists>rest. buf = rh_write h [] @ rest)"
proof
  assume p: "rh_parse buf = Some h"
  then have "15 \<le> length buf"
    by (simp add: rh_parse_def ROUTED_HEADER_LEN_def not_less split: if_splits)
  then obtain a b c d e f g i j k l m n o' p' ys where
    buf: "buf = a # b # c # d # e # f # g # i # j # k # l # m # n # o' # p' # ys"
    unfolding length_ge_15_conv by blast
  have "h = \<lparr>rh_kind = a, rh_src_id = from_be [b, c, d, e], rh_dst_id = from_be [f, g, i, j],
             rh_flags = k, rh_hop = l, rh_trace = from_be [m, n, o', p']\<rparr>"
    and "a = T_DATA \<or> a = T_HANDSHAKE"
    using p by (auto simp: rh_parse_def buf Let_def OFF_FLAGS_def OFF_HOP_def split: if_splits)
  then show "(rh_kind h = T_DATA \<or> rh_kind h = T_HANDSHAKE) \<and> (\<exists>rest. buf = rh_write h [] @ rest)"
    by (auto simp: rh_write_def buf)
next
  assume a: "(rh_kind h = T_DATA \<or> rh_kind h = T_HANDSHAKE) \<and> (\<exists>rest. buf = rh_write h [] @ rest)"
  then obtain rest where k: "rh_kind h = T_DATA \<or> rh_kind h = T_HANDSHAKE"
    and buf: "buf = rh_write h [] @ rest" by blast
  obtain s0 s1 s2 s3 where s: "be_bytes 4 (rh_src_id h) = [s0, s1, s2, s3]"
    "from_be [s0, s1, s2, s3] = rh_src_id h" by (rule be_bytes_4_obtain)
  obtain d0 d1 d2 d3 where d: "be_bytes 4 (rh_dst_id h) = [d0, d1, d2, d3]"
    "from_be [d0, d1, d2, d3] = rh_dst_id h" by (rule be_bytes_4_obtain)
  obtain t0 t1 t2 t3 where t: "be_bytes 4 (rh_trace h) = [t0, t1, t2, t3]"
    "from_be [t0, t1, t2, t3] = rh_trace h" by (rule be_bytes_4_obtain)
  show "rh_parse buf = Some h"
    using k s(2) d(2) t(2)
    by (auto simp: rh_parse_def buf rh_write_def s(1) d(1) t(1) Let_def
        ROUTED_HEADER_LEN_def OFF_FLAGS_def OFF_HOP_def intro: routed_header.equality)
qed

lemma unat_sat_add8: "unat (sat_add8 a b) = min (unat a + unat b) 255"
  by (auto simp: sat_add8_def unat_word_ariths)

lemma sat_add8_le_MAX_HOPS: "sat_add8 x 1 > MAX_HOPS \<longleftrightarrow> \<not> x < 2"
  by (auto simp: word_less_nat_alt unat_sat_add8 MAX_HOPS_def)

lemma sat_add8_small: "x < 2 \<Longrightarrow> sat_add8 x 1 = x + 1"
  by (simp add: sat_add8_def word_less_nat_alt)

lemma rh_write_hop_update:
  "(rh_write h [] @ rest)[OFF_HOP := v] = rh_write (h\<lparr>rh_hop := v\<rparr>) [] @ rest"
proof -
  obtain s0 s1 s2 s3 where s: "be_bytes 4 (rh_src_id h) = [s0, s1, s2, s3]"
    by (rule be_bytes_4_obtain)
  obtain d0 d1 d2 d3 where d: "be_bytes 4 (rh_dst_id h) = [d0, d1, d2, d3]"
    by (rule be_bytes_4_obtain)
  show ?thesis by (simp add: rh_write_def s d OFF_HOP_def)
qed

lemma rh_write_nth_hop: "(rh_write h [] @ rest) ! OFF_HOP = rh_hop h"
proof -
  obtain s0 s1 s2 s3 where s: "be_bytes 4 (rh_src_id h) = [s0, s1, s2, s3]"
    by (rule be_bytes_4_obtain)
  obtain d0 d1 d2 d3 where d: "be_bytes 4 (rh_dst_id h) = [d0, d1, d2, d3]"
    by (rule be_bytes_4_obtain)
  show ?thesis by (simp add: rh_write_def s d OFF_HOP_def)
qed

text \<open>What a relay does to the bytes of a frame it counts: one more hop, nothing else.\<close>

lemma bump_hop_write:
  "bump_hop (rh_write h [] @ rest) =
     (if rh_hop h < 2 then (Some (rh_hop h + 1), rh_write (h\<lparr>rh_hop := rh_hop h + 1\<rparr>) [] @ rest)
      else (None, rh_write h [] @ rest))"
  unfolding bump_hop_def rh_write_nth_hop rh_write_hop_update
  by (simp add: Let_def sat_add8_le_MAX_HOPS sat_add8_small del: not_less)

lemma bump_hop_length: "length (snd (bump_hop buf)) = length buf"
  by (simp add: bump_hop_def Let_def)

lemma decision_from_u8_iff: "decision_from_u8 v = Some d \<longleftrightarrow> v = decision_u8 d"
proof
  assume "v = decision_u8 d"
  then show "decision_from_u8 v = Some d" by (cases d) (simp_all add: decision_from_u8_def)
next
  assume "decision_from_u8 v = Some d"
  then show "v = decision_u8 d"
    unfolding decision_from_u8_def by (auto split: if_splits)
qed

lemma drop_from_slice4:
  "i + 4 \<le> length xs \<Longrightarrow>
     be_bytes 4 (from_be (slice i 4 xs) :: u32) @ drop (i + 4) xs = drop i xs"
  by (simp add: slice_split)

lemma drop_from_slice8:
  "i + 8 \<le> length xs \<Longrightarrow>
     be_bytes 8 (from_be (slice i 8 xs) :: u64) @ drop (i + 8) xs = drop i xs"
  by (simp add: slice_split)

lemma slice_at:
  "length ys = i \<Longrightarrow> length zs = n \<Longrightarrow> slice i n (ys @ zs @ us) = zs"
  by (simp add: slice_def)

lemma trace_note_encode_parse:
  "trace_note_parse (trace_note_encode n @ rest) = Some n"
proof -
  obtain a0 a1 a2 a3 where a: "be_bytes 4 (tn_origin n) = [a0, a1, a2, a3]"
    "from_be [a0, a1, a2, a3] = tn_origin n" by (rule be_bytes_4_obtain)
  obtain b0 b1 b2 b3 where b: "be_bytes 4 (tn_trace n) = [b0, b1, b2, b3]"
    "from_be [b0, b1, b2, b3] = tn_trace n" by (rule be_bytes_4_obtain)
  obtain c0 c1 c2 c3 where c: "be_bytes 4 (tn_relay_id n) = [c0, c1, c2, c3]"
    "from_be [c0, c1, c2, c3] = tn_relay_id n" by (rule be_bytes_4_obtain)
  obtain d0 d1 d2 d3 where d: "be_bytes 4 (tn_detail n) = [d0, d1, d2, d3]"
    "from_be [d0, d1, d2, d3] = tn_detail n" by (rule be_bytes_4_obtain)
  have "decision_from_u8 (decision_u8 (tn_decision n)) = Some (tn_decision n)"
    by (simp add: decision_from_u8_iff)
  then show ?thesis
    by (simp add: trace_note_parse_def trace_note_encode_def a b c d slice_def TRACE_NOTE_LEN_def)
qed

lemma trace_note_parse_encode:
  assumes "trace_note_parse buf = Some n"
  shows "buf = trace_note_encode n @ drop TRACE_NOTE_LEN buf"
proof -
  from assms have len: "19 \<le> length buf" and tag: "buf ! 0 = T_TRACE_NOTE"
    by (auto simp: trace_note_parse_def TRACE_NOTE_LEN_def split: if_splits option.splits)
  from assms len have n: "tn_origin n = from_be (slice 1 4 buf)"
    "tn_trace n = from_be (slice 5 4 buf)" "tn_hop n = buf ! 9"
    "tn_relay_id n = from_be (slice 10 4 buf)" "decision_u8 (tn_decision n) = buf ! 14"
    "tn_detail n = from_be (slice 15 4 buf)"
    by (auto simp: trace_note_parse_def TRACE_NOTE_LEN_def decision_from_u8_iff
        split: if_splits option.splits)
  have "buf \<noteq> []" using len by auto
  then have "buf = buf ! 0 # drop 1 buf" "drop 9 buf = buf ! 9 # drop 10 buf"
    "drop 14 buf = buf ! 14 # drop 15 buf"
    using len Cons_nth_drop_Suc [of 0 buf] Cons_nth_drop_Suc [of 9 buf]
      Cons_nth_drop_Suc [of 14 buf] by auto
  moreover have "drop 1 buf = slice 1 4 buf @ drop 5 buf" "drop 5 buf = slice 5 4 buf @ drop 9 buf"
    "drop 10 buf = slice 10 4 buf @ drop 14 buf" "drop 15 buf = slice 15 4 buf @ drop 19 buf"
    using len slice_split [of 1 4 buf] slice_split [of 5 4 buf] slice_split [of 10 4 buf]
      slice_split [of 15 4 buf] by simp_all
  ultimately show ?thesis
    using len tag by (simp add: trace_note_encode_def n TRACE_NOTE_LEN_def)
qed

lemma probe_encode_parse:
  "pr_kind p = T_PROBE \<or> pr_kind p = T_REPLY \<Longrightarrow> probe_parse (probe_encode p @ rest) = Some p"
proof -
  assume k: "pr_kind p = T_PROBE \<or> pr_kind p = T_REPLY"
  obtain a0 a1 a2 a3 a4 a5 a6 a7 where a: "be_bytes 8 (pr_seq p) = [a0, a1, a2, a3, a4, a5, a6, a7]"
    "from_be [a0, a1, a2, a3, a4, a5, a6, a7] = pr_seq p" by (rule be_bytes_8_obtain)
  obtain b0 b1 b2 b3 b4 b5 b6 b7 where b: "be_bytes 8 (pr_t_sent p) = [b0, b1, b2, b3, b4, b5, b6, b7]"
    "from_be [b0, b1, b2, b3, b4, b5, b6, b7] = pr_t_sent p" by (rule be_bytes_8_obtain)
  show ?thesis
    using k by (auto simp: probe_parse_def probe_encode_def a b slice_def PROBE_LEN_def)
qed

lemma rh_parse_bump_hop:
  assumes "rh_parse buf = Some h" and "bump_hop buf = (Some n, buf')"
  shows "rh_hop h < 2 \<and> n = rh_hop h + 1 \<and> rh_parse buf' = Some (h\<lparr>rh_hop := n\<rparr>)"
proof -
  from assms(1) obtain rest where k: "rh_kind h = T_DATA \<or> rh_kind h = T_HANDSHAKE"
    and buf: "buf = rh_write h [] @ rest" by (auto simp: rh_parse_iff)
  have "rh_hop h < 2" "n = rh_hop h + 1" "buf' = rh_write (h\<lparr>rh_hop := n\<rparr>) [] @ rest"
    using assms(2) by (auto simp: buf bump_hop_write split: if_splits)
  moreover have "rh_parse buf' = Some (h\<lparr>rh_hop := n\<rparr>)"
    unfolding rh_parse_iff using k calculation(3) by auto
  ultimately show ?thesis by blast
qed

section \<open>Properties\<close>

text \<open>
  C30. Parsing a routed header is exact: \<open>RoutedHeader::parse\<close> accepts a buffer with header \<open>h\<close>
  if and only if \<open>h\<close> has one of the two routed kinds and the buffer starts with the 15 bytes
  \<open>RoutedHeader::write\<close> produces for \<open>h\<close>.
\<close>

theorem rh_parse_exact:
  "rh_parse buf = Some h \<longleftrightarrow>
     (rh_kind h = T_DATA \<or> rh_kind h = T_HANDSHAKE) \<and>
     take ROUTED_HEADER_LEN buf = rh_write h []"
proof -
  have "(\<exists>rest. buf = rh_write h [] @ rest) \<longleftrightarrow> take ROUTED_HEADER_LEN buf = rh_write h []"
    using length_rh_write [of h "[]"] by (metis append_eq_conv_conj append_take_drop_id list.size(3) add_0)
  then show ?thesis by (simp add: rh_parse_iff)
qed

text \<open>
  C25. The hop guard: on a routed frame \<open>bump_hop\<close> refuses exactly when two hops were already
  counted, and otherwise counts one more in the header and leaves every other field and every
  byte after the header as it was. A refused frame is not touched.
\<close>

theorem bump_hop_guard:
  assumes "rh_parse buf = Some h"
  shows "if rh_hop h < 2
    then \<exists>buf'. bump_hop buf = (Some (rh_hop h + 1), buf')
      \<and> rh_parse buf' = Some (h\<lparr>rh_hop := rh_hop h + 1\<rparr>)
      \<and> drop ROUTED_HEADER_LEN buf' = drop ROUTED_HEADER_LEN buf
    else bump_hop buf = (None, buf)"
proof -
  from assms obtain rest where k: "rh_kind h = T_DATA \<or> rh_kind h = T_HANDSHAKE"
    and buf: "buf = rh_write h [] @ rest" by (auto simp: rh_parse_iff)
  show ?thesis
    using k by (auto simp: buf bump_hop_write rh_parse_iff)
qed

theorem bump_hop_guard_witness:
  "bump_hop [1, 0,0,0,7, 0,0,0,9, 0, 1, 0,0,0,5, 99] =
     (Some 2, [1, 0,0,0,7, 0,0,0,9, 0, 2, 0,0,0,5, 99])
   \<and> bump_hop [1, 0,0,0,7, 0,0,0,9, 0, 2, 0,0,0,5] = (None, [1, 0,0,0,7, 0,0,0,9, 0, 2, 0,0,0,5])"
proof -
  have p: "rh_parse [1, 0,0,0,7, 0,0,0,9, 0, 2, 0,0,0,5] =
      Some \<lparr>rh_kind = 1, rh_src_id = 7, rh_dst_id = 9, rh_flags = 0, rh_hop = 2, rh_trace = 5\<rparr>"
    by (simp add: rh_parse_def frame_consts from_be_list)
  show ?thesis
    using bump_hop_guard [OF p] by (simp add: bump_hop_def frame_consts sat_add8_def)
qed

text \<open>
  C29. Trace notes are exact: \<open>TraceNote::parse\<close> returns a note if and only if the buffer starts
  with the 19 bytes \<open>TraceNote::encode\<close> gives for it, so every decision code survives the wire
  and no byte string is read as two notes.
\<close>

theorem trace_note_exact:
  "trace_note_parse buf = Some n \<longleftrightarrow> (\<exists>rest. buf = trace_note_encode n @ rest)"
  using trace_note_encode_parse trace_note_parse_encode by blast

end
