(* ===== verification/Nq_View.thy ===== *)
theory Nq_View
  imports Nq_Frame "HOL-Library.Product_Lexorder"
begin

text \<open>
  The network view (\<open>crates/nqvpn-proto/src/control.rs\<close>): snapshots in canonical order, the delta
  between two generations, its application, and the content digest. The encoder behind the digest
  (\<open>bincode\<close>) is a parameter.

  An \<open>IpNet\<close> is read by the sources through its variant, \<open>addr()\<close> and \<open>prefix_len()\<close>; the datatype
  holds exactly these. Its operations (\<open>contains\<close>, \<open>trunc\<close>, ...) belong to the \<open>ipnet\<close> package and
  are parameters where they are used.
\<close>

section \<open>Data\<close>

datatype ip_net = V4 u32 u8 | V6 u128 u8

record hello =
  hl_credential :: string
  hl_have_gen :: u64

record peer_info =
  pi_node_id :: node_id
  pi_name :: string
  pi_role :: role
  pi_prefixes :: "ip_net list"
  pi_pubkey :: string
  pi_online :: bool
  pi_login_gen :: u64

record attachment_entry =
  ae_node_id :: node_id
  ae_relay_id :: node_id

record relay_endpoint =
  re_relay_id :: node_id
  re_name :: string
  re_addr :: string
  re_cert_fp :: string

record network_mtu =
  nm_mtu :: u16
  nm_limited_by :: string

record key_info =
  ki_kid :: string
  ki_key :: string
  ki_state :: string

record snapshot =
  sn_gen :: u64
  sn_members :: "peer_info list"
  sn_attachments :: "attachment_entry list"
  sn_relays :: "relay_endpoint list"
  sn_mtu :: network_mtu
  sn_keys :: "key_info list"
  sn_reserved_prefixes :: "ip_net list"

definition snapshot_default :: snapshot where
  "snapshot_default = \<lparr>sn_gen = 0, sn_members = [], sn_attachments = [], sn_relays = [],
     sn_mtu = \<lparr>nm_mtu = 0, nm_limited_by = []\<rparr>, sn_keys = [], sn_reserved_prefixes = []\<rparr>"

record delta =
  dl_base_gen :: u64
  dl_gen :: u64
  dl_members_changed :: "peer_info list"
  dl_members_removed :: "node_id list"
  dl_attachments_changed :: "attachment_entry list"
  dl_attachments_removed :: "node_id list"
  dl_relays :: "relay_endpoint list option"
  dl_mtu :: "network_mtu option"
  dl_keys :: "key_info list option"
  dl_reserved_prefixes :: "ip_net list option"

datatype generation_gap = GenerationGap u64 u64

section \<open>Canonical order\<close>

definition keep_last_sorted :: "('a \<Rightarrow> 'k::linorder) \<Rightarrow> 'a list \<Rightarrow> 'a list" where
  "keep_last_sorted key v = dedup_by (\<lambda>a b. key a = key b) (sort_key key (rev v))"

fun prefix_order :: "ip_net \<Rightarrow> u8 \<times> u128 \<times> u8" where
  "prefix_order (V4 a l) = (4, ucast a, l)"
| "prefix_order (V6 a l) = (6, a, l)"

definition snapshot_normalize :: "snapshot \<Rightarrow> snapshot" where
  "snapshot_normalize s = s\<lparr>
     sn_members := keep_last_sorted pi_node_id (sn_members s),
     sn_attachments := keep_last_sorted ae_node_id (sn_attachments s),
     sn_relays := keep_last_sorted re_relay_id (sn_relays s),
     sn_keys := keep_last_sorted ki_kid (sn_keys s),
     sn_reserved_prefixes := dedup_by (=) (sort_key prefix_order (sn_reserved_prefixes s))\<rparr>"

section \<open>Digest\<close>

text \<open>FNV-1a over the encoding of the normalised snapshot at generation 0.\<close>

definition fnv1a :: "bytes \<Rightarrow> u64" where
  "fnv1a bs = foldl (\<lambda>h b. (h XOR ucast b) * 0x100000001b3) 0xcbf29ce484222325 bs"

definition digest :: "(snapshot \<Rightarrow> bytes) \<Rightarrow> snapshot \<Rightarrow> u64" where
  "digest encode_unbounded s = fnv1a (encode_unbounded (snapshot_normalize (s\<lparr>sn_gen := 0\<rparr>)))"

section \<open>Diff and apply\<close>

definition ae_pair :: "attachment_entry \<Rightarrow> node_id \<times> node_id" where
  "ae_pair a = (ae_node_id a, ae_relay_id a)"

definition ae_of :: "node_id \<times> node_id \<Rightarrow> attachment_entry" where
  "ae_of p = \<lparr>ae_node_id = fst p, ae_relay_id = snd p\<rparr>"

definition diff :: "snapshot \<Rightarrow> snapshot \<Rightarrow> delta" where
  "diff old newer =
    (let old_m = bt_collect (keyed pi_node_id (sn_members old));
         new_m = bt_collect (keyed pi_node_id (sn_members newer));
         old_a = bt_collect (map ae_pair (sn_attachments old));
         new_a = bt_collect (map ae_pair (sn_attachments newer))
     in \<lparr>
      dl_base_gen = sn_gen old,
      dl_gen = sn_gen newer,
      dl_members_changed = filter (\<lambda>m. map_of old_m (pi_node_id m) \<noteq> Some m) (map snd new_m),
      dl_members_removed = filter (\<lambda>i. map_of new_m i = None) (map fst old_m),
      dl_attachments_changed = map ae_of (filter (\<lambda>(n, r). map_of old_a n \<noteq> Some r) new_a),
      dl_attachments_removed = filter (\<lambda>i. map_of new_a i = None) (map fst old_a),
      dl_relays = (if sn_relays old \<noteq> sn_relays newer then Some (sn_relays newer) else None),
      dl_mtu = (if sn_mtu old \<noteq> sn_mtu newer then Some (sn_mtu newer) else None),
      dl_keys = (if sn_keys old \<noteq> sn_keys newer then Some (sn_keys newer) else None),
      dl_reserved_prefixes =
        (if sn_reserved_prefixes old \<noteq> sn_reserved_prefixes newer
         then Some (sn_reserved_prefixes newer) else None)\<rparr>)"

definition unwrap_or :: "'a \<Rightarrow> 'a option \<Rightarrow> 'a" where
  "unwrap_or d x = (case x of None \<Rightarrow> d | Some v \<Rightarrow> v)"

definition snapshot_apply :: "snapshot \<Rightarrow> delta \<Rightarrow> generation_gap + snapshot" where
  "snapshot_apply s d =
    (if dl_gen d \<le> sn_gen s then Inr s
     else if dl_base_gen d \<noteq> sn_gen s then Inl (GenerationGap (dl_base_gen d) (sn_gen s))
     else
       let members = bt_collect (keyed pi_node_id (sn_members s));
           members = fold bt_remove (dl_members_removed d) members;
           members = fold (\<lambda>m. bt_insert (pi_node_id m) m) (dl_members_changed d) members;
           attachments = bt_collect (map ae_pair (sn_attachments s));
           attachments = fold bt_remove (dl_attachments_removed d) attachments;
           attachments = fold (\<lambda>a. bt_insert (ae_node_id a) (ae_relay_id a))
             (dl_attachments_changed d) attachments
       in Inr (snapshot_normalize (s\<lparr>
         sn_members := map snd members,
         sn_attachments := map ae_of attachments,
         sn_relays := unwrap_or (sn_relays s) (dl_relays d),
         sn_mtu := unwrap_or (sn_mtu s) (dl_mtu d),
         sn_keys := unwrap_or (sn_keys s) (dl_keys d),
         sn_reserved_prefixes := unwrap_or (sn_reserved_prefixes s) (dl_reserved_prefixes d),
         sn_gen := dl_gen d\<rparr>)))"

section \<open>Lookups\<close>

text \<open>
  \<open>slice::binary_search_by_key\<close>: halve the range until one element is left, then compare it.
\<close>

function bsearch_base :: "('a \<Rightarrow> 'k::linorder) \<Rightarrow> 'k \<Rightarrow> 'a list \<Rightarrow> nat \<Rightarrow> nat \<Rightarrow> nat" where
  "bsearch_base key k xs base sz =
     (if sz \<le> 1 then base
      else let half = sz div 2; mid = base + half in
        bsearch_base key k xs (if key (xs ! mid) > k then base else mid) (sz - half))"
  by pat_completeness auto
termination by (relation "measure (\<lambda>(key, k, xs, base, sz). sz)") auto

declare bsearch_base.simps [simp del]

definition binary_search_by_key :: "('a \<Rightarrow> 'k::linorder) \<Rightarrow> 'k \<Rightarrow> 'a list \<Rightarrow> nat option" where
  "binary_search_by_key key k xs =
     (if xs = [] then None
      else let i = bsearch_base key k xs 0 (length xs) in
        if key (xs ! i) = k then Some i else None)"

definition snapshot_member :: "snapshot \<Rightarrow> node_id \<Rightarrow> peer_info option" where
  "snapshot_member s i =
     map_option (\<lambda>j. sn_members s ! j) (binary_search_by_key pi_node_id i (sn_members s))"

definition attachment_of :: "snapshot \<Rightarrow> node_id \<Rightarrow> node_id option" where
  "attachment_of s i =
     map_option (\<lambda>j. ae_relay_id (sn_attachments s ! j))
       (binary_search_by_key ae_node_id i (sn_attachments s))"

section \<open>Facts and reports\<close>

record attached_client =
  ac_node_id :: node_id
  ac_session_id :: u64

record link_traffic =
  lt_peer_id :: node_id
  lt_tx_bytes :: u64
  lt_tx_pkts :: u64
  lt_rx_bytes :: u64
  lt_rx_pkts :: u64
  lt_up :: bool

record traffic_report =
  tr_links :: "link_traffic list"
  tr_local_bytes :: u64
  tr_local_pkts :: u64
  tr_terminated_bytes :: u64
  tr_terminated_pkts :: u64

record heartbeat =
  hb_gen :: u64
  hb_digest :: u64
  hb_attached :: "attached_client list"
  hb_mesh_up :: "node_id list"
  hb_attached_to :: "node_id option"
  hb_usable_mtu :: u16
  hb_traffic :: "traffic_report option"

record exit_readiness =
  er_ip_forward :: bool
  er_masquerade :: bool

definition exit_ok :: "exit_readiness \<Rightarrow> bool" where
  "exit_ok e \<longleftrightarrow> er_ip_forward e \<and> er_masquerade e"

definition CLOSE_REPLACED :: u32 where "CLOSE_REPLACED = 7"
definition CLOSE_RECONFIGURED :: u32 where "CLOSE_RECONFIGURED = 8"

section \<open>Canonical lists\<close>

abbreviation canon :: "('a \<Rightarrow> 'k::linorder) \<Rightarrow> 'a list \<Rightarrow> bool" where
  "canon key xs \<equiv> sorted_wrt (<) (map key xs)"

definition canonical :: "snapshot \<Rightarrow> bool" where
  "canonical s \<longleftrightarrow> canon pi_node_id (sn_members s) \<and> canon ae_node_id (sn_attachments s)
     \<and> canon re_relay_id (sn_relays s) \<and> canon ki_kid (sn_keys s)
     \<and> canon prefix_order (sn_reserved_prefixes s)"

lemma keyed_keep_last_sorted:
  "keyed key (keep_last_sorted key v) = bt_collect (keyed key v)"
proof (rule bt_ext)
  show "bt_wf (keyed key (keep_last_sorted key v))"
    by (simp add: keep_last_sorted_def strict_sorted_dedup)
  show "map_of (keyed key (keep_last_sorted key v)) = map_of (bt_collect (keyed key v))"
    by (simp add: keep_last_sorted_def map_of_keyed_dedup fun_eq_iff map_of_keyed_filter
        sort_key_stable flip: keyed_simps(4))
qed simp

lemma keep_last_sorted_collect:
  "keep_last_sorted key v = map snd (bt_collect (keyed key v))"
  by (metis keyed_keep_last_sorted map_snd_keyed)

lemma canon_keep_last [simp]: "canon key (keep_last_sorted key v)"
  by (simp add: keep_last_sorted_def strict_sorted_dedup)

lemma keep_last_canon [simp]: "canon key v \<Longrightarrow> keep_last_sorted key v = v"
  by (simp add: keep_last_sorted_collect)

lemma prefix_order_inj [simp]: "prefix_order p = prefix_order q \<longleftrightarrow> p = q"
proof -
  have "ucast (ucast a :: u128) = a" for a :: u32
    by (rule bit_word_eqI) (simp add: bit_simps)
  then have "ucast a = (ucast b :: u128) \<longleftrightarrow> a = b" for a b :: u32
    by metis
  then show ?thesis by (cases p; cases q) auto
qed

lemma dedup_prefix_order: "dedup_by (=) ps = dedup_by (\<lambda>a b. prefix_order a = prefix_order b) ps"
  by simp

lemma canon_prefixes [simp]: "canon prefix_order (dedup_by (=) (sort_key prefix_order ps))"
  unfolding dedup_prefix_order by (rule strict_sorted_dedup) simp

lemma dedup_canon: "canon key ps \<Longrightarrow> dedup_by (\<lambda>a b. key a = key b) ps = ps"
  by (induction "\<lambda>a b. key a = key b" ps rule: dedup_by.induct) auto

lemma prefixes_canon [simp]:
  "canon prefix_order ps \<Longrightarrow> dedup_by (=) (sort_key prefix_order ps) = ps"
  using dedup_canon [of prefix_order ps] by (simp add: sort_key_id_if_sorted strict_sorted_imp_sorted)

lemma canonical_normalize [simp]: "canonical (snapshot_normalize s)"
  by (simp add: canonical_def snapshot_normalize_def)

lemma normalize_canonical [simp]: "canonical s \<Longrightarrow> snapshot_normalize s = s"
  by (simp add: canonical_def snapshot_normalize_def)

lemma normalize_gen [simp]: "sn_gen (snapshot_normalize s) = sn_gen s"
  by (simp add: snapshot_normalize_def)

lemma normalize_set_gen:
  "snapshot_normalize (s\<lparr>sn_gen := g\<rparr>) = (snapshot_normalize s)\<lparr>sn_gen := g\<rparr>"
  by (simp add: snapshot_normalize_def)

lemma digest_normalize: "digest enc (snapshot_normalize s) = digest enc s"
  by (simp add: digest_def normalize_set_gen)

section \<open>Ordered maps: the difference of two maps patches one into the other\<close>

lemma map_of_fold_bt_remove:
  "map_of (fold bt_remove ks m) = (\<lambda>k. if k \<in> set ks then None else map_of m k)"
  by (induction ks arbitrary: m) (auto simp: fun_eq_iff)

lemma bt_wf_fold_remove: "bt_wf m \<Longrightarrow> bt_wf (fold bt_remove ks m)"
  by (induction ks arbitrary: m) auto

lemma map_of_filter_distinct:
  "distinct (map fst m) \<Longrightarrow>
     map_of (filter P m) k = (case map_of m k of Some v \<Rightarrow> if P (k, v) then Some v else None | None \<Rightarrow> None)"
proof (induction m)
  case (Cons e m)
  then have "map_of m (fst e) = None"
    by (simp add: map_of_eq_None_iff flip: set_map)
  with Cons show ?case by (cases e) auto
qed simp

lemma bt_patch:
  assumes "bt_wf old" and "bt_wf new"
  shows "fold (\<lambda>e m. bt_insert (fst e) (snd e) m)
      (filter (\<lambda>(k, v). map_of old k \<noteq> Some v) new)
      (fold bt_remove (filter (\<lambda>k. map_of new k = None) (map fst old)) old) = new"
    (is "fold ?ins ?chg (fold bt_remove ?rem old) = new")
proof (rule bt_ext)
  show "bt_wf (fold ?ins ?chg (fold bt_remove ?rem old))"
    using assms(1) by (intro bt_wf_fold_insert bt_wf_fold_remove)
  have d: "distinct (map fst new)" using assms(2) by (rule bt_wf_distinct)
  have "distinct (map fst ?chg)" using d by (simp add: distinct_map_filter)
  then have rev: "map_of (rev ?chg) = map_of ?chg" by (rule map_of_rev_distinct)
  show "map_of (fold ?ins ?chg (fold bt_remove ?rem old)) = map_of new"
  proof
    fix k
    have "k \<in> set (map fst old)" if "map_of old k = Some v" for v
      using that by (metis domI dom_map_of_conv_image_fst list.set_map)
    then show "map_of (fold ?ins ?chg (fold bt_remove ?rem old)) k = map_of new k"
      unfolding map_of_fold_insert rev map_add_def map_of_fold_bt_remove
        map_of_filter_distinct [OF d]
      by (cases "map_of new k"; cases "map_of old k") auto
  qed
qed (use assms in simp)

lemma keyed_filter: "keyed key (filter P xs) = filter (\<lambda>(k, x). P x) (keyed key xs)"
  by (induction xs) auto

lemma fold_keyed:
  "fold (\<lambda>m. bt_insert (key m) m) ms = fold (\<lambda>e. bt_insert (fst e) (snd e)) (keyed key ms)"
  by (simp add: keyed_def fold_map comp_def fun_eq_iff)

lemma filter_keyed_cong:
  "filter (\<lambda>(k, x). Q (key x) x) (keyed key xs) = filter (\<lambda>(k, x). Q k x) (keyed key xs)"
  by (induction xs) auto

lemma members_patch:
  assumes "canon key xs" and "canon key ys"
  shows "fold (\<lambda>m. bt_insert (key m) m)
      (filter (\<lambda>m. map_of (keyed key xs) (key m) \<noteq> Some m) ys)
      (fold bt_remove (filter (\<lambda>i. map_of (keyed key ys) i = None) (map key xs)) (keyed key xs))
    = keyed key ys"
  using bt_patch [of "keyed key xs" "keyed key ys"] assms
  by (simp add: fold_keyed keyed_filter
      filter_keyed_cong [where Q = "\<lambda>k x. map_of (keyed key xs) k \<noteq> Some x"])

lemma ae_inverse [simp]: "ae_of (ae_pair a) = a" "ae_pair (ae_of p) = p"
  by (simp_all add: ae_of_def ae_pair_def)

lemma map_ae_inverse [simp]: "map ae_of (map ae_pair xs) = xs"
  by (simp add: comp_def)

lemma fst_ae_pair [simp]: "map fst (map ae_pair xs) = map ae_node_id xs"
  by (simp add: ae_pair_def comp_def)

lemma fold_ae_of:
  "fold (\<lambda>a. bt_insert (ae_node_id a) (ae_relay_id a)) (map ae_of kvs) =
   fold (\<lambda>e. bt_insert (fst e) (snd e)) kvs"
  by (simp add: fold_map comp_def ae_of_def)

lemma attachments_patch:
  assumes "canon ae_node_id xs" and "canon ae_node_id ys"
  shows "map ae_of (fold (\<lambda>a. bt_insert (ae_node_id a) (ae_relay_id a))
      (map ae_of (filter (\<lambda>(n, r). map_of (map ae_pair xs) n \<noteq> Some r) (map ae_pair ys)))
      (fold bt_remove (filter (\<lambda>i. map_of (map ae_pair ys) i = None) (map fst (map ae_pair xs)))
        (map ae_pair xs))) = ys"
  unfolding fold_ae_of
  using bt_patch [of "map ae_pair xs" "map ae_pair ys"] assms
  by (simp del: map_map)

lemma unwrap_or_changed [simp]: "unwrap_or a (if a \<noteq> b then Some b else None) = b"
  by (simp add: unwrap_or_def)

lemma unwrap_or_simps [simp]: "unwrap_or d None = d" "unwrap_or d (Some v) = v"
  by (simp_all add: unwrap_or_def)

lemma collect_keyed_canon [simp]: "canon key xs \<Longrightarrow> bt_collect (keyed key xs) = keyed key xs"
  by simp

lemma collect_ae_canon [simp]:
  "canon ae_node_id xs \<Longrightarrow> bt_collect (map ae_pair xs) = map ae_pair xs"
  by (rule bt_collect_id) (simp add: ae_pair_def comp_def)

lemma diff_canonical:
  assumes "canonical s" and "canonical s'"
  shows "diff s s' = \<lparr>
    dl_base_gen = sn_gen s, dl_gen = sn_gen s',
    dl_members_changed =
      filter (\<lambda>m. map_of (keyed pi_node_id (sn_members s)) (pi_node_id m) \<noteq> Some m) (sn_members s'),
    dl_members_removed =
      filter (\<lambda>i. map_of (keyed pi_node_id (sn_members s')) i = None) (map pi_node_id (sn_members s)),
    dl_attachments_changed = map ae_of (filter (\<lambda>(n, r).
      map_of (map ae_pair (sn_attachments s)) n \<noteq> Some r) (map ae_pair (sn_attachments s'))),
    dl_attachments_removed =
      filter (\<lambda>i. map_of (map ae_pair (sn_attachments s')) i = None)
        (map fst (map ae_pair (sn_attachments s))),
    dl_relays = (if sn_relays s \<noteq> sn_relays s' then Some (sn_relays s') else None),
    dl_mtu = (if sn_mtu s \<noteq> sn_mtu s' then Some (sn_mtu s') else None),
    dl_keys = (if sn_keys s \<noteq> sn_keys s' then Some (sn_keys s') else None),
    dl_reserved_prefixes =
      (if sn_reserved_prefixes s \<noteq> sn_reserved_prefixes s' then Some (sn_reserved_prefixes s') else None)\<rparr>"
  using assms unfolding diff_def Let_def canonical_def
  by (simp only: collect_keyed_canon collect_ae_canon map_snd_keyed map_fst_keyed)

lemma diff_gens [simp]: "dl_gen (diff s s') = sn_gen s'" "dl_base_gen (diff s s') = sn_gen s"
  by (simp_all add: diff_def Let_def)

lemma snapshot_all_fields:
  "s\<lparr>sn_members := sn_members s', sn_attachments := sn_attachments s', sn_relays := sn_relays s',
     sn_mtu := sn_mtu s', sn_keys := sn_keys s', sn_reserved_prefixes := sn_reserved_prefixes s',
     sn_gen := sn_gen s'\<rparr> = (s' :: snapshot)"
  by simp

lemma snapshot_diff_apply:
  assumes "canonical s" and "canonical s'" and "sn_gen s < sn_gen s'"
  shows "snapshot_apply s (diff s s') = Inr s'"
proof -
  have c: "canon pi_node_id (sn_members s)" "canon ae_node_id (sn_attachments s)"
    "canon pi_node_id (sn_members s')" "canon ae_node_id (sn_attachments s')"
    using assms(1,2) by (simp_all add: canonical_def)
  have "snapshot_apply s (diff s s') = Inr (snapshot_normalize s')"
    using assms(3) members_patch [OF c(1,3)] attachments_patch [OF c(2,4)]
    unfolding snapshot_apply_def diff_canonical [OF assms(1,2)] Let_def
    by (simp only: delta.simps collect_keyed_canon [OF c(1)] collect_ae_canon [OF c(2)]
        map_snd_keyed unwrap_or_changed not_le if_False simp_thms) (simp add: snapshot_all_fields del: unit_eq)
  then show ?thesis using assms(2) by simp
qed

lemma snapshot_apply_cases:
  "snapshot_apply s d = r \<Longrightarrow>
     (dl_gen d \<le> sn_gen s \<and> r = Inr s) \<or>
     (sn_gen s < dl_gen d \<and> dl_base_gen d \<noteq> sn_gen s \<and> r = Inl (GenerationGap (dl_base_gen d) (sn_gen s))) \<or>
     (sn_gen s < dl_gen d \<and> dl_base_gen d = sn_gen s \<and>
        (\<exists>s'. r = Inr (snapshot_normalize s') \<and> sn_gen s' = dl_gen d))"
  unfolding snapshot_apply_def Let_def
  by (cases "dl_gen d \<le> sn_gen s"; cases "dl_base_gen d = sn_gen s") (auto intro!: exI)

lemma snapshot_apply_gen:
  "snapshot_apply s d = Inr s' \<Longrightarrow> sn_gen s \<le> sn_gen s' \<and> sn_gen s' = max (sn_gen s) (dl_gen d)"
  using snapshot_apply_cases [of s d "Inr s'"] by (auto simp: max_def)

lemma snapshot_apply_canonical:
  "canonical s \<Longrightarrow> snapshot_apply s d = Inr s' \<Longrightarrow> canonical s'"
  using snapshot_apply_cases [of s d "Inr s'"] by auto

section \<open>Binary search\<close>

lemma canon_nth_less:
  "canon key xs \<Longrightarrow> i < length xs \<Longrightarrow> j < length xs \<Longrightarrow> key (xs ! i) < key (xs ! j) \<longleftrightarrow> i < j"
proof -
  assume c: "canon key xs" and i: "i < length xs" and j: "j < length xs"
  have "key (xs ! a) < key (xs ! b)" if "a < b" "b < length xs" for a b
    using c that sorted_wrt_nth_less [of "(<)" "map key xs" a b] by simp
  then show ?thesis using i j by (metis less_asym' linorder_cases order_less_irrefl)
qed

lemma bsearch_base_found:
  "canon key xs \<Longrightarrow> key (xs ! j) = k \<Longrightarrow> base \<le> j \<Longrightarrow> j < base + sz \<Longrightarrow> base + sz \<le> length xs
     \<Longrightarrow> bsearch_base key k xs base sz = j"
proof (induction key k xs base sz rule: bsearch_base.induct)
  case (1 key k xs base sz)
  show ?case
  proof (cases "sz \<le> 1")
    case True
    with "1.prems" show ?thesis by (simp add: bsearch_base.simps [of key k xs base sz])
  next
    case False
    let ?half = "sz div 2"
    have "k < key (xs ! (base + ?half)) \<longleftrightarrow> j < base + ?half"
      using canon_nth_less [of key xs j "base + ?half"] False "1.prems" by auto
    then show ?thesis
      using "1.IH" [OF False refl refl] "1.prems" False
      by (auto simp: bsearch_base.simps [of key k xs base sz] Let_def)
  qed
qed

lemma bsearch_base_bound:
  "0 < sz \<Longrightarrow> base + sz \<le> n \<Longrightarrow> bsearch_base key k xs base sz < n"
proof (induction key k xs base sz rule: bsearch_base.induct)
  case (1 key k xs base sz)
  show ?case
    using "1.IH" "1.prems"
    by (cases "sz \<le> 1") (auto simp: bsearch_base.simps [of key k xs base sz] Let_def)
qed

text \<open>On a canonical list the search finds the element of that key when there is one.\<close>

lemma binary_search_canon:
  assumes "canon key xs"
  shows "map_option (\<lambda>i. f (xs ! i)) (binary_search_by_key key k xs) = map_option f (map_of (keyed key xs) k)"
proof (cases "map_of (keyed key xs) k")
  case (Some x)
  then have "key x = k" "x \<in> set xs" by (auto dest: map_of_keyed_Some)
  then obtain j where "j < length xs" "xs ! j = x" by (auto simp: in_set_conv_nth)
  then have "binary_search_by_key key k xs = Some j"
    using bsearch_base_found [OF assms, of j k 0 "length xs"] \<open>key x = k\<close>
    by (auto simp: binary_search_by_key_def)
  with Some \<open>xs ! j = x\<close> show ?thesis by simp
next
  case None
  then have none: "\<forall>x \<in> set xs. key x \<noteq> k"
    by (auto simp: map_of_eq_None_iff keyed_def image_image)
  have "xs \<noteq> [] \<Longrightarrow> xs ! bsearch_base key k xs 0 (length xs) \<in> set xs"
    by (intro nth_mem bsearch_base_bound) auto
  with none have "binary_search_by_key key k xs = None"
    by (auto simp: binary_search_by_key_def Let_def)
  with None show ?thesis by simp
qed

lemma snapshot_member_map_of:
  "canonical s \<Longrightarrow> snapshot_member s i = map_of (keyed pi_node_id (sn_members s)) i"
  using binary_search_canon [of pi_node_id "sn_members s" "\<lambda>x. x" i]
  by (simp add: snapshot_member_def canonical_def option.map_ident)

lemma attachment_of_map_of:
  "canonical s \<Longrightarrow> attachment_of s i = map_option ae_relay_id (map_of (keyed ae_node_id (sn_attachments s)) i)"
  using binary_search_canon [of ae_node_id "sn_attachments s" ae_relay_id i]
  by (simp add: attachment_of_def canonical_def)

section \<open>Copies kept current by deltas\<close>

text \<open>The deltas between consecutive states, and a copy that applies deltas in turn.\<close>

fun consecutive :: "('s \<Rightarrow> 's \<Rightarrow> 'd) \<Rightarrow> 's list \<Rightarrow> 'd list" where
  "consecutive f (a # b # r) = f a b # consecutive f (b # r)"
| "consecutive f _ = []"

fun apply_all :: "('s \<Rightarrow> 'd \<Rightarrow> 'e + 's) \<Rightarrow> 's \<Rightarrow> 'd list \<Rightarrow> 'e + 's" where
  "apply_all ap s [] = Inr s"
| "apply_all ap s (d # ds) = res_bind (ap s d) (\<lambda>s'. apply_all ap s' ds)"

locale versioned_copy =
  fixes gen :: "'s \<Rightarrow> u64"
    and ok :: "'s \<Rightarrow> bool"
    and dif :: "'s \<Rightarrow> 's \<Rightarrow> 'd"
    and ap :: "'s \<Rightarrow> 'd \<Rightarrow> 'e + 's"
  assumes ap_dif: "ok s \<Longrightarrow> ok s' \<Longrightarrow> gen s < gen s' \<Longrightarrow> ap s (dif s s') = Inr s'"
    and ap_stale: "gen s' \<le> gen c \<Longrightarrow> ap c (dif s s') = Inr c"
begin

lemma catch_up_from_head:
  "sorted_wrt (<) (map gen (s # h)) \<Longrightarrow> \<forall>x \<in> set (s # h). ok x
     \<Longrightarrow> apply_all ap s (consecutive dif (s # h)) = Inr (last (s # h))"
proof (induction h arbitrary: s)
  case (Cons b r)
  then have "ap s (dif s b) = Inr b" by (intro ap_dif) auto
  with Cons show ?case by auto
qed simp

text \<open>A copy at any point of the history skips what it already has and follows the rest.\<close>

lemma catch_up:
  "sorted_wrt (<) (map gen h) \<Longrightarrow> \<forall>x \<in> set h. ok x \<Longrightarrow> s \<in> set h
     \<Longrightarrow> apply_all ap s (consecutive dif h) = Inr (last h)"
proof (induction h)
  case (Cons a r)
  show ?case
  proof (cases "s = a")
    case True
    with Cons.prems catch_up_from_head [of s r] show ?thesis by blast
  next
    case False
    with Cons.prems have s: "s \<in> set r" by simp
    then obtain b r' where r: "r = b # r'" by (cases r) auto
    have "gen b \<le> gen s" using Cons.prems s r by (auto simp: less_imp_le)
    then have "ap s (dif a b) = Inr s" by (rule ap_stale)
    with Cons s r show ?thesis by simp
  qed
qed simp

end

lemma snapshot_apply_stale: "sn_gen s' \<le> sn_gen c \<Longrightarrow> snapshot_apply c (diff s s') = Inr c"
  by (simp add: snapshot_apply_def diff_def Let_def)

interpretation snap: versioned_copy sn_gen canonical diff snapshot_apply
  by unfold_locales (auto simp: snapshot_diff_apply snapshot_apply_stale)

lemma canon_collect_mset:
  "distinct (map key xs) \<Longrightarrow> mset xs = mset ys \<Longrightarrow> keep_last_sorted key xs = keep_last_sorted key ys"
proof -
  assume d: "distinct (map key xs)" and m: "mset xs = mset ys"
  have "mset (map key xs) = mset (map key ys)" using m by (metis mset_map)
  with d have d': "distinct (map key ys)" by (metis mset_eq_imp_distinct_iff)
  have set: "set (keyed key xs) = set (keyed key ys)" using mset_eq_setD [OF m] by (simp add: keyed_def)
  have "map_of (keyed key xs) = map_of (keyed key ys)"
    using d d' set by (simp add: map_of_inject_set)
  then have "map_of (rev (keyed key xs)) = map_of (rev (keyed key ys))"
    using d d' by (simp add: map_of_rev_distinct)
  then have "bt_collect (keyed key xs) = bt_collect (keyed key ys)"
    by (intro bt_ext) simp_all
  then show ?thesis by (simp add: keep_last_sorted_collect)
qed

section \<open>Properties\<close>

text \<open>
  C28. \<open>Snapshot::normalize\<close> reaches canonical order, reaches it once and for all, and keeps of
  every key the last entry, the reading of duplicates that collecting into a \<open>BTreeMap\<close> gives.
\<close>

theorem normalize_canonical_form:
  "canonical (snapshot_normalize s)
   \<and> snapshot_normalize (snapshot_normalize s) = snapshot_normalize s
   \<and> sn_members (snapshot_normalize s) = map snd (bt_collect (keyed pi_node_id (sn_members s)))
   \<and> sn_attachments (snapshot_normalize s) = map snd (bt_collect (keyed ae_node_id (sn_attachments s)))
   \<and> sn_relays (snapshot_normalize s) = map snd (bt_collect (keyed re_relay_id (sn_relays s)))
   \<and> sn_keys (snapshot_normalize s) = map snd (bt_collect (keyed ki_kid (sn_keys s)))"
proof (intro conjI)
  show "canonical (snapshot_normalize s)" by simp
  show "snapshot_normalize (snapshot_normalize s) = snapshot_normalize s"
    by (rule normalize_canonical) simp
qed (simp_all add: snapshot_normalize_def keep_last_sorted_collect)

text \<open>
  C16. Round trip: the delta between two canonical snapshots, applied to the older one, gives
  exactly the newer one.
\<close>

theorem diff_apply_roundtrip:
  assumes "canonical s" and "canonical s'" and "sn_gen s < sn_gen s'"
  shows "snapshot_apply s (diff s s') = Inr s'"
  using assms by (rule snapshot_diff_apply)

theorem diff_apply_roundtrip_witness:
  "let p = (\<lambda>i b. \<lparr>pi_node_id = i, pi_name = ''n'', pi_role = Client, pi_prefixes = [V4 1 32],
                   pi_pubkey = ''k'', pi_online = b, pi_login_gen = 0\<rparr>);
       s = snapshot_default\<lparr>sn_gen := 4, sn_members := [p 1 True, p 2 True]\<rparr>;
       s' = snapshot_default\<lparr>sn_gen := 6, sn_members := [p 2 False, p 3 True],
              sn_reserved_prefixes := [V4 9 8, V6 1 64]\<rparr>
   in dl_members_removed (diff s s') = [1] \<and> snapshot_apply s (diff s s') = Inr s'"
  unfolding Let_def
  by (intro conjI diff_apply_roundtrip)
    (simp_all add: canonical_def snapshot_default_def diff_def bt_collect_def)

text \<open>
  C18. \<open>Snapshot::apply\<close> on any delta: one up to a generation already held is ignored, one that
  is not based on exactly the generation held is refused with the two generations, and any other
  moves the snapshot to the delta's generation and leaves it in canonical order.
\<close>

theorem apply_outcomes:
  "if dl_gen d \<le> sn_gen s then snapshot_apply s d = Inr s
   else if dl_base_gen d \<noteq> sn_gen s
     then snapshot_apply s d = Inl (GenerationGap (dl_base_gen d) (sn_gen s))
   else \<exists>s'. snapshot_apply s d = Inr s' \<and> sn_gen s' = dl_gen d \<and> canonical s'"
  using snapshot_apply_cases [of s d "snapshot_apply s d"] by (auto simp: not_le)

text \<open>
  A member holding any snapshot of the coordinator's history that receives the deltas between
  all consecutive snapshots of that history ends at the last one, whatever part of them it had
  already: what it has is skipped, what it lacks is applied, and no delta is refused.
\<close>

theorem delta_chain_catch_up:
  assumes "sorted_wrt (<) (map sn_gen history)" and "\<forall>x \<in> set history. canonical x"
    and "s \<in> set history"
  shows "apply_all snapshot_apply s (consecutive diff history) = Inr (last history)"
  using assms by (rule snap.catch_up)

theorem delta_chain_catch_up_witness:
  "let a = snapshot_default;
       b = a\<lparr>sn_gen := 1, sn_attachments := [\<lparr>ae_node_id = 5, ae_relay_id = 9\<rparr>]\<rparr>;
       c = a\<lparr>sn_gen := 3, sn_attachments := [\<lparr>ae_node_id = 5, ae_relay_id = 8\<rparr>]\<rparr>
   in apply_all snapshot_apply b (consecutive diff [a, b, c]) = Inr c"
  unfolding Let_def
  by (rule trans [OF delta_chain_catch_up])
    (simp_all add: canonical_def snapshot_default_def)

text \<open>
  C31. The binary searches of \<open>Snapshot::member\<close> and \<open>Snapshot::attachment_of\<close> are exact on a
  canonical snapshot: they return what a linear scan for that id returns.
\<close>

theorem lookups_exact:
  assumes "canonical s"
  shows "snapshot_member s i = find (\<lambda>m. pi_node_id m = i) (sn_members s)
    \<and> attachment_of s i = map_option ae_relay_id (find (\<lambda>a. ae_node_id a = i) (sn_attachments s))"
proof -
  have f: "map_of (keyed key xs) k = find (\<lambda>x. key x = k) xs"
    for key :: "'b \<Rightarrow> node_id" and xs k by (induction xs) auto
  show ?thesis
    using assms by (simp add: snapshot_member_map_of attachment_of_map_of f)
qed

theorem lookups_exact_witness:
  "attachment_of (snapshot_default\<lparr>sn_attachments :=
      [\<lparr>ae_node_id = 2, ae_relay_id = 9\<rparr>, \<lparr>ae_node_id = 5, ae_relay_id = 8\<rparr>, \<lparr>ae_node_id = 7, ae_relay_id = 9\<rparr>]\<rparr>) 5
     = Some 8"
  using lookups_exact [of "snapshot_default\<lparr>sn_attachments :=
      [\<lparr>ae_node_id = 2, ae_relay_id = 9\<rparr>, \<lparr>ae_node_id = 5, ae_relay_id = 8\<rparr>, \<lparr>ae_node_id = 7, ae_relay_id = 9\<rparr>]\<rparr>" 5]
  by (simp add: canonical_def snapshot_default_def)

text \<open>
  The digest depends on content only: whatever the encoder, it ignores the generation and the
  order in which the members and attachments of a duplicate-free view are listed.
\<close>

theorem digest_content_only:
  assumes "distinct (map pi_node_id ms)" and "mset ms = mset ms'"
    and "distinct (map ae_node_id as)" and "mset as = mset as'"
  shows "digest enc (s\<lparr>sn_gen := g, sn_members := ms, sn_attachments := as\<rparr>) =
         digest enc (s\<lparr>sn_gen := g', sn_members := ms', sn_attachments := as'\<rparr>)"
  using canon_collect_mset [OF assms(1,2)] canon_collect_mset [OF assms(3,4)]
  by (simp add: digest_def snapshot_normalize_def)

theorem digest_content_only_witness:
  "let x = \<lparr>ae_node_id = 2, ae_relay_id = 9\<rparr>; y = \<lparr>ae_node_id = 5, ae_relay_id = 8\<rparr>
   in digest (\<lambda>s. map (\<lambda>a. ucast (ae_node_id a)) (sn_attachments s))
        (snapshot_default\<lparr>sn_gen := 1, sn_members := [], sn_attachments := [x, y]\<rparr>) =
      digest (\<lambda>s. map (\<lambda>a. ucast (ae_node_id a)) (sn_attachments s))
        (snapshot_default\<lparr>sn_gen := 2, sn_members := [], sn_attachments := [y, x]\<rparr>)"
  unfolding Let_def by (rule digest_content_only) simp_all

end
