(* ===== verification/Nq_Net.thy ===== *)
theory Nq_Net
  imports Nq_View
begin

text \<open>
  IP addresses and prefixes. The predicates on addresses are those of the standard library; the
  operations on prefixes belong to the package \<open>ipnet\<close> and are a parameter (the record \<open>ipnet\<close>), with
  what the sources rely on stated as \<open>ipnet_ok\<close> and one instance, \<open>ipnet_std\<close>, that satisfies it.
  \<open>overlaps\<close> is \<open>crates/nqvpn-proto/src/lpm.rs\<close>. The theory also holds the string operations of the
  standard library the coordinator uses.
\<close>

section \<open>Addresses\<close>

datatype ip_addr = A4 u32 | A6 u128

fun v6_segment0 :: "u128 \<Rightarrow> u128" where
  "v6_segment0 a = drop_bit 112 a"

fun is_loopback :: "ip_addr \<Rightarrow> bool" where
  "is_loopback (A4 a) = (drop_bit 24 a = 127)"
| "is_loopback (A6 a) = (a = 1)"

fun is_unspecified :: "ip_addr \<Rightarrow> bool" where
  "is_unspecified (A4 a) = (a = 0)"
| "is_unspecified (A6 a) = (a = 0)"

fun is_multicast :: "ip_addr \<Rightarrow> bool" where
  "is_multicast (A4 a) = (224 \<le> drop_bit 24 a \<and> drop_bit 24 a \<le> 239)"
| "is_multicast (A6 a) = (v6_segment0 a AND 0xff00 = 0xff00)"

fun is_broadcast :: "ip_addr \<Rightarrow> bool" where
  "is_broadcast (A4 a) = (a = - 1)"
| "is_broadcast (A6 _) = False"

fun is_link_local :: "ip_addr \<Rightarrow> bool" where
  "is_link_local (A4 a) = (drop_bit 16 a = 0xa9fe)"
| "is_link_local (A6 a) = (v6_segment0 a AND 0xffc0 = 0xfe80)"

text \<open>\<open>IpAddr::to_canonical\<close>: an IPv4-mapped IPv6 address is its IPv4 address.\<close>

fun to_canonical :: "ip_addr \<Rightarrow> ip_addr" where
  "to_canonical (A4 a) = A4 a"
| "to_canonical (A6 a) = (if drop_bit 32 a = 0xffff then A4 (ucast a) else A6 a)"

section \<open>Prefixes\<close>

record ipnet =
  ipn_network :: "ip_net \<Rightarrow> ip_addr"
  ipn_broadcast :: "ip_net \<Rightarrow> ip_addr"
  ipn_trunc :: "ip_net \<Rightarrow> ip_net"
  ipn_contains :: "ip_net \<Rightarrow> ip_addr \<Rightarrow> bool"
  ipn_to_string :: "ip_net \<Rightarrow> string"
  ipn_parse :: "string \<Rightarrow> ip_net option"

fun net_addr :: "ip_net \<Rightarrow> ip_addr" where
  "net_addr (V4 a _) = A4 a"
| "net_addr (V6 a _) = A6 a"

fun prefix_len :: "ip_net \<Rightarrow> u8" where
  "prefix_len (V4 _ l) = l"
| "prefix_len (V6 _ l) = l"

fun is_v4 :: "ip_net \<Rightarrow> bool" where
  "is_v4 (V4 _ _) = True"
| "is_v4 (V6 _ _) = False"

text \<open>\<open>IpNet::new\<close> panics on a longer prefix, so a value always has a length within its family.\<close>

fun net_valid :: "ip_net \<Rightarrow> bool" where
  "net_valid (V4 _ l) = (l \<le> 32)"
| "net_valid (V6 _ l) = (l \<le> 128)"

fun addr_le :: "ip_addr \<Rightarrow> ip_addr \<Rightarrow> bool" where
  "addr_le (A4 a) (A4 b) = (a \<le> b)"
| "addr_le (A6 a) (A6 b) = (a \<le> b)"
| "addr_le _ _ = False"

text \<open>
  What the documentation of \<open>ipnet\<close> says of the operations used: \<open>contains\<close> is membership in the range
  from \<open>network\<close> to \<open>broadcast\<close>, \<open>trunc\<close> has the network address and the same length, and the printed
  form of a prefix reads back.
\<close>

definition ipnet_ok :: "ipnet \<Rightarrow> bool" where
  "ipnet_ok I \<longleftrightarrow>
     (\<forall>n a. ipn_contains I n a \<longleftrightarrow> addr_le (ipn_network I n) a \<and> addr_le a (ipn_broadcast I n))
   \<and> (\<forall>n. addr_le (ipn_network I n) (net_addr n) \<and> addr_le (net_addr n) (ipn_broadcast I n))
   \<and> (\<forall>n. net_addr (ipn_trunc I n) = ipn_network I n \<and> prefix_len (ipn_trunc I n) = prefix_len n)
   \<and> (\<forall>n. ipn_network I (ipn_trunc I n) = ipn_network I n
          \<and> ipn_broadcast I (ipn_trunc I n) = ipn_broadcast I n)
   \<and> (\<forall>n. net_valid n \<longrightarrow> ipn_parse I (ipn_to_string I n) = Some n)"

definition overlaps :: "ipnet \<Rightarrow> ip_net \<Rightarrow> ip_net \<Rightarrow> bool" where
  "overlaps I a b \<longleftrightarrow> ipn_contains I a (ipn_network I b) \<or> ipn_contains I b (ipn_network I a)"

section \<open>Strings\<close>

definition is_ws :: "char \<Rightarrow> bool" where
  "is_ws c \<longleftrightarrow> c \<in> {CHR '' '', CHR 0x09, CHR 0x0A, CHR 0x0B, CHR 0x0C, CHR 0x0D}"

definition str_trim :: "string \<Rightarrow> string" where
  "str_trim s = rev (dropWhile is_ws (rev (dropWhile is_ws s)))"

fun strip_prefix :: "string \<Rightarrow> string \<Rightarrow> string option" where
  "strip_prefix [] s = Some s"
| "strip_prefix (p # ps) [] = None"
| "strip_prefix (p # ps) (c # s) = (if p = c then strip_prefix ps s else None)"

definition starts_with :: "string \<Rightarrow> string \<Rightarrow> bool" where
  "starts_with p s \<longleftrightarrow> strip_prefix p s \<noteq> None"

text \<open>\<open>rsplit_once\<close>: split at the last occurrence.\<close>

definition rsplit_once :: "char \<Rightarrow> string \<Rightarrow> (string \<times> string) option" where
  "rsplit_once c s =
     (if c \<in> set s then
        Some (rev (tl (dropWhile (\<lambda>x. x \<noteq> c) (rev s))), rev (takeWhile (\<lambda>x. x \<noteq> c) (rev s)))
      else None)"

definition split_once :: "char \<Rightarrow> string \<Rightarrow> (string \<times> string) option" where
  "split_once c s =
     (if c \<in> set s then Some (takeWhile (\<lambda>x. x \<noteq> c) s, tl (dropWhile (\<lambda>x. x \<noteq> c) s)) else None)"

definition is_digit :: "char \<Rightarrow> bool" where
  "is_digit c \<longleftrightarrow> CHR ''0'' \<le> c \<and> c \<le> CHR ''9''"

definition digit_val :: "char \<Rightarrow> int" where
  "digit_val c = of_char c - of_char CHR ''0''"

text \<open>\<open>str::parse\<close> into an unsigned integer of \<open>w\<close> bits: an optional plus sign and decimal digits.\<close>

definition parse_uint :: "nat \<Rightarrow> string \<Rightarrow> int option" where
  "parse_uint w s =
     (let ds = (case s of c # r \<Rightarrow> if c = CHR ''+'' then r else s | [] \<Rightarrow> []) in
      if ds = [] \<or> \<not> list_all is_digit ds then None
      else let n = foldl (\<lambda>acc c. 10 * acc + digit_val c) 0 ds in
           if n < 2 ^ w then Some n else None)"

definition is_ascii_alphanumeric :: "char \<Rightarrow> bool" where
  "is_ascii_alphanumeric c \<longleftrightarrow> is_digit c \<or> (CHR ''a'' \<le> c \<and> c \<le> CHR ''z'') \<or> (CHR ''A'' \<le> c \<and> c \<le> CHR ''Z'')"

section \<open>Prefixes as ranges\<close>

lemma contains_range:
  "ipnet_ok I \<Longrightarrow>
     ipn_contains I n a \<longleftrightarrow> addr_le (ipn_network I n) a \<and> addr_le a (ipn_broadcast I n)"
  by (simp add: ipnet_ok_def)

lemma contains_trunc [simp]: "ipnet_ok I \<Longrightarrow> ipn_contains I (ipn_trunc I n) = ipn_contains I n"
  by (rule ext) (simp add: ipnet_ok_def)

lemma prefix_len_trunc [simp]: "ipnet_ok I \<Longrightarrow> prefix_len (ipn_trunc I n) = prefix_len n"
  by (simp add: ipnet_ok_def)

lemma addr_le_trans: "addr_le a b \<Longrightarrow> addr_le b c \<Longrightarrow> addr_le a c"
  by (cases a; cases b; cases c) auto

lemma addr_le_linear: "addr_le a b \<Longrightarrow> addr_le a c \<Longrightarrow> addr_le b c \<or> addr_le c b"
  by (cases a; cases b; cases c) auto

lemma contains_network: "ipnet_ok I \<Longrightarrow> ipn_contains I n (ipn_network I n)"
  unfolding ipnet_ok_def by (metis addr_le.simps(1,2) addr_le_trans ip_addr.exhaust order_refl)

text \<open>The test of \<open>overlaps\<close>, two memberships of a network address, is exactly a shared address.\<close>

lemma overlaps_shared:
  assumes "ipnet_ok I"
  shows "overlaps I a b \<longleftrightarrow> (\<exists>x. ipn_contains I a x \<and> ipn_contains I b x)"
proof
  assume "\<exists>x. ipn_contains I a x \<and> ipn_contains I b x"
  then obtain x where x: "addr_le (ipn_network I a) x" "addr_le x (ipn_broadcast I a)"
      "addr_le (ipn_network I b) x" "addr_le x (ipn_broadcast I b)"
    by (auto simp: contains_range [OF assms])
  then have "addr_le (ipn_network I a) (ipn_network I b) \<or> addr_le (ipn_network I b) (ipn_network I a)"
    by (cases x; cases "ipn_network I a"; cases "ipn_network I b") auto
  with x show "overlaps I a b"
    by (auto simp: overlaps_def contains_range [OF assms] intro: addr_le_trans)
qed (auto simp: overlaps_def intro: contains_network [OF assms])

section \<open>An instance\<close>

text \<open>
  The operations as bit masks. The printed form here is a tag, the address bytes and the length; the
  laws do not depend on the notation.
\<close>

fun std_network :: "ip_net \<Rightarrow> ip_addr" where
  "std_network (V4 a l) = A4 (a AND NOT (mask (32 - unat l)))"
| "std_network (V6 a l) = A6 (a AND NOT (mask (128 - unat l)))"

fun std_broadcast :: "ip_net \<Rightarrow> ip_addr" where
  "std_broadcast (V4 a l) = A4 (a OR mask (32 - unat l))"
| "std_broadcast (V6 a l) = A6 (a OR mask (128 - unat l))"

fun std_trunc :: "ip_net \<Rightarrow> ip_net" where
  "std_trunc (V4 a l) = V4 (a AND NOT (mask (32 - unat l))) l"
| "std_trunc (V6 a l) = V6 (a AND NOT (mask (128 - unat l))) l"

definition std_contains :: "ip_net \<Rightarrow> ip_addr \<Rightarrow> bool" where
  "std_contains n a \<longleftrightarrow> addr_le (std_network n) a \<and> addr_le a (std_broadcast n)"

fun std_to_string :: "ip_net \<Rightarrow> string" where
  "std_to_string (V4 a l) = CHR ''4'' # map (\<lambda>b. char_of (unat b)) (be_bytes 4 a @ [l])"
| "std_to_string (V6 a l) = CHR ''6'' # map (\<lambda>b. char_of (unat b)) (be_bytes 16 a @ [l])"

definition std_parse :: "string \<Rightarrow> ip_net option" where
  "std_parse s =
     (let bs = map (\<lambda>c. of_nat (of_char c)) (tl s) :: bytes in
      case s of
        [] \<Rightarrow> None
      | c # _ \<Rightarrow>
          if c = CHR ''4'' \<and> length bs = 5 then Some (V4 (from_be (butlast bs)) (last bs))
          else if c = CHR ''6'' \<and> length bs = 17 then Some (V6 (from_be (butlast bs)) (last bs))
          else None)"

definition ipnet_std :: ipnet where
  "ipnet_std = \<lparr>ipn_network = std_network, ipn_broadcast = std_broadcast, ipn_trunc = std_trunc,
     ipn_contains = std_contains, ipn_to_string = std_to_string, ipn_parse = std_parse\<rparr>"

lemma byte_mod [simp]: "unat (b :: u8) mod 256 = unat b"
  using unsigned_less [of b, where ?'a = nat] by simp

lemma bytes_chars: "map ((\<lambda>c. of_nat (of_char c) :: u8) \<circ> (\<lambda>b. char_of (unat b))) bs = bs"
  by (induction bs) simp_all

lemma std_parse_to_string: "std_parse (std_to_string n) = Some n"
  by (cases n) (simp_all add: std_parse_def Let_def bytes_chars)

lemma ipnet_std_ok: "ipnet_ok ipnet_std"
proof -
  have le: "a AND m \<le> a" "a \<le> a OR m" for a m :: "'a::len word"
    by (simp_all add: word_and_le2 le_word_or2)
  have or: "(a AND NOT m) OR m = a OR m" for a m :: "'a::len word"
    by (rule bit_word_eqI) (auto simp: bit_simps)
  have "addr_le (std_network n) (net_addr n) \<and> addr_le (net_addr n) (std_broadcast n)" for n
    by (cases n) (simp_all add: le)
  moreover have "net_addr (std_trunc n) = std_network n \<and> prefix_len (std_trunc n) = prefix_len n" for n
    by (cases n) simp_all
  moreover have "std_network (std_trunc n) = std_network n \<and> std_broadcast (std_trunc n) = std_broadcast n" for n
    by (cases n) (simp_all add: or and.assoc)
  ultimately show ?thesis
    by (simp add: ipnet_ok_def ipnet_std_def std_contains_def std_parse_to_string)
qed

end
