(* ===== verification/Nq_Envelope.thy ===== *)
theory Nq_Envelope
  imports Nq_Prelude
begin

text \<open>
  Control-message envelopes (\<open>crates/nqvpn-proto/src/envelope.rs\<close>): the fixed eight-byte header,
  the per-kind payload caps, encoding and incremental decoding. The payload encoding itself is
  \<open>bincode\<close>'s and enters as a parameter.
\<close>

section \<open>Constants and kinds\<close>

definition PROTO_MAJOR :: u8 where "PROTO_MAJOR = 1"
definition PROTO_MINOR :: u8 where "PROTO_MINOR = 1"
definition HEADER_LEN :: nat where "HEADER_LEN = 8"
definition MAX_PAYLOAD :: u32 where "MAX_PAYLOAD = 1024 * 1024"
definition MAX_VIEW_PAYLOAD :: u32 where "MAX_VIEW_PAYLOAD = 16 * 1024 * 1024"

datatype kind =
    KHello | KHelloAck | KSnapshot | KDelta | KHeartbeat | KResync | KRefresh | KExitReadiness
  | KRequest | KResponse

fun kind_u16 :: "kind \<Rightarrow> u16" where
  "kind_u16 KHello = 1"
| "kind_u16 KHelloAck = 2"
| "kind_u16 KSnapshot = 3"
| "kind_u16 KDelta = 4"
| "kind_u16 KHeartbeat = 5"
| "kind_u16 KResync = 6"
| "kind_u16 KRefresh = 7"
| "kind_u16 KExitReadiness = 8"
| "kind_u16 KRequest = 16"
| "kind_u16 KResponse = 17"

definition max_payload_for :: "u16 \<Rightarrow> u32" where
  "max_payload_for k =
     (if k = kind_u16 KSnapshot \<or> k = kind_u16 KDelta then MAX_VIEW_PAYLOAD else MAX_PAYLOAD)"

section \<open>Protocol version\<close>

record version_mismatch =
  vm_peer :: "u8 \<times> u8"
  vm_ours :: "u8 \<times> u8"

definition check_version :: "u8 \<Rightarrow> u8 \<Rightarrow> version_mismatch + unit" where
  "check_version major minor =
     (if major = PROTO_MAJOR \<and> minor = PROTO_MINOR then Inr ()
      else Inl \<lparr>vm_peer = (major, minor), vm_ours = (PROTO_MAJOR, PROTO_MINOR)\<rparr>)"

section \<open>Envelopes\<close>

datatype envelope_error = IncompatibleMajor u8 | TooLarge u32 | Truncated nat

record envelope =
  en_major :: u8
  en_minor :: u8
  en_kind :: u16
  en_payload :: bytes

definition envelope_new :: "kind \<Rightarrow> bytes \<Rightarrow> envelope" where
  "envelope_new k payload =
     \<lparr>en_major = PROTO_MAJOR, en_minor = PROTO_MINOR, en_kind = kind_u16 k, en_payload = payload\<rparr>"

definition envelope_encode :: "envelope \<Rightarrow> bytes" where
  "envelope_encode e =
     [en_major e, en_minor e] @ be_bytes 2 (en_kind e)
       @ be_bytes 4 (of_nat (length (en_payload e)) :: u32) @ en_payload e"

definition envelope_decode :: "bytes \<Rightarrow> envelope_error + envelope \<times> nat" where
  "envelope_decode buf =
     (if length buf < HEADER_LEN then Inl (Truncated (HEADER_LEN - length buf))
      else let major = buf ! 0 in
        if major \<noteq> PROTO_MAJOR then Inl (IncompatibleMajor major)
        else
          let minor = buf ! 1;
              kind = from_be [buf ! 2, buf ! 3];
              len = (from_be [buf ! 4, buf ! 5, buf ! 6, buf ! 7] :: u32)
          in if len > max_payload_for kind then Inl (TooLarge len)
             else let total = HEADER_LEN + unat len in
               if length buf < total then Inl (Truncated (total - length buf))
               else Inr (\<lparr>en_major = major, en_minor = minor, en_kind = kind,
                          en_payload = slice HEADER_LEN (unat len) buf\<rparr>, total))"

text \<open>\<open>encode_msg\<close>: \<open>serialize limit msg\<close> is the size-limited payload encoder.\<close>

definition encode_msg :: "(u32 \<Rightarrow> 'm \<Rightarrow> 'e + bytes) \<Rightarrow> kind \<Rightarrow> 'm \<Rightarrow> 'e + bytes" where
  "encode_msg serialize k msg =
     res_bind (serialize (max_payload_for (kind_u16 k)) msg)
       (\<lambda>payload. Inr (envelope_encode (envelope_new k payload)))"

definition encode_payload :: "(u32 \<Rightarrow> 'm \<Rightarrow> 'e + bytes) \<Rightarrow> 'm \<Rightarrow> 'e + bytes" where
  "encode_payload serialize msg = serialize MAX_PAYLOAD msg"

definition decode_payload :: "(u32 \<Rightarrow> bytes \<Rightarrow> 'e + 'm) \<Rightarrow> bytes \<Rightarrow> 'e + 'm" where
  "decode_payload deserialize payload = deserialize MAX_VIEW_PAYLOAD payload"

section \<open>Lemmas\<close>

lemmas envelope_consts =
  PROTO_MAJOR_def PROTO_MINOR_def HEADER_LEN_def MAX_PAYLOAD_def MAX_VIEW_PAYLOAD_def

definition well_sized :: "envelope \<Rightarrow> bool" where
  "well_sized e \<longleftrightarrow> en_major e = PROTO_MAJOR
     \<and> length (en_payload e) \<le> unat (max_payload_for (en_kind e))"

lemma be_bytes_2_obtain:
  obtains a b where "be_bytes 2 (w :: u16) = [a, b]" "from_be [a, b] = w"
proof -
  obtain a b where l: "be_bytes 2 w = [a, b]"
    using length_be_bytes [of 2 w] by (auto simp: numeral_eq_Suc length_Suc_conv)
  have "from_be (be_bytes 2 w) = w" by simp
  with l that show ?thesis by simp
qed

lemma length_envelope_encode [simp]:
  "length (envelope_encode e) = HEADER_LEN + length (en_payload e)"
  by (simp add: envelope_encode_def HEADER_LEN_def)

text \<open>Decoding after the eight header bytes.\<close>

lemma envelope_decode_Cons:
  "envelope_decode (M # mi # k0 # k1 # l0 # l1 # l2 # l3 # body) =
     (let k = from_be [k0, k1]; len = from_be [l0, l1, l2, l3] :: u32 in
      if M \<noteq> PROTO_MAJOR then Inl (IncompatibleMajor M)
      else if len > max_payload_for k then Inl (TooLarge len)
      else if length body < unat len then Inl (Truncated (unat len - length body))
      else Inr (\<lparr>en_major = M, en_minor = mi, en_kind = k, en_payload = take (unat len) body\<rparr>,
                HEADER_LEN + unat len))"
  by (simp add: envelope_decode_def HEADER_LEN_def slice_def Let_def)

lemma length_ge_8_conv:
  "8 \<le> length xs \<longleftrightarrow> (\<exists>a b c d e f g h ys. xs = a # b # c # d # e # f # g # h # ys)"
  by (auto simp: numeral_eq_Suc Suc_le_length_iff)

lemma max_payload_small: "unat (max_payload_for k) < 2 ^ 32"
proof -
  have "unat (max_payload_for k) < 2 ^ LENGTH(32)" by (rule unsigned_less)
  then show ?thesis by simp
qed

lemma take_add_8:
  "take (8 + n) (a # b # c # d # e # f # g # h # ys) = a # b # c # d # e # f # g # h # take n ys"
  by (simp add: eval_nat_numeral)

lemma well_sized_len:
  assumes "well_sized e"
  shows "unat (of_nat (length (en_payload e)) :: u32) = length (en_payload e)"
  using assms max_payload_small [of "en_kind e"] by (simp add: well_sized_def unat_of_nat)

lemma envelope_encode_obtain:
  assumes "well_sized e"
  obtains k0 k1 l0 l1 l2 l3 where
    "envelope_encode e = PROTO_MAJOR # en_minor e # k0 # k1 # l0 # l1 # l2 # l3 # en_payload e"
    "from_be [k0, k1] = en_kind e"
    "from_be [l0, l1, l2, l3] = (of_nat (length (en_payload e)) :: u32)"
proof -
  obtain k0 k1 where k: "be_bytes 2 (en_kind e) = [k0, k1]" "from_be [k0, k1] = en_kind e"
    by (rule be_bytes_2_obtain)
  obtain l0 l1 l2 l3 where l: "be_bytes 4 (of_nat (length (en_payload e)) :: u32) = [l0, l1, l2, l3]"
    "from_be [l0, l1, l2, l3] = (of_nat (length (en_payload e)) :: u32)"
    by (rule be_bytes_4_obtain)
  show ?thesis
    using that assms k l by (simp add: envelope_encode_def well_sized_def)
qed

lemma well_sized_not_larger:
  "well_sized e \<Longrightarrow> \<not> max_payload_for (en_kind e) < (of_nat (length (en_payload e)) :: u32)"
  by (simp add: word_less_nat_alt well_sized_len) (simp add: well_sized_def)

lemma envelope_encode_decode:
  assumes "well_sized e"
  shows "envelope_decode (envelope_encode e @ rest) = Inr (e, length (envelope_encode e))"
proof -
  obtain k0 k1 l0 l1 l2 l3 where
    enc: "envelope_encode e = PROTO_MAJOR # en_minor e # k0 # k1 # l0 # l1 # l2 # l3 # en_payload e"
    and k: "from_be [k0, k1] = en_kind e"
    and l: "from_be [l0, l1, l2, l3] = (of_nat (length (en_payload e)) :: u32)"
    by (rule envelope_encode_obtain [OF assms])
  have "en_major e = PROTO_MAJOR" using assms by (simp add: well_sized_def)
  then show ?thesis
    unfolding length_envelope_encode
    by (simp add: enc envelope_decode_Cons k l well_sized_len [OF assms]
        well_sized_not_larger [OF assms] del: length_envelope_encode)
qed

lemma envelope_decode_sound:
  assumes "envelope_decode buf = Inr (e, n)"
  shows "well_sized e \<and> n = length (envelope_encode e) \<and> n \<le> length buf \<and> take n buf = envelope_encode e"
proof -
  from assms have "8 \<le> length buf"
    by (simp add: envelope_decode_def HEADER_LEN_def not_less split: if_splits)
  then obtain M mi k0 k1 l0 l1 l2 l3 body where
    buf: "buf = M # mi # k0 # k1 # l0 # l1 # l2 # l3 # body"
    unfolding length_ge_8_conv by blast
  let ?len = "from_be [l0, l1, l2, l3] :: u32"
  from assms have M: "M = PROTO_MAJOR" and len: "?len \<le> max_payload_for (from_be [k0, k1])"
    "unat ?len \<le> length body"
    and e: "e = \<lparr>en_major = M, en_minor = mi, en_kind = from_be [k0, k1], en_payload = take (unat ?len) body\<rparr>"
    "n = HEADER_LEN + unat ?len"
    by (auto simp: buf envelope_decode_Cons Let_def split: if_splits)
  have "be_bytes 2 (from_be [k0, k1] :: u16) = [k0, k1]"
    "be_bytes 4 ?len = [l0, l1, l2, l3]" by simp_all
  with M len show ?thesis
    by (simp add: buf e well_sized_def envelope_encode_def HEADER_LEN_def word_le_nat_alt min_absorb2 take_add_8)
qed

lemma envelope_decode_prefix:
  assumes "well_sized e" and "n < length (envelope_encode e)"
  shows "\<exists>k > 0. envelope_decode (take n (envelope_encode e)) = Inl (Truncated k)
    \<and> n + k \<le> length (envelope_encode e)"
proof (cases "n < 8")
  case True
  with assms show ?thesis by (simp add: envelope_decode_def HEADER_LEN_def)
next
  case False
  then obtain m where n: "n = 8 + m" by (metis le_Suc_ex not_less)
  obtain k0 k1 l0 l1 l2 l3 where
    enc: "envelope_encode e = PROTO_MAJOR # en_minor e # k0 # k1 # l0 # l1 # l2 # l3 # en_payload e"
    and k: "from_be [k0, k1] = en_kind e"
    and l: "from_be [l0, l1, l2, l3] = (of_nat (length (en_payload e)) :: u32)"
    by (rule envelope_encode_obtain [OF assms(1)])
  have "m < length (en_payload e)" using assms(2) n by (simp add: HEADER_LEN_def)
  then show ?thesis
    unfolding length_envelope_encode
    by (simp add: enc n take_add_8 envelope_decode_Cons k l well_sized_len [OF assms(1)]
        well_sized_not_larger [OF assms(1)] HEADER_LEN_def del: length_envelope_encode)
qed

section \<open>Properties\<close>

text \<open>
  C27. Envelopes are exact: \<open>Envelope::decode\<close> returns an envelope and a length if and only if the
  envelope has our major version and a payload within the cap of its kind, and the buffer starts
  with exactly the bytes \<open>Envelope::encode\<close> gives for it, the length being theirs.
\<close>

theorem envelope_exact:
  "envelope_decode buf = Inr (e, n) \<longleftrightarrow>
     well_sized e \<and> n = length (envelope_encode e) \<and> (\<exists>rest. buf = envelope_encode e @ rest)"
  using envelope_encode_decode envelope_decode_sound by (metis append_take_drop_id)

text \<open>
  Incremental decoding: every proper prefix of an encoded envelope is reported as truncated,
  never as an error or another envelope, and the number of missing bytes it asks for is positive
  and never goes beyond the envelope, so a reader that waits for them does not stall.
\<close>

theorem envelope_prefix_truncated:
  assumes "well_sized e" and "n < length (envelope_encode e)"
  shows "\<exists>k > 0. envelope_decode (take n (envelope_encode e)) = Inl (Truncated k)
    \<and> n + k \<le> length (envelope_encode e)"
  using assms by (rule envelope_decode_prefix)

theorem envelope_prefix_truncated_witness:
  "envelope_decode [1, 1, 0, 5, 0, 0, 0, 3, 7] = Inl (Truncated 2)"
  using envelope_prefix_truncated [of "envelope_new KHeartbeat [7, 8, 9]" 9]
  by (simp add: envelope_new_def well_sized_def envelope_encode_def envelope_consts
      max_payload_for_def envelope_decode_def from_be_list)

end
