(* ===== verification/Nq_Flow.thy ===== *)
theory Nq_Flow
  imports Nq_Prelude
begin

text \<open>
  Flow identity (\<open>crates/nqvpn-proto/src/flow.rs\<close>): the FNV-1a hash of an inner packet's addresses,
  protocol and ports, the trace id and the lane folded from it.
\<close>

section \<open>Hashing\<close>

definition FNV_OFFSET :: u64 where "FNV_OFFSET = 0xcbf29ce484222325"
definition FNV_PRIME :: u64 where "FNV_PRIME = 0x100000001b3"

definition mix :: "u64 \<Rightarrow> bytes \<Rightarrow> u64" where
  "mix h bs = foldl (\<lambda>h b. (h XOR ucast b) * FNV_PRIME) h bs"

text \<open>The parts of a packet the hash reads: protocol, addresses and the first four bytes after the
  header, when they are there.\<close>

definition flow_parts :: "bytes \<Rightarrow> (u8 \<times> bytes \<times> bytes option) option" where
  "flow_parts packet =
     (case packet of [] \<Rightarrow> None
      | b # _ \<Rightarrow>
        let version = drop_bit 4 b in
        if version = 4 then
          (if length packet < 20 then None
           else
             let ihl = unat (packet ! 0 AND 0x0f) * 4;
                 frag_offset = (from_be [packet ! 6 AND 0x1f, packet ! 7] :: u16);
                 l4 = (if frag_offset = 0 \<and> length packet \<ge> ihl + 4 then Some (slice ihl 4 packet) else None)
             in Some (packet ! 9, slice 12 8 packet, l4))
        else if version = 6 then
          (if length packet < 40 then None
           else
             let l4 = (if length packet \<ge> 44 then Some (slice 40 4 packet) else None)
             in Some (packet ! 6, slice 8 32 packet, l4))
        else None)"

definition has_ports :: "u8 \<Rightarrow> bool" where
  "has_ports proto \<longleftrightarrow> proto = 6 \<or> proto = 17 \<or> proto = 132 \<or> proto = 136"

definition flow_hash :: "bytes \<Rightarrow> u64 option" where
  "flow_hash packet =
     (case flow_parts packet of None \<Rightarrow> None
      | Some (proto, addrs, l4) \<Rightarrow>
        let h = mix FNV_OFFSET addrs; h = mix h [proto] in
        Some (case l4 of Some p \<Rightarrow> if has_ports proto then mix h p else h | None \<Rightarrow> h))"

definition trace_id :: "bytes \<Rightarrow> u32" where
  "trace_id packet = (case flow_hash packet of Some h \<Rightarrow> ucast (drop_bit 32 h XOR h) | None \<Rightarrow> 0)"

definition lane_for :: "bytes \<Rightarrow> u8 \<Rightarrow> u8" where
  "lane_for packet lanes =
     (if lanes \<le> 1 then 0
      else case flow_hash packet of
        Some h \<Rightarrow> ucast ((drop_bit 32 h XOR h) mod ucast lanes)
      | None \<Rightarrow> 0)"

section \<open>Lemmas\<close>

lemma flow_hash_cong: "flow_parts p = flow_parts q \<Longrightarrow> flow_hash p = flow_hash q"
  by (simp add: flow_hash_def)

text \<open>A hash-relevant IPv4 packet: whole header, not a later fragment, four bytes after it.\<close>

definition v4_unfragmented :: "bytes \<Rightarrow> bool" where
  "v4_unfragmented p \<longleftrightarrow> 20 \<le> length p \<and> drop_bit 4 (p ! 0) = 4
     \<and> (from_be [p ! 6 AND 0x1f, p ! 7] :: u16) = 0 \<and> unat (p ! 0 AND 0x0f) * 4 + 4 \<le> length p"

definition v4_l4 :: "bytes \<Rightarrow> bytes" where
  "v4_l4 p = slice (unat (p ! 0 AND 0x0f) * 4) 4 p"

lemma flow_parts_v4:
  "v4_unfragmented p \<Longrightarrow> flow_parts p = Some (p ! 9, slice 12 8 p, Some (v4_l4 p))"
  by (cases p) (auto simp: flow_parts_def v4_unfragmented_def v4_l4_def Let_def)

lemma mod_lanes_less: "1 < lanes \<Longrightarrow> (ucast ((x :: u64) mod ucast (lanes :: u8)) :: u8) < lanes"
proof -
  assume l: "1 < lanes"
  have "unat lanes < 2 ^ LENGTH(8)" by (rule unsigned_less)
  then have small: "unat lanes < 256" by simp
  then have u: "unat (ucast lanes :: u64) = unat lanes"
    by (simp add: unsigned_ucast_eq take_bit_nat_eq_self)
  have pos: "0 < unat lanes" using l by (simp add: word_less_nat_alt)
  have "unat (x mod ucast lanes) = unat x mod unat lanes" by (simp add: unat_mod_distrib u)
  then have lt: "unat (x mod ucast lanes) < unat lanes" using pos by simp
  with small have "unat (ucast (x mod ucast lanes) :: u8) = unat (x mod ucast lanes)"
    by (simp add: unsigned_ucast_eq take_bit_nat_eq_self)
  with lt show ?thesis by (simp add: word_less_nat_alt)
qed

section \<open>Properties\<close>

text \<open>
  Lanes are in range: with at least one lane the lane chosen for any packet is one of them.
\<close>

theorem lane_for_in_range:
  assumes "0 < lanes"
  shows "lane_for packet lanes < lanes"
  using assms
  by (cases "lanes \<le> 1") (auto simp: lane_for_def mod_lanes_less not_le split: option.splits)

theorem lane_for_in_range_witness: "lane_for [0x45] 3 < 3"
  by (rule lane_for_in_range) simp

text \<open>
  Stickiness: two unfragmented IPv4 packets with the same addresses, protocol and first four
  bytes after the header take the same lane and carry the same trace id, whatever their other
  header fields, options and payload are.
\<close>

theorem flow_sticky:
  assumes "v4_unfragmented p" and "v4_unfragmented q" and "p ! 9 = q ! 9"
    and "slice 12 8 p = slice 12 8 q" and "v4_l4 p = v4_l4 q"
  shows "lane_for p lanes = lane_for q lanes \<and> trace_id p = trace_id q"
proof -
  have "flow_hash p = flow_hash q"
    using assms by (intro flow_hash_cong) (simp add: flow_parts_v4)
  then show ?thesis by (simp add: lane_for_def trace_id_def)
qed

theorem flow_sticky_witness:
  "lane_for [0x45,0,0,28, 0,1,0,0, 64,17,0,0, 10,0,0,1, 10,0,0,2, 0,53,0,99, 0,8,0,0] 4 =
   lane_for [0x46,3,0,32, 0,9,0,0, 63,17,0,0, 10,0,0,1, 10,0,0,2, 1,1,1,1, 0,53,0,99, 0,8,0,0] 4"
  by (rule flow_sticky [THEN conjunct1])
    (simp_all add: v4_unfragmented_def v4_l4_def slice_def from_be_list)

end
