(* ===== verification/Nq_Credential.thy ===== *)
theory Nq_Credential
  imports Nq_Frame
begin

text \<open>
  Member credentials (\<open>crates/nqvpn-proto/src/credential.rs\<close>): compact signed tokens, their offline
  verification and the renewal time. Base64, JSON and Ed25519 belong to third-party packages: they
  are the fields of the parameter \<open>jose\<close>, and what the round trip relies on is the predicate
  \<open>jose_ok\<close>.
\<close>

section \<open>Data\<close>

definition AUD :: string where "AUD = ''nqvpn-v1''"
definition LEEWAY_SECS :: u64 where "LEEWAY_SECS = 120"

record cred_header =
  ch_alg :: string
  ch_typ :: string
  ch_kid :: string

record claims =
  cl_iss :: string
  cl_aud :: string
  cl_network_id :: string
  cl_network_uuid :: string
  cl_node_id :: node_id
  cl_sub :: string
  cl_role :: role
  cl_pubkey :: string
  cl_cert_fp :: string
  cl_prefixes :: "string list"
  cl_login_gen :: u64
  cl_iat :: u64
  cl_exp :: u64

datatype cred_error =
    Malformed | BadAlg string | UnknownKid string | BadSignature
  | Expired u64 u64 | NotYetValid u64 u64 | BadAud string | BadIss string | BadNetwork string

text \<open>What the token format takes from the base64, JSON and signature packages.\<close>

record ('sk, 'vk) jose =
  b64_encode :: "bytes \<Rightarrow> string"
  b64_decode :: "string \<Rightarrow> bytes option"
  header_to_vec :: "cred_header \<Rightarrow> bytes"
  header_from_slice :: "bytes \<Rightarrow> cred_header option"
  claims_to_vec :: "claims \<Rightarrow> bytes"
  claims_from_slice :: "bytes \<Rightarrow> claims option"
  ed_sign :: "'sk \<Rightarrow> string \<Rightarrow> bytes"
  ed_verify_strict :: "'vk \<Rightarrow> string \<Rightarrow> bytes \<Rightarrow> bool"
  json_u64 :: "bytes \<Rightarrow> string \<Rightarrow> u64 option"
  json_str :: "bytes \<Rightarrow> string \<Rightarrow> string option"

section \<open>Signing\<close>

definition cred_sign :: "('sk, 'vk) jose \<Rightarrow> claims \<Rightarrow> string \<Rightarrow> 'sk \<Rightarrow> string" where
  "cred_sign J cl kid key =
     (let header = \<lparr>ch_alg = ''EdDSA'', ch_typ = ''JWT'', ch_kid = kid\<rparr>;
          h = b64_encode J (header_to_vec J header);
          p = b64_encode J (claims_to_vec J cl);
          signing_input = h @ ''.'' @ p;
          sig = ed_sign J key signing_input
      in signing_input @ ''.'' @ b64_encode J sig)"

section \<open>Reading a token without verifying it\<close>

definition peek_json :: "('sk, 'vk) jose \<Rightarrow> string \<Rightarrow> bytes option" where
  "peek_json J token =
     (let parts = split_on CHR ''.'' token in
      if length parts \<le> 1 then None else b64_decode J (parts ! 1))"

definition peek_network :: "('sk, 'vk) jose \<Rightarrow> string \<Rightarrow> string option" where
  "peek_network J token = Option.bind (peek_json J token) (\<lambda>j. json_str J j ''network_id'')"

definition peek_node_id :: "('sk, 'vk) jose \<Rightarrow> string \<Rightarrow> node_id option" where
  "peek_node_id J token =
     Option.bind (Option.bind (peek_json J token) (\<lambda>j. json_u64 J j ''node_id''))
       (\<lambda>v. if unat v < 2 ^ 32 then Some (ucast v) else None)"

definition peek_u64 :: "('sk, 'vk) jose \<Rightarrow> string \<Rightarrow> string \<Rightarrow> u64 option" where
  "peek_u64 J token field = Option.bind (peek_json J token) (\<lambda>j. json_u64 J j field)"

definition renew_after_secs :: "('sk, 'vk) jose \<Rightarrow> string \<Rightarrow> u64" where
  "renew_after_secs J token =
     (case (peek_u64 J token ''iat'', peek_u64 J token ''exp'') of
        (Some iat, Some exp) \<Rightarrow> if exp > iat then max ((exp - iat) * 2 div 3) 30 else 300
      | _ \<Rightarrow> 300)"

definition peek_exp :: "('sk, 'vk) jose \<Rightarrow> string \<Rightarrow> u64 option" where
  "peek_exp J token = peek_u64 J token ''exp''"

section \<open>Verification\<close>

record expected =
  ex_iss :: string
  ex_network_id :: string
  ex_network_uuid :: string

definition check_claims :: "expected \<Rightarrow> u64 \<Rightarrow> claims \<Rightarrow> cred_error + claims" where
  "check_claims expd now cl =
     (if word_sat_add (cl_exp cl) LEEWAY_SECS \<le> now then Inl (Expired (cl_exp cl) now)
      else if cl_iat cl > word_sat_add now LEEWAY_SECS then Inl (NotYetValid (cl_iat cl) now)
      else if cl_aud cl \<noteq> AUD then Inl (BadAud (cl_aud cl))
      else if cl_iss cl \<noteq> ex_iss expd then Inl (BadIss (cl_iss cl))
      else if cl_network_id cl \<noteq> ex_network_id expd \<or> cl_network_uuid cl \<noteq> ex_network_uuid expd
        then Inl (BadNetwork (cl_network_id cl))
      else Inr cl)"

definition ok_or :: "'e \<Rightarrow> 'a option \<Rightarrow> 'e + 'a" where
  "ok_or e x = (case x of None \<Rightarrow> Inl e | Some v \<Rightarrow> Inr v)"

definition cred_verify ::
    "('sk, 'vk) jose \<Rightarrow> string \<Rightarrow> (string \<times> 'vk) list \<Rightarrow> expected \<Rightarrow> u64 \<Rightarrow> cred_error + claims" where
  "cred_verify J token keys expd now =
     (case split_on CHR ''.'' token of
        [h, p, s] \<Rightarrow>
          res_bind (ok_or Malformed (Option.bind (b64_decode J h) (header_from_slice J))) (\<lambda>header.
          if ch_alg header \<noteq> ''EdDSA'' then Inl (BadAlg (ch_alg header))
          else
          res_bind (ok_or (UnknownKid (ch_kid header))
            (map_option snd (find (\<lambda>kk. fst kk = ch_kid header) keys))) (\<lambda>key.
          res_bind (ok_or Malformed (b64_decode J s)) (\<lambda>sig_bytes.
          if length sig_bytes \<noteq> 64 then Inl Malformed
          else if \<not> ed_verify_strict J key (h @ ''.'' @ p) sig_bytes then Inl BadSignature
          else
          res_bind (ok_or Malformed (Option.bind (b64_decode J p) (claims_from_slice J))) (\<lambda>cl.
          check_claims expd now cl))))
      | _ \<Rightarrow> Inl Malformed)"

section \<open>Lemmas\<close>

text \<open>
  Documented behaviour of the packages on one token: base64 and JSON read back what they wrote,
  base64url has no dot, a signature is 64 bytes and verifies under its key.
\<close>

abbreviation sign_header :: "string \<Rightarrow> cred_header" where
  "sign_header kid \<equiv> \<lparr>ch_alg = ''EdDSA'', ch_typ = ''JWT'', ch_kid = kid\<rparr>"

definition sign_input :: "('sk, 'vk) jose \<Rightarrow> claims \<Rightarrow> string \<Rightarrow> string" where
  "sign_input J cl kid =
     b64_encode J (header_to_vec J (sign_header kid)) @ ''.'' @ b64_encode J (claims_to_vec J cl)"

definition jose_ok :: "('sk, 'vk) jose \<Rightarrow> claims \<Rightarrow> string \<Rightarrow> 'sk \<Rightarrow> 'vk \<Rightarrow> bool" where
  "jose_ok J cl kid sk vk \<longleftrightarrow>
     (\<forall>b \<in> {header_to_vec J (sign_header kid), claims_to_vec J cl, ed_sign J sk (sign_input J cl kid)}.
        b64_decode J (b64_encode J b) = Some b \<and> CHR ''.'' \<notin> set (b64_encode J b))
     \<and> header_from_slice J (header_to_vec J (sign_header kid)) = Some (sign_header kid)
     \<and> claims_from_slice J (claims_to_vec J cl) = Some cl
     \<and> length (ed_sign J sk (sign_input J cl kid)) = 64
     \<and> ed_verify_strict J vk (sign_input J cl kid) (ed_sign J sk (sign_input J cl kid))"

lemma ok_or_Inr [simp]: "ok_or e x = Inr v \<longleftrightarrow> x = Some v"
  by (auto simp: ok_or_def split: option.splits)

lemma ok_or_simps [simp]: "ok_or e (Some v) = Inr v" "ok_or e None = Inl e"
  by (simp_all add: ok_or_def)

lemma split_cred_sign:
  "jose_ok J cl kid sk vk \<Longrightarrow> split_on CHR ''.'' (cred_sign J cl kid sk) =
     [b64_encode J (header_to_vec J (sign_header kid)), b64_encode J (claims_to_vec J cl),
      b64_encode J (ed_sign J sk (sign_input J cl kid))]"
  by (simp add: cred_sign_def Let_def jose_ok_def sign_input_def split_on_append split_on_single)

lemma check_claims_Inr:
  "check_claims expd now cl = Inr c \<longleftrightarrow>
     c = cl \<and> now < word_sat_add (cl_exp cl) LEEWAY_SECS \<and> cl_iat cl \<le> word_sat_add now LEEWAY_SECS
     \<and> cl_aud cl = AUD \<and> cl_iss cl = ex_iss expd
     \<and> cl_network_id cl = ex_network_id expd \<and> cl_network_uuid cl = ex_network_uuid expd"
  by (auto simp: check_claims_def not_le not_less)

lemma cred_verify_sign:
  assumes "jose_ok J cl kid sk vk" and "find (\<lambda>kk. fst kk = kid) keys = Some (kid, vk)"
  shows "cred_verify J (cred_sign J cl kid sk) keys expd now = check_claims expd now cl"
  using assms by (simp add: cred_verify_def split_cred_sign) (simp add: jose_ok_def sign_input_def)

lemma cred_verify_sound:
  assumes "cred_verify J token keys expd now = Inr c"
  obtains h p s key where "split_on CHR ''.'' token = [h, p, s]" "key \<in> snd ` set keys"
    "\<exists>b. b64_decode J s = Some b \<and> ed_verify_strict J key (h @ ''.'' @ p) b"
    "Option.bind (b64_decode J p) (claims_from_slice J) = Some c" "check_claims expd now c = Inr c"
proof -
  from assms obtain h p s where split: "split_on CHR ''.'' token = [h, p, s]"
    by (auto simp: cred_verify_def split: list.splits)
  with assms obtain key b cl where "key \<in> snd ` set keys" "b64_decode J s = Some b"
      "ed_verify_strict J key (h @ ''.'' @ p) b"
      "Option.bind (b64_decode J p) (claims_from_slice J) = Some cl" "check_claims expd now cl = Inr c"
    by (auto simp: cred_verify_def res_bind_Inr_conv find_Some_iff split: if_splits)
      (metis image_eqI nth_mem snd_conv)
  moreover from this have "c = cl" by (simp add: check_claims_Inr)
  ultimately show ?thesis using that split by blast
qed

section \<open>Properties\<close>

text \<open>
  C28. Round trip: a token \<open>sign\<close> made under a key id that resolves to the matching verifying key is
  accepted by \<open>verify\<close>, with the claims that were signed, exactly when it has not expired beyond the
  leeway, was not issued beyond the leeway in the future, and names the audience, issuer and network
  expected.
\<close>

theorem cred_sign_verify:
  assumes "jose_ok J cl kid sk vk" and "find (\<lambda>kk. fst kk = kid) keys = Some (kid, vk)"
  shows "cred_verify J (cred_sign J cl kid sk) keys expd now = Inr c \<longleftrightarrow>
     c = cl \<and> now < word_sat_add (cl_exp cl) LEEWAY_SECS \<and> cl_iat cl \<le> word_sat_add now LEEWAY_SECS
     \<and> cl_aud cl = AUD \<and> cl_iss cl = ex_iss expd
     \<and> cl_network_id cl = ex_network_id expd \<and> cl_network_uuid cl = ex_network_uuid expd"
  using cred_verify_sign [OF assms] by (simp add: check_claims_Inr)

theorem cred_sign_verify_witness:
  "let cl = \<lparr>cl_iss = ''i'', cl_aud = ''nqvpn-v1'', cl_network_id = ''n'', cl_network_uuid = ''u'', cl_node_id = 7,
             cl_sub = ''s'', cl_role = Client, cl_pubkey = ''k'', cl_cert_fp = ''f'', cl_prefixes = [],
             cl_login_gen = 0, cl_iat = 1000, cl_exp = 2000\<rparr>;
       J = \<lparr>b64_encode = map (\<lambda>x. if x = 1 then CHR ''a'' else if x = 2 then CHR ''b'' else CHR ''c''),
            b64_decode = (\<lambda>s. Some (map (\<lambda>c. if c = CHR ''a'' then 1 else if c = CHR ''b'' then 2 else 3) s)),
            header_to_vec = (\<lambda>_. [1]), header_from_slice = (\<lambda>_. Some (sign_header ''k1'')),
            claims_to_vec = (\<lambda>_. [2]), claims_from_slice = (\<lambda>_. Some cl),
            ed_sign = (\<lambda>_ _. replicate 64 3), ed_verify_strict = (\<lambda>_ m b. m = ''a.b'' \<and> b = replicate 64 3),
            json_u64 = (\<lambda>_ _. None), json_str = (\<lambda>_ _. None)\<rparr>
   in cred_verify J (cred_sign J cl ''k1'' ()) [(''k0'', 0), (''k1'', 1 :: nat)]
        \<lparr>ex_iss = ''i'', ex_network_id = ''n'', ex_network_uuid = ''u''\<rparr> 2100 = Inr cl"
  unfolding Let_def
  by (rule cred_sign_verify [where vk = 1, THEN iffD2])
    (simp_all add: jose_ok_def sign_input_def AUD_def LEEWAY_SECS_def word_sat_add_def)



end
