(* ===== verification/Nq_Seal.thy ===== *)
theory Nq_Seal
  imports Nq_Frame
begin

text \<open>
  End-to-end sessions (\<open>crates/nqvpn-proto/src/seal.rs\<close>): the handshake timestamp, the transcript
  prologue, the replay window and the pair session built on it. The Noise protocol is the \<open>snow\<close>
  package's: its states and operations are the parameter \<open>noise\<close>. Key files are not modelled.
\<close>

section \<open>Constants\<close>

definition REPLAY_WINDOW :: nat where "REPLAY_WINDOW = 2048"
definition REKEY_AFTER_SECS :: u64 where "REKEY_AFTER_SECS = 120"
definition RESPONDER_REKEY_DELAY_SECS :: u64 where "RESPONDER_REKEY_DELAY_SECS = 10"
definition REJECT_AFTER_SECS :: u64 where "REJECT_AFTER_SECS = 180"
definition PREVIOUS_GRACE_SECS :: u64 where "PREVIOUS_GRACE_SECS = 10"
definition HANDSHAKE_TIMEOUT_SECS :: u64 where "HANDSHAKE_TIMEOUT_SECS = 5"
definition REKEY_AFTER_MESSAGES :: u64 where "REKEY_AFTER_MESSAGES = push_bit 40 1"
definition REJECT_AFTER_MESSAGES :: u64 where "REJECT_AFTER_MESSAGES = push_bit 40 1 + push_bit 30 1"
definition WINDOW_WORDS :: nat where "WINDOW_WORDS = REPLAY_WINDOW div 64"

lemmas seal_consts =
  REKEY_AFTER_SECS_def RESPONDER_REKEY_DELAY_SECS_def REJECT_AFTER_SECS_def PREVIOUS_GRACE_SECS_def
  HANDSHAKE_TIMEOUT_SECS_def REKEY_AFTER_MESSAGES_def REJECT_AFTER_MESSAGES_def

text \<open>The compile-time assertion of the source.\<close>

lemma rekey_before_reject:
  "REJECT_AFTER_SECS > REKEY_AFTER_SECS + RESPONDER_REKEY_DELAY_SECS + HANDSHAKE_TIMEOUT_SECS"
  by (simp add: seal_consts)

section \<open>Handshake timestamps\<close>

datatype tai64n = Tai64n (ts_secs: u64) (ts_nanos: u32)

text \<open>The derived order: seconds first, then nanoseconds.\<close>

instantiation tai64n :: linorder
begin

definition less_eq_tai64n :: "tai64n \<Rightarrow> tai64n \<Rightarrow> bool" where
  "less_eq_tai64n a b \<longleftrightarrow> ts_secs a < ts_secs b \<or> (ts_secs a = ts_secs b \<and> ts_nanos a \<le> ts_nanos b)"

definition less_tai64n :: "tai64n \<Rightarrow> tai64n \<Rightarrow> bool" where
  "less_tai64n a b \<longleftrightarrow> ts_secs a < ts_secs b \<or> (ts_secs a = ts_secs b \<and> ts_nanos a < ts_nanos b)"

instance
  by standard (auto simp: less_eq_tai64n_def less_tai64n_def tai64n.expand)

end

definition tai64n_to_bytes :: "tai64n \<Rightarrow> bytes" where
  "tai64n_to_bytes t = be_bytes 8 (ts_secs t) @ be_bytes 4 (ts_nanos t)"

definition tai64n_from_payload :: "bytes \<Rightarrow> tai64n" where
  "tai64n_from_payload p =
     Tai64n (if length p \<ge> 8 then from_be (slice 0 8 p) else 0)
            (if length p \<ge> 12 then from_be (slice 8 4 p) else 0)"

definition tai64n_succ :: "tai64n \<Rightarrow> tai64n" where
  "tai64n_succ t =
     (if ts_nanos t \<ge> 999999999 then Tai64n (word_sat_add (ts_secs t) 1) 0
      else Tai64n (ts_secs t) (ts_nanos t + 1))"

section \<open>The prologue\<close>

definition prologue :: "bytes \<Rightarrow> node_id \<Rightarrow> node_id \<Rightarrow> bytes" where
  "prologue network_uuid initiator responder =
     map (\<lambda>c. of_nat (of_char c)) ''nqvpn-v1'' @ network_uuid @ be_bytes 4 initiator @ be_bytes 4 responder"

section \<open>The replay window\<close>

record replay_window =
  rw_highest :: u64
  rw_bits :: "u64 list"
  rw_seen_any :: bool

definition rw_default :: replay_window where
  "rw_default = \<lparr>rw_highest = 0, rw_bits = replicate WINDOW_WORDS 0, rw_seen_any = False\<rparr>"

definition rw_idx :: "u64 \<Rightarrow> nat" where
  "rw_idx ctr = unat ctr mod REPLAY_WINDOW"

definition rw_bit :: "replay_window \<Rightarrow> u64 \<Rightarrow> bool" where
  "rw_bit w ctr =
     (let idx = rw_idx ctr in (rw_bits w ! (idx div 64)) AND push_bit (idx mod 64) 1 \<noteq> 0)"

definition rw_set :: "u64 \<Rightarrow> replay_window \<Rightarrow> replay_window" where
  "rw_set ctr w =
     (let idx = rw_idx ctr in
      w\<lparr>rw_bits := (rw_bits w)[idx div 64 := (rw_bits w ! (idx div 64)) OR push_bit (idx mod 64) 1]\<rparr>)"

definition rw_clear :: "u64 \<Rightarrow> replay_window \<Rightarrow> replay_window" where
  "rw_clear ctr w =
     (let idx = rw_idx ctr in
      w\<lparr>rw_bits := (rw_bits w)[idx div 64 := (rw_bits w ! (idx div 64)) AND NOT (push_bit (idx mod 64) 1)]\<rparr>)"

definition rw_check :: "replay_window \<Rightarrow> u64 \<Rightarrow> bool" where
  "rw_check w ctr =
     (if \<not> rw_seen_any w \<or> ctr > rw_highest w then True
      else if unat (rw_highest w - ctr) \<ge> REPLAY_WINDOW then False
      else \<not> rw_bit w ctr)"

definition rw_commit :: "u64 \<Rightarrow> replay_window \<Rightarrow> replay_window" where
  "rw_commit ctr w =
     (if \<not> rw_seen_any w then
        rw_set ctr \<lparr>rw_highest = ctr, rw_bits = replicate WINDOW_WORDS 0, rw_seen_any = True\<rparr>
      else
        let w = (if ctr > rw_highest w then
              (let advance = ctr - rw_highest w;
                   w = (if unat advance \<ge> REPLAY_WINDOW then w\<lparr>rw_bits := replicate WINDOW_WORDS 0\<rparr>
                        else fold rw_clear (map of_nat [Suc (unat (rw_highest w))..<Suc (unat ctr)]) w)
               in w\<lparr>rw_highest := ctr\<rparr>)
            else w)
        in rw_set ctr w)"

definition rw_accept :: "u64 \<Rightarrow> replay_window \<Rightarrow> bool \<times> replay_window" where
  "rw_accept ctr w = (if \<not> rw_check w ctr then (False, w) else (True, rw_commit ctr w))"

section \<open>What the window stores\<close>

text \<open>The bits as a set of slots.\<close>

definition slot :: "replay_window \<Rightarrow> nat \<Rightarrow> bool" where
  "slot w i = bit (rw_bits w ! (i div 64)) (i mod 64)"

lemma window_consts [simp]: "REPLAY_WINDOW = 2048" "WINDOW_WORDS = 32"
  by (simp_all add: REPLAY_WINDOW_def WINDOW_WORDS_def)

lemma rw_idx_less [simp]: "rw_idx c < 2048"
  by (simp add: rw_idx_def)

lemma rw_bit_slot: "rw_bit w c = slot w (rw_idx c)"
  by (simp add: rw_bit_def slot_def Let_def push_bit_eq_mult and_exp_eq_0_iff_not_bit)

lemma same_slot: "i div 64 = j div 64 \<and> i mod 64 = j mod 64 \<longleftrightarrow> i = (j :: nat)"
  by (metis div_mult_mod_eq)

lemma word_less_32: "j < 2048 \<Longrightarrow> j div 64 < (32 :: nat)"
  by (simp add: less_mult_imp_div_less)

lemma slot_set:
  assumes "length (rw_bits w) = 32" and "j < 2048"
  shows "slot (rw_set c w) j \<longleftrightarrow> j = rw_idx c \<or> slot w j"
  using assms same_slot [of j "rw_idx c"] word_less_32 [OF rw_idx_less [of c]]
  by (cases "j div 64 = rw_idx c div 64")
    (auto simp: slot_def rw_set_def Let_def bit_or_iff bit_exp_iff)

lemma slot_clear:
  assumes "length (rw_bits w) = 32" and "j < 2048"
  shows "slot (rw_clear c w) j \<longleftrightarrow> j \<noteq> rw_idx c \<and> slot w j"
  using assms same_slot [of j "rw_idx c"] word_less_32 [OF rw_idx_less [of c]]
  by (cases "j div 64 = rw_idx c div 64")
    (auto simp: slot_def rw_clear_def Let_def bit_and_iff bit_not_iff bit_exp_iff)

lemma rw_simps [simp]:
  "length (rw_bits (rw_set c w)) = length (rw_bits w)"
  "rw_highest (rw_set c w) = rw_highest w" "rw_seen_any (rw_set c w) = rw_seen_any w"
  "length (rw_bits (rw_clear c w)) = length (rw_bits w)"
  "rw_highest (rw_clear c w) = rw_highest w" "rw_seen_any (rw_clear c w) = rw_seen_any w"
  by (simp_all add: rw_set_def rw_clear_def Let_def)

lemma fold_clear_simps [simp]:
  "length (rw_bits (fold rw_clear cs w)) = length (rw_bits w)"
  "rw_highest (fold rw_clear cs w) = rw_highest w" "rw_seen_any (fold rw_clear cs w) = rw_seen_any w"
  by (induction cs arbitrary: w) simp_all

lemma slot_fold_clear:
  "length (rw_bits w) = 32 \<Longrightarrow> j < 2048 \<Longrightarrow>
     slot (fold rw_clear cs w) j \<longleftrightarrow> j \<notin> rw_idx ` set cs \<and> slot w j"
  by (induction cs arbitrary: w) (auto simp: slot_clear)

section \<open>The window implements a set of counters\<close>

text \<open>
  The abstract filter: the set of counters committed so far. A counter passes when it is not in the
  set and not a whole window below one that is.
\<close>

definition fresh_for :: "nat \<Rightarrow> nat set \<Rightarrow> nat \<Rightarrow> bool" where
  "fresh_for window S c \<longleftrightarrow> c \<notin> S \<and> (\<forall>h \<in> S. h < c + window)"

definition rw_rel :: "replay_window \<Rightarrow> nat set \<Rightarrow> bool" where
  "rw_rel w S \<longleftrightarrow> length (rw_bits w) = 32 \<and>
     (if rw_seen_any w
      then unat (rw_highest w) \<in> S \<and> (\<forall>c \<in> S. c \<le> unat (rw_highest w))
        \<and> (\<forall>c \<le> unat (rw_highest w). unat (rw_highest w) - c < 2048 \<longrightarrow> (slot w (c mod 2048) \<longleftrightarrow> c \<in> S))
      else S = {})"

lemma mod_window: "a \<le> b \<Longrightarrow> b - a < 2048 \<Longrightarrow> a mod 2048 = b mod 2048 \<longleftrightarrow> a = (b :: nat)"
proof
  assume le: "a \<le> b" and lt: "b - a < 2048" and eq: "a mod 2048 = b mod 2048"
  then have "(b - a) mod 2048 = 0" by (metis mod_eq_dvd_iff_nat mod_0_imp_dvd dvd_imp_mod_0)
  with lt le show "a = b" by simp
qed simp

lemma rw_check_spec:
  assumes "rw_rel w S"
  shows "rw_check w c \<longleftrightarrow> fresh_for 2048 S (unat c)"
proof (cases "rw_seen_any w")
  case False
  with assms show ?thesis by (simp add: rw_rel_def rw_check_def fresh_for_def)
next
  case True
  let ?h = "unat (rw_highest w)"
  have h: "?h \<in> S" "\<forall>d \<in> S. d \<le> ?h"
    and slots: "\<And>d. d \<le> ?h \<Longrightarrow> ?h - d < 2048 \<Longrightarrow> slot w (d mod 2048) \<longleftrightarrow> d \<in> S"
    using assms True by (auto simp: rw_rel_def)
  show ?thesis
  proof (cases "rw_highest w < c")
    case True
    then have "?h < unat c" by (simp add: word_less_nat_alt)
    with h show ?thesis using True by (force simp: rw_check_def fresh_for_def)
  next
    case False
    then have le: "unat c \<le> ?h" by (simp add: word_less_nat_alt)
    then have sub: "unat (rw_highest w - c) = ?h - unat c" by (simp add: unat_sub word_le_nat_alt)
    show ?thesis
    proof (cases "?h - unat c < 2048")
      case True
      moreover from True le h(2) have "\<forall>d \<in> S. d < unat c + 2048" by force
      ultimately show ?thesis
        using False \<open>rw_seen_any w\<close> slots [OF le]
        by (simp add: rw_check_def sub fresh_for_def rw_bit_slot rw_idx_def)
    next
      case no: False
      with h(1) le have "\<not> fresh_for 2048 S (unat c)" by (force simp: fresh_for_def)
      with no False \<open>rw_seen_any w\<close> show ?thesis by (simp add: rw_check_def sub)
    qed
  qed
qed

lemma rw_idx_of_nat: "n \<le> unat (c :: u64) \<Longrightarrow> rw_idx (of_nat n) = n mod 2048"
proof -
  assume "n \<le> unat c"
  moreover have "unat c < 2 ^ LENGTH(64)" by (rule unsigned_less)
  ultimately show ?thesis by (simp add: rw_idx_def unat_of_nat)
qed

lemma slot_zero: "j < 2048 \<Longrightarrow> rw_bits w = replicate 32 0 \<Longrightarrow> \<not> slot w j"
  using word_less_32 [of j] by (simp add: slot_def)

text \<open>After a slide from \<open>h\<close> to \<open>c\<close>, the slots in reach of \<open>c\<close> are those of the old set.\<close>

lemma slide_slots:
  fixes h c :: u64
  assumes "length (rw_bits w) = 32" and "unat h < unat c" and "unat c - unat h < 2048"
    and old: "\<And>d. d \<le> unat h \<Longrightarrow> unat h - d < 2048 \<Longrightarrow> slot w (d mod 2048) \<longleftrightarrow> d \<in> S"
    and top: "\<forall>d \<in> S. d \<le> unat h" and d: "d \<le> unat c" "unat c - d < 2048"
  shows "slot (fold rw_clear (map of_nat [Suc (unat h)..<Suc (unat c)]) w) (d mod 2048) \<longleftrightarrow> d \<in> S"
proof -
  let ?cs = "map of_nat [Suc (unat h)..<Suc (unat c)] :: u64 list"
  have "set ?cs = of_nat ` {Suc (unat h)..unat c}" by (auto simp del: upt_Suc)
  then have idx: "rw_idx ` set ?cs = (\<lambda>n. n mod 2048) ` {Suc (unat h)..unat c}"
    unfolding image_image by (simp only:) (auto simp: image_image rw_idx_of_nat [of _ c] intro!: image_cong)
  have iff: "d mod 2048 \<in> rw_idx ` set ?cs \<longleftrightarrow> unat h < d"
  proof
    assume "d mod 2048 \<in> rw_idx ` set ?cs"
    then obtain n where n: "unat h < n" "n \<le> unat c" "d mod 2048 = n mod 2048"
      unfolding idx by (auto simp: Suc_le_eq)
    show "unat h < d"
    proof (rule ccontr)
      assume "\<not> unat h < d"
      with n d have "d \<le> n" "n - d < 2048" by auto
      with mod_window n(3) have "d = n" by blast
      with n \<open>\<not> unat h < d\<close> show False by simp
    qed
  next
    assume "unat h < d"
    with d show "d mod 2048 \<in> rw_idx ` set ?cs" unfolding idx by auto
  qed
  have "slot (fold rw_clear ?cs w) (d mod 2048) \<longleftrightarrow> \<not> unat h < d \<and> slot w (d mod 2048)"
    using slot_fold_clear [OF assms(1), of "d mod 2048" ?cs] iff by simp
  moreover have "unat h - d < 2048" using assms(2) d by linarith
  ultimately show ?thesis using old [of d] top by auto
qed

lemma rw_relI:
  assumes "length (rw_bits w) = 32" and "rw_seen_any w" and "unat (rw_highest w) \<in> S"
    and "\<And>c. c \<in> S \<Longrightarrow> c \<le> unat (rw_highest w)"
    and "\<And>c. c \<le> unat (rw_highest w) \<Longrightarrow> unat (rw_highest w) - c < 2048 \<Longrightarrow> slot w (c mod 2048) \<longleftrightarrow> c \<in> S"
  shows "rw_rel w S"
  using assms by (simp add: rw_rel_def)

text \<open>Setting the newest counter's slot, when the other slots in reach are those of \<open>S\<close>.\<close>

lemma rw_rel_set_top:
  assumes "length (rw_bits w) = 32" and "rw_seen_any w" and "rw_highest w = c" and "\<And>d. d \<in> S \<Longrightarrow> d \<le> unat c"
    and "\<And>d. d \<le> unat c \<Longrightarrow> unat c - d < 2048 \<Longrightarrow> d \<noteq> unat c \<Longrightarrow> slot w (d mod 2048) \<longleftrightarrow> d \<in> S"
  shows "rw_rel (rw_set c w) (insert (unat c) S)"
proof (rule rw_relI)
  fix d assume d: "d \<le> unat (rw_highest (rw_set c w))" "unat (rw_highest (rw_set c w)) - d < 2048"
  then have "d mod 2048 = unat c mod 2048 \<longleftrightarrow> d = unat c" using mod_window assms(3) by simp
  with d assms show "slot (rw_set c w) (d mod 2048) \<longleftrightarrow> d \<in> insert (unat c) S"
    by (auto simp: slot_set rw_idx_def)
qed (use assms in auto)

lemma rw_rel_commit:
  assumes rel: "rw_rel w S" and chk: "rw_check w c"
  shows "rw_rel (rw_commit c w) (insert (unat c) S)"
proof (cases "rw_seen_any w")
  case False
  then have "S = {}" using rel by (simp add: rw_rel_def)
  with False show ?thesis
    by (auto simp: rw_commit_def slot_zero intro!: rw_rel_set_top)
next
  case seen: True
  let ?h = "unat (rw_highest w)"
  have len: "length (rw_bits w) = 32" and h: "?h \<in> S" "\<forall>d \<in> S. d \<le> ?h"
    and slots: "\<And>d. d \<le> ?h \<Longrightarrow> ?h - d < 2048 \<Longrightarrow> slot w (d mod 2048) \<longleftrightarrow> d \<in> S"
    using rel seen by (auto simp: rw_rel_def)
  show ?thesis
  proof (cases "rw_highest w < c")
    case lt: True
    then have hc: "?h < unat c" by (simp add: word_less_nat_alt)
    have sub: "unat (c - rw_highest w) = unat c - ?h" using lt by (simp add: unat_sub)
    let ?w = "if 2048 \<le> unat c - ?h then w\<lparr>rw_bits := replicate 32 0\<rparr>
      else fold rw_clear (map of_nat [Suc ?h..<Suc (unat c)]) w"
    have com: "rw_commit c w = rw_set c (?w\<lparr>rw_highest := c\<rparr>)"
      using seen lt by (simp add: rw_commit_def Let_def sub del: upt_Suc)
    have "slot ?w (d mod 2048) \<longleftrightarrow> d \<in> S" if "d \<le> unat c" "unat c - d < 2048" "d \<noteq> unat c" for d
    proof (cases "2048 \<le> unat c - ?h")
      case True
      with that h(2) have "d \<notin> S" by force
      with True show ?thesis by (simp add: slot_zero)
    next
      case False
      then show ?thesis using slide_slots [OF len hc _ slots h(2) that(1,2)] by (simp del: upt_Suc)
    qed
    moreover have "slot (?w\<lparr>rw_highest := c\<rparr>) j = slot ?w j" for j by (simp add: slot_def)
    ultimately show ?thesis
      unfolding com using len seen h(2) hc by (intro rw_rel_set_top) auto
  next
    case False
    then have le: "unat c \<le> ?h" by (simp add: word_less_nat_alt)
    with chk False seen have win: "?h - unat c < 2048"
      by (auto simp: rw_check_def unat_sub word_le_nat_alt split: if_splits)
    have same: "d mod 2048 = unat c mod 2048 \<longleftrightarrow> d = unat c" if "d \<le> ?h" "?h - d < 2048" for d
    proof -
      have "unat c - d < 2048" "d - unat c < 2048" using that win le by linarith+
      then show ?thesis
        using mod_window [of d "unat c"] mod_window [of "unat c" d] by (cases "d \<le> unat c") auto
    qed
    have "rw_commit c w = rw_set c w" using seen False by (simp add: rw_commit_def)
    then show ?thesis
      using h le len same slots seen by (auto intro!: rw_relI simp: slot_set rw_idx_def)
  qed
qed

section \<open>A filter of counters\<close>

text \<open>The counters a filter lets through, in order.\<close>

fun passed :: "('w \<Rightarrow> u64 \<Rightarrow> bool) \<Rightarrow> (u64 \<Rightarrow> 'w \<Rightarrow> 'w) \<Rightarrow> 'w \<Rightarrow> u64 list \<Rightarrow> u64 list \<times> 'w" where
  "passed check commit w [] = ([], w)"
| "passed check commit w (c # cs) =
     (if check w c then (let (ps, w') = passed check commit (commit c w) cs in (c # ps, w'))
      else passed check commit w cs)"

locale replay_filter =
  fixes check :: "'w \<Rightarrow> u64 \<Rightarrow> bool"
    and commit :: "u64 \<Rightarrow> 'w \<Rightarrow> 'w"
    and rel :: "'w \<Rightarrow> nat set \<Rightarrow> bool"
    and window :: nat
  assumes check_rel: "rel w S \<Longrightarrow> check w c \<longleftrightarrow> fresh_for window S (unat c)"
    and commit_rel: "rel w S \<Longrightarrow> check w c \<Longrightarrow> rel (commit c w) (insert (unat c) S)"
begin

lemma passed_rel:
  "rel w S \<Longrightarrow> passed check commit w cs = (ps, w') \<Longrightarrow> rel w' (S \<union> unat ` set ps)"
proof (induction cs arbitrary: w S ps)
  case (Cons c cs)
  show ?case
  proof (cases "check w c")
    case True
    with Cons.prems obtain qs where q: "passed check commit (commit c w) cs = (qs, w')" "ps = c # qs"
      by (auto split: prod.splits)
    from Cons.IH [OF commit_rel [OF Cons.prems(1) True] q(1)] show ?thesis by (simp add: q(2))
  next
    case False
    with Cons show ?thesis by simp
  qed
qed simp

lemma passed_distinct:
  "rel w S \<Longrightarrow> passed check commit w cs = (ps, w') \<Longrightarrow> distinct ps \<and> S \<inter> unat ` set ps = {}"
proof (induction cs arbitrary: w S ps)
  case (Cons c cs)
  show ?case
  proof (cases "check w c")
    case True
    then obtain qs where q: "passed check commit (commit c w) cs = (qs, w')" "ps = c # qs"
      using Cons.prems by (auto split: prod.splits)
    from Cons.IH [OF commit_rel [OF Cons.prems(1) True] q(1)] check_rel [OF Cons.prems(1), of c] True
    show ?thesis by (auto simp: q(2) fresh_for_def)
  next
    case False
    with Cons show ?thesis by simp
  qed
qed simp

text \<open>Exactness at any point: what passes next is what the abstract filter passes.\<close>

lemma passed_next:
  "rel w S \<Longrightarrow> passed check commit w cs = (ps, w') \<Longrightarrow>
     check w' c \<longleftrightarrow> fresh_for window (S \<union> unat ` set ps) (unat c)"
  using passed_rel check_rel by blast

end

interpretation rw: replay_filter rw_check rw_commit rw_rel 2048
  by unfold_locales (auto simp: rw_check_spec rw_rel_commit)

lemma rw_rel_default: "rw_rel rw_default {}"
  by (simp add: rw_rel_def rw_default_def)

section \<open>Pair sessions\<close>

datatype seal_error = Noise string | NoSession node_id | Replay u64 | Short | NotAReply

text \<open>
  What the session uses of the Noise package: handshake states \<open>'h\<close> and transport states \<open>'t\<close>. A
  read may change the state even when it fails.
\<close>

record ('h, 't) noise =
  nz_build_initiator :: "bytes \<Rightarrow> bytes \<Rightarrow> bytes \<Rightarrow> string + 'h"
  nz_build_responder :: "bytes \<Rightarrow> bytes \<Rightarrow> string + 'h"
  nz_hs_write :: "'h \<Rightarrow> bytes \<Rightarrow> string + bytes \<times> 'h"
  nz_hs_read :: "'h \<Rightarrow> bytes \<Rightarrow> (string + bytes) \<times> 'h"
  nz_into_transport :: "'h \<Rightarrow> string + 't"
  nz_hs_remote :: "'h \<Rightarrow> bytes option"
  nz_tr_remote :: "'t \<Rightarrow> bytes option"
  nz_sending_nonce :: "'t \<Rightarrow> u64"
  nz_tr_write :: "'t \<Rightarrow> bytes \<Rightarrow> (string + bytes) \<times> 't"
  nz_set_receiving_nonce :: "u64 \<Rightarrow> 't \<Rightarrow> 't"
  nz_tr_read :: "'t \<Rightarrow> bytes \<Rightarrow> (string + bytes) \<times> 't"

record static_keys =
  sk_private :: bytes
  sk_public :: bytes

datatype ('h, 't) stage = Handshake 'h | Transport 't

record ('h, 't) pair_session =
  ps_stage :: "('h, 't) stage option"
  ps_peer :: node_id
  ps_initiator :: bool
  ps_replay :: replay_window
  ps_established_at :: u64
  ps_messages :: u64

definition map_err :: "('e \<Rightarrow> 'f) \<Rightarrow> 'e + 'a \<Rightarrow> 'f + 'a" where
  "map_err f r = (case r of Inl e \<Rightarrow> Inl (f e) | Inr a \<Rightarrow> Inr a)"

definition initiate_at ::
    "('h, 't) noise \<Rightarrow> static_keys \<Rightarrow> node_id \<Rightarrow> bytes \<Rightarrow> bytes \<Rightarrow> node_id \<Rightarrow> u64 \<Rightarrow> tai64n
      \<Rightarrow> seal_error + ('h, 't) pair_session \<times> bytes" where
  "initiate_at N keys peer peer_pubkey network_uuid me now ts =
     res_bind (map_err Noise (nz_build_initiator N (sk_private keys) peer_pubkey (prologue network_uuid me peer))) (\<lambda>hs.
     res_bind (map_err Noise (nz_hs_write N hs (tai64n_to_bytes ts))) (\<lambda>(msg, hs).
     Inr (\<lparr>ps_stage = Some (Handshake hs), ps_peer = peer, ps_initiator = True, ps_replay = rw_default,
           ps_established_at = now, ps_messages = 0\<rparr>, msg)))"

definition initiate ::
    "('h, 't) noise \<Rightarrow> static_keys \<Rightarrow> node_id \<Rightarrow> bytes \<Rightarrow> bytes \<Rightarrow> node_id \<Rightarrow> u64
      \<Rightarrow> seal_error + ('h, 't) pair_session \<times> bytes" where
  "initiate N keys peer peer_pubkey network_uuid me now =
     initiate_at N keys peer peer_pubkey network_uuid me now (Tai64n now 0)"

definition respond ::
    "('h, 't) noise \<Rightarrow> static_keys \<Rightarrow> node_id \<Rightarrow> bytes \<Rightarrow> node_id \<Rightarrow> bytes \<Rightarrow> u64
      \<Rightarrow> seal_error + ('h, 't) pair_session \<times> bytes \<times> tai64n" where
  "respond N keys peer network_uuid me first_message now =
     res_bind (map_err Noise (nz_build_responder N (sk_private keys) (prologue network_uuid peer me))) (\<lambda>hs.
     let (r, hs) = nz_hs_read N hs first_message in
     res_bind (map_err Noise r) (\<lambda>payload.
     res_bind (map_err Noise (nz_hs_write N hs [])) (\<lambda>(reply, hs).
     res_bind (map_err Noise (nz_into_transport N hs)) (\<lambda>t.
     Inr (\<lparr>ps_stage = Some (Transport t), ps_peer = peer, ps_initiator = False, ps_replay = rw_default,
           ps_established_at = now, ps_messages = 0\<rparr>, reply, tai64n_from_payload payload)))))"

definition finish ::
    "('h, 't) noise \<Rightarrow> bytes \<Rightarrow> ('h, 't) pair_session \<Rightarrow> (seal_error + unit) \<times> ('h, 't) pair_session" where
  "finish N reply s =
     (case ps_stage s of
        Some (Handshake hs) \<Rightarrow>
          (let (r, hs) = nz_hs_read N hs reply in
           case r of
             Inl e \<Rightarrow> (Inl (Noise e), s\<lparr>ps_stage := Some (Handshake hs)\<rparr>)
           | Inr _ \<Rightarrow>
             (case nz_into_transport N hs of
                Inl e \<Rightarrow> (Inl (Noise e), s\<lparr>ps_stage := None\<rparr>)
              | Inr t \<Rightarrow> (Inr (), s\<lparr>ps_stage := Some (Transport t)\<rparr>)))
      | _ \<Rightarrow> (Inr (), s))"

definition is_ready :: "('h, 't) pair_session \<Rightarrow> bool" where
  "is_ready s = (case ps_stage s of Some (Transport _) \<Rightarrow> True | _ \<Rightarrow> False)"

definition peer_static :: "('h, 't) noise \<Rightarrow> ('h, 't) pair_session \<Rightarrow> bytes option" where
  "peer_static N s =
     (case ps_stage s of
        Some (Transport t) \<Rightarrow> nz_tr_remote N t
      | Some (Handshake h) \<Rightarrow> nz_hs_remote N h
      | None \<Rightarrow> None)"

definition seal ::
    "('h, 't) noise \<Rightarrow> bytes \<Rightarrow> ('h, 't) pair_session \<Rightarrow> (seal_error + u64 \<times> bytes) \<times> ('h, 't) pair_session" where
  "seal N plaintext s =
     (case ps_stage s of
        Some (Transport t) \<Rightarrow>
          (let ctr = nz_sending_nonce N t; (r, t) = nz_tr_write N t plaintext in
           case r of
             Inl e \<Rightarrow> (Inl (Noise e), s\<lparr>ps_stage := Some (Transport t)\<rparr>)
           | Inr out \<Rightarrow> (Inr (ctr, out), s\<lparr>ps_stage := Some (Transport t), ps_messages := ps_messages s + 1\<rparr>))
      | _ \<Rightarrow> (Inl (NoSession (ps_peer s)), s))"

definition unseal ::
    "('h, 't) noise \<Rightarrow> u64 \<Rightarrow> bytes \<Rightarrow> ('h, 't) pair_session \<Rightarrow> (seal_error + bytes) \<times> ('h, 't) pair_session" where
  "unseal N ctr ciphertext s =
     (case ps_stage s of
        Some (Transport t) \<Rightarrow>
          if \<not> rw_check (ps_replay s) ctr then (Inl (Replay ctr), s)
          else
            (let t = nz_set_receiving_nonce N ctr t; (r, t) = nz_tr_read N t ciphertext in
             case r of
               Inl e \<Rightarrow> (Inl (Noise e), s\<lparr>ps_stage := Some (Transport t)\<rparr>)
             | Inr out \<Rightarrow> (Inr out, s\<lparr>ps_stage := Some (Transport t), ps_replay := rw_commit ctr (ps_replay s)\<rparr>))
      | _ \<Rightarrow> (Inl (NoSession (ps_peer s)), s))"

definition is_stale_handshake :: "u64 \<Rightarrow> ('h, 't) pair_session \<Rightarrow> bool" where
  "is_stale_handshake now s \<longleftrightarrow>
     \<not> is_ready s \<and> word_sat_sub now (ps_established_at s) \<ge> HANDSHAKE_TIMEOUT_SECS"

definition needs_rekey :: "u64 \<Rightarrow> ('h, 't) pair_session \<Rightarrow> bool" where
  "needs_rekey now s \<longleftrightarrow> word_sat_sub now (ps_established_at s) \<ge> REKEY_AFTER_SECS
     \<or> ps_messages s \<ge> REKEY_AFTER_MESSAGES"

definition must_expire :: "u64 \<Rightarrow> ('h, 't) pair_session \<Rightarrow> bool" where
  "must_expire now s \<longleftrightarrow> word_sat_sub now (ps_established_at s) \<ge> REJECT_AFTER_SECS
     \<or> ps_messages s \<ge> REJECT_AFTER_MESSAGES"

definition session_age :: "u64 \<Rightarrow> ('h, 't) pair_session \<Rightarrow> u64" where
  "session_age now s = word_sat_sub now (ps_established_at s)"

section \<open>Lemmas on pair sessions\<close>

text \<open>The frames of a session: the counters whose frames decrypted, in order.\<close>

fun unseal_all ::
    "('h, 't) noise \<Rightarrow> (u64 \<times> bytes) list \<Rightarrow> ('h, 't) pair_session \<Rightarrow> u64 list \<times> ('h, 't) pair_session" where
  "unseal_all N [] s = ([], s)"
| "unseal_all N ((c, b) # fs) s =
     (let (r, s) = unseal N c b s; (cs, s') = unseal_all N fs s in
      ((case r of Inr _ \<Rightarrow> c # cs | Inl _ \<Rightarrow> cs), s'))"

lemma unseal_replay:
  assumes "unseal N c b s = (r, s')"
  shows "case r of Inr _ \<Rightarrow> rw_check (ps_replay s) c \<and> ps_replay s' = rw_commit c (ps_replay s)
    | Inl _ \<Rightarrow> ps_replay s' = ps_replay s"
  using assms
  by (auto simp: unseal_def Let_def split: option.splits stage.splits if_splits sum.splits prod.splits)

lemma unseal_all_rel:
  "rw_rel (ps_replay s) S \<Longrightarrow> unseal_all N fs s = (cs, s') \<Longrightarrow>
     distinct cs \<and> S \<inter> unat ` set cs = {} \<and> rw_rel (ps_replay s') (S \<union> unat ` set cs)"
proof (induction fs arbitrary: s S cs)
  case Nil
  then show ?case by simp
next
  case (Cons f fs)
  obtain c b where f: "f = (c, b)" by (cases f)
  obtain r s1 where r: "unseal N c b s = (r, s1)" by (cases "unseal N c b s")
  obtain ds where ds: "unseal_all N fs s1 = (ds, s')" "cs = (case r of Inr _ \<Rightarrow> c # ds | Inl _ \<Rightarrow> ds)"
    using Cons.prems(2) by (auto simp: f r split: prod.splits)
  show ?case
  proof (cases r)
    case (Inl e)
    with unseal_replay [OF r] have "rw_rel (ps_replay s1) S" using Cons.prems(1) by simp
    from Cons.IH [OF this ds(1)] Inl ds(2) show ?thesis by simp
  next
    case (Inr out)
    with unseal_replay [OF r] have chk: "rw_check (ps_replay s) c" "ps_replay s1 = rw_commit c (ps_replay s)" by simp_all
    then have "rw_rel (ps_replay s1) (insert (unat c) S)" using rw_rel_commit [OF Cons.prems(1)] by simp
    from Cons.IH [OF this ds(1)] Inr ds(2) rw_check_spec [OF Cons.prems(1)] chk(1)
    show ?thesis by (auto simp: fresh_for_def)
  qed
qed

lemma tai64n_roundtrip: "tai64n_from_payload (tai64n_to_bytes t @ rest) = t"
  by (cases t) (simp add: tai64n_from_payload_def tai64n_to_bytes_def slice_def)

lemma tai64n_old_format: "tai64n_from_payload (be_bytes 8 s) = Tai64n s 0"
  by (simp add: tai64n_from_payload_def slice_def)

text \<open>\<open>succ\<close> is strictly later, except at the very last second a 64-bit clock can show.\<close>

lemma tai64n_succ_later:
  "ts_secs t \<noteq> - 1 \<or> ts_nanos t < 999999999 \<Longrightarrow> t < tai64n_succ t"
proof (cases "ts_nanos t \<ge> 999999999")
  case True
  assume "ts_secs t \<noteq> - 1 \<or> ts_nanos t < 999999999"
  with True have "ts_secs t \<noteq> - 1" by auto
  then have "unat (ts_secs t) \<noteq> unat (- 1 :: u64)" by (simp add: word_unat_eq_iff)
  moreover have "unat (ts_secs t) < 2 ^ LENGTH(64)" by (rule unsigned_less)
  ultimately have "unat (ts_secs t) < unat (word_sat_add (ts_secs t) 1)"
    by (simp add: unat_word_sat_add unsigned_minus_1_eq_mask mask_eq_exp_minus_1)
  with True show ?thesis by (simp add: tai64n_succ_def less_tai64n_def word_less_nat_alt)
next
  case False
  then have "unat (ts_nanos t) < 999999999" by (simp add: word_less_nat_alt not_le)
  then have "unat (ts_nanos t + 1) = unat (ts_nanos t) + 1" by (simp add: unat_word_ariths)
  with False show ?thesis by (simp add: tai64n_succ_def less_tai64n_def word_less_nat_alt)
qed

lemma prologue_inj:
  "prologue u i r = prologue u' i' r' \<Longrightarrow> u = u' \<and> i = i' \<and> r = r'"
proof -
  assume eq: "prologue u i r = prologue u' i' r'"
  then have "u @ (be_bytes 4 i @ be_bytes 4 r) = u' @ (be_bytes 4 i' @ be_bytes 4 r')"
    by (simp add: prologue_def)
  then have "u = u'" and b: "be_bytes 4 i @ be_bytes 4 r = be_bytes 4 i' @ be_bytes 4 r'"
    by (simp_all add: append_eq_append_conv)
  from b have "be_bytes 4 i = be_bytes 4 i'" "be_bytes 4 r = be_bytes 4 r'" by simp_all
  then have "from_be (be_bytes 4 i) = i'" "from_be (be_bytes 4 r) = r'" by simp_all
  then have "i = i'" "r = r'" by simp_all
  with \<open>u = u'\<close> show ?thesis by blast
qed

section \<open>Properties\<close>

text \<open>
  C20. The replay window implements the set of counters seen: whatever counters arrive, none passes
  twice, and at every point the bitmap answers exactly what the set would answer, that is, a counter
  passes if and only if it has not passed before and lies less than a window below the highest one.
\<close>

theorem replay_window_exact:
  "case passed rw_check rw_commit rw_default cs of (ps, w) \<Rightarrow>
     distinct ps \<and> (\<forall>c. rw_check w c \<longleftrightarrow> fresh_for REPLAY_WINDOW (unat ` set ps) (unat c))"
proof -
  obtain ps w where p: "passed rw_check rw_commit rw_default cs = (ps, w)" by (rule prod.exhaust)
  show ?thesis
    using rw.passed_distinct [OF rw_rel_default p] rw.passed_next [OF rw_rel_default p] by (simp add: p)
qed

text \<open>
  C23. A session decrypts each counter at most once, whatever frames arrive and whatever the cipher
  does, and a frame that fails to decrypt leaves the window as it was: a counter that did not succeed
  before and is in the window is still accepted.
\<close>

theorem unseal_once:
  assumes "ps_replay s = rw_default" and "unseal_all N frames s = (cs, s')"
  shows "distinct cs
    \<and> (\<forall>c. rw_check (ps_replay s') c \<longleftrightarrow> fresh_for REPLAY_WINDOW (unat ` set cs) (unat c))"
proof -
  have "rw_rel (ps_replay s) {}" by (simp add: assms(1) rw_rel_default)
  from unseal_all_rel [OF this assms(2)] show ?thesis by (simp add: rw_check_spec)
qed

theorem unseal_once_witness:
  "let N = \<lparr>nz_build_initiator = (\<lambda>_ _ _. Inl []), nz_build_responder = (\<lambda>_ _. Inl []),
            nz_hs_write = (\<lambda>_ _. Inl []), nz_hs_read = (\<lambda>h _. (Inl [], h)), nz_into_transport = (\<lambda>_. Inl []),
            nz_hs_remote = (\<lambda>_. None), nz_tr_remote = (\<lambda>_. None), nz_sending_nonce = (\<lambda>_. 0),
            nz_tr_write = (\<lambda>t _. (Inl [], t)), nz_set_receiving_nonce = (\<lambda>_ t. t),
            nz_tr_read = (\<lambda>t b. (if b = [7] then Inr [1] else Inl ''tag'', t))\<rparr> :: (unit, unit) noise;
       s = \<lparr>ps_stage = Some (Transport ()), ps_peer = 4, ps_initiator = True, ps_replay = rw_default,
            ps_established_at = 0, ps_messages = 0\<rparr>
   in fst (unseal_all N [(9, [0]), (9, [7]), (9, [7])] s) = [9]"
proof -
  define N :: "(unit, unit) noise" where "N = \<lparr>nz_build_initiator = (\<lambda>_ _ _. Inl []), nz_build_responder = (\<lambda>_ _. Inl []),
            nz_hs_write = (\<lambda>_ _. Inl []), nz_hs_read = (\<lambda>h _. (Inl [], h)), nz_into_transport = (\<lambda>_. Inl []),
            nz_hs_remote = (\<lambda>_. None), nz_tr_remote = (\<lambda>_. None), nz_sending_nonce = (\<lambda>_. 0),
            nz_tr_write = (\<lambda>t _. (Inl [], t)), nz_set_receiving_nonce = (\<lambda>_ t. t),
            nz_tr_read = (\<lambda>t b. (if b = [7] then Inr [1] else Inl ''tag'', t))\<rparr>"
  define s :: "(unit, unit) pair_session" where
    "s = \<lparr>ps_stage = Some (Transport ()), ps_peer = 4, ps_initiator = True, ps_replay = rw_default,
            ps_established_at = 0, ps_messages = 0\<rparr>"
  obtain cs s' where u: "unseal_all N [(9, [0]), (9, [7])] s = (cs, s')" by (rule prod.exhaust)
  have cs: "cs = [9]" and st: "ps_stage s' = Some (Transport ())"
    using u by (auto simp: N_def s_def unseal_def rw_check_def rw_default_def Let_def)
  have "\<not> rw_check (ps_replay s') 9"
    using unseal_once [OF _ u] cs by (simp add: s_def fresh_for_def)
  then have "fst (unseal_all N [(9, [7])] s') = []"
    using st by (simp add: unseal_def)
  moreover have "unseal_all N [(9, [0]), (9, [7]), (9, [7])] s = (cs @ fst (unseal_all N [(9, [7])] s'), snd (unseal_all N [(9, [7])] s'))"
    using u by (auto simp: Let_def split: prod.splits sum.splits)
  ultimately show ?thesis by (simp add: cs N_def s_def)
qed

text \<open>
  Prologue binding: handshakes of different networks or of different ordered pairs of nodes never
  share a transcript prologue.
\<close>

theorem prologue_binds:
  assumes "prologue uuid i r = prologue uuid' i' r'"
  shows "uuid = uuid' \<and> i = i' \<and> r = r'"
  using assms by (rule prologue_inj)

theorem prologue_binds_witness: "prologue [1] 5 6 \<noteq> prologue [1] 6 5"
  using prologue_binds [of "[1]" 5 6 "[1]" 6 5] by auto

end
