(* ===== verification/Nq_Link.thy ===== *)
theory Nq_Link
  imports Nq_View Nq_Envelope
begin

text \<open>
  The member's side of the control session (\<open>crates/nqvpn-sync/src/link.rs\<close>): its copy of the view,
  the handle other tasks poke, the reader and writer of one session, and the reconnect loop. The
  payload decoders (\<open>bincode\<close>) are parameters; awaiting, TLS and the sockets are not modelled.
\<close>

section \<open>The view\<close>

record view =
  vw_snap :: snapshot
  vw_changed :: u64

definition view_new :: view where
  "view_new = \<lparr>vw_snap = snapshot_default, vw_changed = 0\<rparr>"

definition view_gen :: "view \<Rightarrow> u64" where
  "view_gen v = sn_gen (vw_snap v)"

definition view_digest :: "(snapshot \<Rightarrow> bytes) \<Rightarrow> view \<Rightarrow> u64" where
  "view_digest enc v = digest enc (vw_snap v)"

definition view_poke :: "view \<Rightarrow> view" where
  "view_poke v = v\<lparr>vw_changed := vw_changed v + 1\<rparr>"

definition view_replace :: "view \<Rightarrow> snapshot \<Rightarrow> view" where
  "view_replace v s = view_poke (v\<lparr>vw_snap := s\<rparr>)"

definition view_install :: "view \<Rightarrow> snapshot \<Rightarrow> (u64 + unit) \<times> view" where
  "view_install v s =
     (let s = snapshot_normalize s in
      if sn_gen s < sn_gen (vw_snap v) then (Inl (sn_gen (vw_snap v)), v)
      else (Inr (), view_poke (v\<lparr>vw_snap := s\<rparr>)))"

definition view_apply :: "view \<Rightarrow> delta \<Rightarrow> (generation_gap + unit) \<times> view" where
  "view_apply v d =
     (case snapshot_apply (vw_snap v) d of
        Inl gap \<Rightarrow> (Inl gap, v)
      | Inr s \<Rightarrow>
          (Inr (), if sn_gen s \<noteq> sn_gen (vw_snap v) then view_poke (v\<lparr>vw_snap := s\<rparr>)
                   else v\<lparr>vw_snap := s\<rparr>))"

section \<open>The handle\<close>

datatype member_exit = Replaced string

definition EXIT_REPLACED :: int where "EXIT_REPLACED = 3"

definition exit_code :: "member_exit \<Rightarrow> int" where
  "exit_code e = EXIT_REPLACED"

fun exit_reason :: "member_exit \<Rightarrow> string" where
  "exit_reason (Replaced r) = r"

text \<open>A \<open>Notify\<close> stores at most one wake-up.\<close>

record link_handle =
  lh_kick :: bool
  lh_refresh :: "string option"
  lh_stop :: "member_exit option"
  lh_stop_notify :: bool
  lh_refused :: bool

definition handle_default :: link_handle where
  "handle_default = \<lparr>lh_kick = False, lh_refresh = None, lh_stop = None, lh_stop_notify = False,
     lh_refused = False\<rparr>"

definition handle_stop :: "member_exit \<Rightarrow> link_handle \<Rightarrow> link_handle" where
  "handle_stop e h =
     (let h' = (if lh_stop h = None then h\<lparr>lh_stop := Some e\<rparr> else h) in h'\<lparr>lh_stop_notify := True\<rparr>)"

definition handle_replaced :: "string \<Rightarrow> link_handle \<Rightarrow> link_handle" where
  "handle_replaced reason h = handle_stop (Replaced reason) h"

definition stop_reason :: "link_handle \<Rightarrow> member_exit option" where
  "stop_reason h = lh_stop h"

definition set_refused :: "bool \<Rightarrow> link_handle \<Rightarrow> link_handle" where
  "set_refused b h = h\<lparr>lh_refused := b\<rparr>"

definition is_refused :: "link_handle \<Rightarrow> bool" where
  "is_refused h = lh_refused h"

definition handle_kick :: "link_handle \<Rightarrow> link_handle" where
  "handle_kick h = h\<lparr>lh_kick := True\<rparr>"

definition handle_refresh :: "string \<Rightarrow> link_handle \<Rightarrow> link_handle" where
  "handle_refresh c h = handle_kick (h\<lparr>lh_refresh := Some c\<rparr>)"

section \<open>The reader of one session\<close>

text \<open>The decoders of the three payloads the reader looks into.\<close>

record 'e decoders =
  dec_ack :: "bytes \<Rightarrow> 'e + u64"
  dec_snapshot :: "bytes \<Rightarrow> 'e + snapshot"
  dec_delta :: "bytes \<Rightarrow> 'e + delta"

record session =
  ss_view :: view
  ss_resync :: "u64 list"

definition RESYNC_CAP :: nat where "RESYNC_CAP = 4"

definition try_send :: "nat \<Rightarrow> 'a \<Rightarrow> 'a list \<Rightarrow> 'a list" where
  "try_send cap x q = (if length q < cap then q @ [x] else q)"

fun gap_have :: "generation_gap \<Rightarrow> u64" where
  "gap_have (GenerationGap base have') = have'"

definition session_receive :: "'e decoders \<Rightarrow> session \<Rightarrow> envelope \<Rightarrow> 'e + session" where
  "session_receive dec s env =
     (if en_kind env = kind_u16 KHelloAck then
        res_bind (dec_ack dec (en_payload env)) (\<lambda>_. Inr s)
      else if en_kind env = kind_u16 KSnapshot then
        res_bind (dec_snapshot dec (en_payload env))
          (\<lambda>sn. Inr (s\<lparr>ss_view := snd (view_install (ss_view s) sn)\<rparr>))
      else if en_kind env = kind_u16 KDelta then
        res_bind (dec_delta dec (en_payload env))
          (\<lambda>d. let r = view_apply (ss_view s) d in
             Inr (s\<lparr>ss_view := snd r,
                    ss_resync := (case fst r of
                        Inl gap \<Rightarrow> try_send RESYNC_CAP (gap_have gap) (ss_resync s)
                      | Inr _ \<Rightarrow> ss_resync s)\<rparr>))
      else Inr s)"

fun session_run :: "'e decoders \<Rightarrow> session \<Rightarrow> envelope list \<Rightarrow> 'e + session" where
  "session_run dec s [] = Inr s"
| "session_run dec s (e # es) = res_bind (session_receive dec s e) (\<lambda>s'. session_run dec s' es)"

section \<open>The writer of one session\<close>

datatype writer_event = Tick | Kick | ResyncRecv u64

datatype out_msg =
  OutResync u64 | OutRefresh string | OutHeartbeat heartbeat | OutExitReadiness exit_readiness

record writer =
  wr_handle :: link_handle
  wr_reported_readiness :: "exit_readiness option"

text \<open>
  One turn of the writer: \<open>facts\<close> is what \<open>LocalFacts::heartbeat\<close> and \<open>exit_readiness\<close> return at
  that moment.
\<close>

definition writer_step ::
    "(snapshot \<Rightarrow> bytes) \<Rightarrow> view \<Rightarrow> heartbeat \<times> exit_readiness option \<Rightarrow> writer_event \<Rightarrow> writer
       \<Rightarrow> out_msg list \<times> writer" where
  "writer_step enc v facts ev w =
     (case ev of
        ResyncRecv have' \<Rightarrow> ([OutResync have'], w)
      | _ \<Rightarrow>
        let h = wr_handle w;
            h = (if ev = Kick then h\<lparr>lh_kick := False\<rparr> else h);
            refresh = lh_refresh h;
            h = h\<lparr>lh_refresh := None\<rparr>;
            hb = (fst facts)\<lparr>hb_gen := view_gen v, hb_digest := view_digest enc v\<rparr>;
            out = (case refresh of Some c \<Rightarrow> [OutRefresh c] | None \<Rightarrow> []) @ [OutHeartbeat hb];
            readiness = snd facts
        in case readiness of
             Some er \<Rightarrow>
               if readiness \<noteq> wr_reported_readiness w
               then (out @ [OutExitReadiness er], w\<lparr>wr_handle := h, wr_reported_readiness := readiness\<rparr>)
               else (out, w\<lparr>wr_handle := h\<rparr>)
           | None \<Rightarrow> (out, w\<lparr>wr_handle := h\<rparr>))"

section \<open>The reconnect loop\<close>

datatype session_end = EndOk | EndStop member_exit | EndReconfigured string | EndLost

text \<open>
  What the read loop ends with once the stream fails: the application close of the connection, when
  there is one, decides.
\<close>

definition close_to_end :: "(u32 \<times> string) option \<Rightarrow> session_end" where
  "close_to_end c =
     (case c of
        Some (code, reason) \<Rightarrow>
          if code = CLOSE_REPLACED then EndStop (Replaced reason)
          else if code = CLOSE_RECONFIGURED then EndReconfigured reason
          else EndLost
      | None \<Rightarrow> EndLost)"

text \<open>The other way out of the read loop: the owner stopped this member.\<close>

definition stopped_end :: "link_handle \<Rightarrow> session_end" where
  "stopped_end h = EndStop (case stop_reason h of Some e \<Rightarrow> e | None \<Rightarrow> Replaced ''stopped'')"

datatype loop_next = Return member_exit | Rejoin "nat option" nat

text \<open>
  One turn of \<open>run_member\<close> after a session: return, or sleep (\<open>None\<close>: not at all), take the new delay
  and re-join. \<open>stop_after\<close> is the stop reason read after the sleep; times are in seconds.
\<close>

definition after_session ::
    "session_end \<Rightarrow> bool \<Rightarrow> nat \<Rightarrow> member_exit option \<Rightarrow> loop_next" where
  "after_session e was_healthy delay stop_after =
     (case e of
        EndStop exit \<Rightarrow> Return exit
      | _ \<Rightarrow>
        let reconfigured = (case e of EndReconfigured _ \<Rightarrow> True | _ \<Rightarrow> False);
            slept = (if reconfigured then None else Some delay);
            delay' = (if was_healthy \<or> reconfigured then 1 else min (delay * 2) 5)
        in case stop_after of Some exit \<Rightarrow> Return exit | None \<Rightarrow> Rejoin slept delay')"

section \<open>Lemmas\<close>

lemma view_gen_poke [simp]:
  "vw_snap (view_poke v) = vw_snap v" "vw_changed (view_poke v) = vw_changed v + 1"
  by (simp_all add: view_poke_def)

lemma view_install_gen: "view_gen v \<le> view_gen (snd (view_install v s))"
  by (auto simp: view_install_def view_gen_def Let_def not_less)

lemma view_apply_gen: "view_gen v \<le> view_gen (snd (view_apply v d))"
  by (auto simp: view_apply_def view_gen_def split: sum.splits dest: snapshot_apply_gen)

lemma view_install_canonical:
  "canonical (vw_snap v) \<Longrightarrow> canonical (vw_snap (snd (view_install v s)))"
  by (simp add: view_install_def Let_def)

lemma view_apply_canonical:
  "canonical (vw_snap v) \<Longrightarrow> canonical (vw_snap (snd (view_apply v d)))"
  by (auto simp: view_apply_def split: sum.splits dest: snapshot_apply_canonical)

definition view_le :: "view \<Rightarrow> view \<Rightarrow> bool" where
  "view_le v v' \<longleftrightarrow> view_gen v \<le> view_gen v' \<and> (canonical (vw_snap v) \<longrightarrow> canonical (vw_snap v'))"

lemma session_receive_view:
  assumes "session_receive dec s env = Inr s'"
  obtains "ss_view s' = ss_view s"
  | sn where "ss_view s' = snd (view_install (ss_view s) sn)"
  | d where "ss_view s' = snd (view_apply (ss_view s) d)"
  using assms by (auto simp: session_receive_def res_bind_Inr_conv Let_def split: if_splits)

lemma session_receive_le:
  "session_receive dec s env = Inr s' \<Longrightarrow> view_le (ss_view s) (ss_view s')"
  by (erule session_receive_view)
    (auto simp: view_le_def view_install_gen view_apply_gen view_install_canonical view_apply_canonical)

lemma session_run_le: "session_run dec s es = Inr s' \<Longrightarrow> view_le (ss_view s) (ss_view s')"
proof (induction es arbitrary: s)
  case Nil
  then show ?case by (simp add: view_le_def)
next
  case (Cons e es)
  then obtain s1 where "session_receive dec s e = Inr s1" "session_run dec s1 es = Inr s'"
    by (auto simp: res_bind_Inr_conv)
  with Cons.IH [of s1] session_receive_le [of dec s e s1] show ?case
    by (auto simp: view_le_def)
qed

text \<open>A history of deltas, as the reader applies it.\<close>

lemma view_apply_snapshot:
  "snapshot_apply (vw_snap v) d = Inr s \<Longrightarrow> \<exists>v'. view_apply v d = (Inr (), v') \<and> vw_snap v' = s"
  by (simp add: view_apply_def)

definition delta_env :: "bytes \<Rightarrow> envelope" where
  "delta_env p = envelope_new KDelta p"

lemma session_receive_delta:
  assumes "dec_delta dec p = Inr d" and "snapshot_apply (vw_snap (ss_view s)) d = Inr sn"
  shows "\<exists>s'. session_receive dec s (delta_env p) = Inr s' \<and> vw_snap (ss_view s') = sn
    \<and> ss_resync s' = ss_resync s"
  using assms view_apply_snapshot [OF assms(2)]
  by (auto simp: session_receive_def delta_env_def envelope_new_def)

lemma session_run_deltas:
  "\<forall>d \<in> set ds. dec_delta dec (enc d) = Inr d \<Longrightarrow> apply_all snapshot_apply (vw_snap (ss_view s)) ds = Inr sn \<Longrightarrow>
    \<exists>s'. session_run dec s (map (\<lambda>d. delta_env (enc d)) ds) = Inr s' \<and> vw_snap (ss_view s') = sn
      \<and> ss_resync s' = ss_resync s"
proof (induction ds arbitrary: s)
  case Nil
  then show ?case by simp
next
  case (Cons d ds)
  then obtain s1 where a: "snapshot_apply (vw_snap (ss_view s)) d = Inr s1"
    and rest: "apply_all snapshot_apply s1 ds = Inr sn" by (auto simp: res_bind_Inr_conv)
  have "dec_delta dec (enc d) = Inr d" using Cons.prems by simp
  from session_receive_delta [OF this a] obtain t where
    t: "session_receive dec s (delta_env (enc d)) = Inr t" "vw_snap (ss_view t) = s1"
    "ss_resync t = ss_resync s" by blast
  with Cons.IH [of t] Cons.prems rest show ?case by auto
qed

lemma lh_stop_handle_stop [simp]:
  "lh_stop (handle_stop e h) = (case lh_stop h of None \<Rightarrow> Some e | Some x \<Rightarrow> Some x)"
  by (simp add: handle_stop_def Let_def split: option.splits)

section \<open>Properties\<close>

text \<open>
  A member's view never goes back: whatever envelopes a control session receives, and however
  the payloads decode, the generation held never decreases and a view in canonical order stays so.
\<close>

theorem session_view_monotone:
  assumes "session_run dec s es = Inr s'"
  shows "view_gen (ss_view s) \<le> view_gen (ss_view s')
    \<and> (canonical (vw_snap (ss_view s)) \<longrightarrow> canonical (vw_snap (ss_view s')))"
  using session_run_le [OF assms] by (simp add: view_le_def)

theorem session_view_monotone_witness:
  "let dec = \<lparr>dec_ack = (\<lambda>_. Inr 0), dec_snapshot = (\<lambda>p. Inr (snapshot_default\<lparr>sn_gen := ucast (hd p)\<rparr>)),
              dec_delta = (\<lambda>_. Inl ''bad'')\<rparr>;
       s = \<lparr>ss_view = view_new, ss_resync = []\<rparr>
   in \<exists>s'. session_run dec s [envelope_new KSnapshot [5], envelope_new KSnapshot [3]] = Inr s'
        \<and> view_gen (ss_view s') = 5 \<and> canonical (vw_snap (ss_view s'))"
proof -
  define dec :: "string decoders" where
    "dec = \<lparr>dec_ack = (\<lambda>_. Inr 0), dec_snapshot = (\<lambda>p. Inr (snapshot_default\<lparr>sn_gen := ucast (hd p)\<rparr>)),
              dec_delta = (\<lambda>_. Inl ''bad'')\<rparr>"
  define s where "s = \<lparr>ss_view = view_new, ss_resync = []\<rparr>"
  have "\<exists>s'. session_run dec s [envelope_new KSnapshot [5], envelope_new KSnapshot [3]] = Inr s'
        \<and> view_gen (ss_view s') = 5"
    by (simp add: dec_def s_def session_receive_def envelope_new_def view_install_def Let_def
        view_new_def snapshot_default_def view_gen_def)
  moreover have "canonical (vw_snap (ss_view s))"
    by (simp add: s_def view_new_def snapshot_default_def canonical_def)
  ultimately have "\<exists>s'. session_run dec s [envelope_new KSnapshot [5], envelope_new KSnapshot [3]] = Inr s'
        \<and> view_gen (ss_view s') = 5 \<and> canonical (vw_snap (ss_view s'))"
    using session_view_monotone by blast
  then show ?thesis by (simp add: Let_def dec_def s_def)
qed

text \<open>
  C22. Convergence of a session: a member that holds some snapshot of the coordinator's history and
  receives the deltas of that history, as delta messages its decoder reads back, ends with exactly
  the last snapshot and has asked for no resync.
\<close>

theorem session_converges:
  assumes "\<forall>d \<in> set (consecutive diff history). dec_delta dec (enc d) = Inr d"
    and "sorted_wrt (<) (map sn_gen history)" and "\<forall>x \<in> set history. canonical x"
    and "vw_snap (ss_view s) \<in> set history"
  shows "\<exists>s'. session_run dec s (map (\<lambda>d. delta_env (enc d)) (consecutive diff history)) = Inr s'
    \<and> vw_snap (ss_view s') = last history \<and> ss_resync s' = ss_resync s"
  using assms(1) snap.catch_up [OF assms(2,3,4)] by (rule session_run_deltas)

theorem session_converges_witness:
  "let a = snapshot_default;
       b = a\<lparr>sn_gen := 1, sn_attachments := [\<lparr>ae_node_id = 5, ae_relay_id = 9\<rparr>]\<rparr>;
       c = a\<lparr>sn_gen := 3, sn_attachments := [\<lparr>ae_node_id = 5, ae_relay_id = 8\<rparr>]\<rparr>;
       dec = \<lparr>dec_ack = (\<lambda>_. Inr 0), dec_snapshot = (\<lambda>_. Inl ''no''),
              dec_delta = (\<lambda>p. if p = [1] then Inr (diff a b) else if p = [3] then Inr (diff b c) else Inl ''no'')\<rparr>;
       s = \<lparr>ss_view = \<lparr>vw_snap = b, vw_changed = 0\<rparr>, ss_resync = []\<rparr>
   in \<exists>s'. session_run dec s (map (\<lambda>d. delta_env [ucast (dl_gen d)]) (consecutive diff [a, b, c])) = Inr s'
        \<and> vw_snap (ss_view s') = last [a, b, c] \<and> ss_resync s' = []"
  unfolding Let_def
  by (rule session_converges [where enc = "\<lambda>d. [ucast (dl_gen d)]" and s = "\<lparr>ss_view = _, ss_resync = []\<rparr>",
        unfolded session.simps])
    (simp_all add: canonical_def snapshot_default_def)

text \<open>
  The reconnect loop: a replaced member returns with the reason and never re-joins; otherwise it
  re-joins, at once after a reconfiguration and else after the current delay, and a delay of one to
  five seconds stays one to five seconds.
\<close>

theorem after_session_spec:
  assumes "1 \<le> delay" and "delay \<le> 5"
  shows "(\<forall>x. e = EndStop x \<longrightarrow> after_session e healthy delay stop = Return x)
    \<and> (\<forall>x. stop = Some x \<longrightarrow> (\<exists>y. after_session e healthy delay stop = Return y))
    \<and> (\<forall>sl d. after_session e healthy delay stop = Rejoin sl d \<longrightarrow>
         stop = None \<and> 1 \<le> d \<and> d \<le> 5 \<and> sl = (case e of EndReconfigured _ \<Rightarrow> None | _ \<Rightarrow> Some delay))"
  using assms
  by (cases e; cases stop) (auto simp: after_session_def Let_def)

theorem after_session_spec_witness:
  "after_session EndLost False 4 None = Rejoin (Some 4) 5
   \<and> after_session (close_to_end (Some (7, ''other''))) True 1 None = Return (Replaced ''other'')"
  using after_session_spec [of 4 EndLost False None]
  by (simp add: after_session_def close_to_end_def CLOSE_REPLACED_def)

end
