(* ===== verification/Nq_Leases.thy ===== *)
theory Nq_Leases
  imports Nq_View
begin

text \<open>
  Liveness and attachment leases of the coordinator (\<open>crates/nqvpn-coord/src/leases.rs\<close>): what members
  report in heartbeats, when it expires, and the attachment table derived from it. Timestamps are
  milliseconds; the declaration counter is read as a natural number, since it counts up by one from
  zero in a 64-bit integer.
\<close>

section \<open>State\<close>

record claim =
  cm_session_id :: u64
  cm_seq :: nat

record report =
  rp_gen :: u64
  rp_digest :: u64
  rp_at :: nat

record leases =
  ls_last_seen :: "(node_id, nat) hmap"
  ls_offline_since :: "(node_id, nat) hmap"
  ls_online_since :: "(node_id, nat) hmap"
  ls_declared :: "(node_id, (node_id, claim) hmap) hmap"
  ls_attached_to :: "(node_id, node_id) hmap"
  ls_mesh_up :: "(node_id, node_id list) hmap"
  ls_reported :: "(node_id, report) hmap"
  ls_next_seq :: nat

definition leases_default :: leases where
  "leases_default = \<lparr>ls_last_seen = [], ls_offline_since = [], ls_online_since = [], ls_declared = [],
     ls_attached_to = [], ls_mesh_up = [], ls_reported = [], ls_next_seq = 0\<rparr>"

section \<open>Operations\<close>

definition leases_seen :: "node_id \<Rightarrow> nat \<Rightarrow> leases \<Rightarrow> bool \<times> leases" where
  "leases_seen node now l =
     (let was_online = (map_of (ls_last_seen l) node \<noteq> None);
          l = l\<lparr>ls_last_seen := hm_insert node now (ls_last_seen l)\<rparr>
      in if \<not> was_online
         then (True, l\<lparr>ls_online_since := hm_insert node now (ls_online_since l),
                       ls_offline_since := hm_remove node (ls_offline_since l)\<rparr>)
         else (False, l))"

text \<open>
  One declared client of a relay's heartbeat: \<open>mine\<close> is what the relay declared before, the loop state
  is whether anything changed, the counter and the claims kept.
\<close>

definition declare_client ::
    "(node_id \<Rightarrow> bool) \<Rightarrow> (node_id, claim) hmap \<Rightarrow> attached_client
      \<Rightarrow> bool \<times> nat \<times> (node_id, claim) hmap \<Rightarrow> bool \<times> nat \<times> (node_id, claim) hmap" where
  "declare_client is_client mine a = (\<lambda>(changed, next_seq, keep).
     if \<not> is_client (ac_node_id a) then (changed, next_seq, keep)
     else
       let kept = (case map_of mine (ac_node_id a) of
             Some c \<Rightarrow> if cm_session_id c = ac_session_id a then Some c else None
           | None \<Rightarrow> None)
       in case kept of
            Some c \<Rightarrow> (changed, next_seq, hm_insert (ac_node_id a) c keep)
          | None \<Rightarrow> (True, next_seq + 1,
              hm_insert (ac_node_id a) \<lparr>cm_session_id = ac_session_id a, cm_seq = next_seq + 1\<rparr> keep))"

definition relay_heartbeat_lease ::
    "node_id \<Rightarrow> heartbeat \<Rightarrow> (node_id \<Rightarrow> bool) \<Rightarrow> nat \<Rightarrow> leases \<Rightarrow> bool \<times> leases" where
  "relay_heartbeat_lease node hb is_client max_attached l =
     (let mine = (case map_of (ls_declared l) node of Some m \<Rightarrow> m | None \<Rightarrow> []);
          (changed, next_seq, keep) =
            fold (declare_client is_client mine) (take max_attached (hb_attached hb))
              (False, ls_next_seq l, [])
      in (changed \<or> length keep \<noteq> length mine,
          l\<lparr>ls_next_seq := next_seq, ls_declared := hm_insert node keep (ls_declared l),
            ls_mesh_up := hm_insert node (hb_mesh_up hb) (ls_mesh_up l)\<rparr>))"

definition client_heartbeat_lease :: "node_id \<Rightarrow> heartbeat \<Rightarrow> leases \<Rightarrow> bool \<times> leases" where
  "client_heartbeat_lease node hb l =
     (let before = map_of (ls_attached_to l) node in
      (before \<noteq> hb_attached_to hb,
       l\<lparr>ls_attached_to := (case hb_attached_to hb of
           Some r \<Rightarrow> hm_insert node r (ls_attached_to l)
         | None \<Rightarrow> hm_remove node (ls_attached_to l))\<rparr>))"

definition leases_heartbeat ::
    "node_id \<Rightarrow> role \<Rightarrow> heartbeat \<Rightarrow> nat \<Rightarrow> (node_id \<Rightarrow> bool) \<Rightarrow> nat \<Rightarrow> leases \<Rightarrow> bool \<times> leases" where
  "leases_heartbeat node r hb now is_client max_attached l =
     (let (came_online, l) = leases_seen node now l;
          l = l\<lparr>ls_reported := hm_insert node \<lparr>rp_gen = hb_gen hb, rp_digest = hb_digest hb, rp_at = now\<rparr>
                 (ls_reported l)\<rparr>;
          (changed, l) = (case r of
              Relay \<Rightarrow> relay_heartbeat_lease node hb is_client max_attached l
            | Client \<Rightarrow> client_heartbeat_lease node hb l)
      in (came_online \<or> changed, l))"

definition leases_offline :: "node_id \<Rightarrow> leases \<Rightarrow> leases" where
  "leases_offline node l =
     (let l = (case map_of (ls_last_seen l) node of
           Some t \<Rightarrow> l\<lparr>ls_last_seen := hm_remove node (ls_last_seen l),
                           ls_offline_since := hm_insert node t (ls_offline_since l)\<rparr>
         | None \<Rightarrow> l)
      in l\<lparr>ls_online_since := hm_remove node (ls_online_since l),
           ls_attached_to := hm_remove node (ls_attached_to l),
           ls_mesh_up := hm_remove node (ls_mesh_up l)\<rparr>)"

text \<open>\<open>now.saturating_sub(last)\<close> is subtraction on natural numbers.\<close>

definition leases_expire :: "nat \<Rightarrow> nat \<Rightarrow> leases \<Rightarrow> node_id list \<times> leases" where
  "leases_expire now window l =
     (let gone = map fst (filter (\<lambda>(n, t). now - t > window) (ls_last_seen l))
      in (gone, fold leases_offline gone l))"

definition leases_remove :: "node_id \<Rightarrow> leases \<Rightarrow> leases" where
  "leases_remove node l =
     (let l = leases_offline node l in
      l\<lparr>ls_offline_since := hm_remove node (ls_offline_since l),
        ls_reported := hm_remove node (ls_reported l),
        ls_declared := map (\<lambda>(r, claims). (r, hm_remove node claims)) (ls_declared l)\<rparr>)"

definition leases_remove_relay :: "node_id \<Rightarrow> leases \<Rightarrow> leases" where
  "leases_remove_relay relay l =
     leases_remove relay (l\<lparr>ls_declared := hm_remove relay (ls_declared l)\<rparr>)"

section \<open>Queries\<close>

definition leases_is_online :: "leases \<Rightarrow> node_id \<Rightarrow> bool" where
  "leases_is_online l node \<longleftrightarrow> map_of (ls_last_seen l) node \<noteq> None"

definition leases_online_since :: "leases \<Rightarrow> node_id \<Rightarrow> nat option" where
  "leases_online_since l node = map_of (ls_online_since l) node"

definition leases_last_seen :: "leases \<Rightarrow> node_id \<Rightarrow> nat option" where
  "leases_last_seen l node = map_of (ls_last_seen l) node"

definition leases_offline_since :: "leases \<Rightarrow> node_id \<Rightarrow> nat option" where
  "leases_offline_since l node = map_of (ls_offline_since l) node"

definition leases_online_nodes :: "leases \<Rightarrow> node_id list" where
  "leases_online_nodes l = map fst (ls_last_seen l)"

definition consider_claim ::
    "(node_id, node_id) hmap \<Rightarrow> node_id \<Rightarrow> node_id \<times> claim \<Rightarrow> (node_id, nat \<times> node_id) btree
      \<Rightarrow> (node_id, nat \<times> node_id) btree" where
  "consider_claim attached relay = (\<lambda>(client, c) best.
     if (case map_of attached client of Some r \<Rightarrow> r \<noteq> relay | None \<Rightarrow> False) then best
     else case map_of best client of
       Some (seq, _) \<Rightarrow> if seq > cm_seq c then best else bt_insert client (cm_seq c, relay) best
     | None \<Rightarrow> bt_insert client (cm_seq c, relay) best)"

definition leases_attachments :: "leases \<Rightarrow> (node_id, node_id) btree" where
  "leases_attachments l =
     (let best = fold (\<lambda>(relay, claims) best. fold (consider_claim (ls_attached_to l) relay) claims best)
            (ls_declared l) []
      in map (\<lambda>(c, _, r). (c, r)) best)"

definition leases_claims :: "leases \<Rightarrow> (node_id \<times> node_id \<times> u64 \<times> nat) list" where
  "leases_claims l =
     sort (concat (map (\<lambda>(r, m). map (\<lambda>(c, cl). (r, c, cm_session_id cl, cm_seq cl)) m) (ls_declared l)))"

definition declared_by :: "leases \<Rightarrow> node_id \<Rightarrow> node_id list" where
  "declared_by l relay = (case map_of (ls_declared l) relay of Some m \<Rightarrow> map fst m | None \<Rightarrow> [])"

definition leases_attached_to :: "leases \<Rightarrow> node_id \<Rightarrow> node_id option" where
  "leases_attached_to l client = map_of (ls_attached_to l) client"

definition leases_mesh_up :: "leases \<Rightarrow> node_id \<Rightarrow> node_id list" where
  "leases_mesh_up l relay = (case map_of (ls_mesh_up l) relay of Some v \<Rightarrow> v | None \<Rightarrow> [])"

definition leases_report :: "leases \<Rightarrow> node_id \<Rightarrow> report option" where
  "leases_report l node = map_of (ls_reported l) node"

section \<open>The attachment table\<close>

text \<open>The claim of one relay on one client, and whether the client's own report leaves it standing.\<close>

definition claim_of :: "leases \<Rightarrow> node_id \<Rightarrow> node_id \<Rightarrow> claim option" where
  "claim_of l r c = Option.bind (map_of (ls_declared l) r) (\<lambda>m. map_of m c)"

definition stands :: "leases \<Rightarrow> node_id \<Rightarrow> node_id \<Rightarrow> bool" where
  "stands l r c \<longleftrightarrow> (case map_of (ls_attached_to l) c of Some r' \<Rightarrow> r' = r | None \<Rightarrow> True)"

definition leases_wf :: "leases \<Rightarrow> bool" where
  "leases_wf l \<longleftrightarrow> hm_wf (ls_declared l) \<and> (\<forall>(r, m) \<in> set (ls_declared l). hm_wf m)
     \<and> (\<forall>r c cl. claim_of l r c = Some cl \<longrightarrow> cm_seq cl \<le> ls_next_seq l)
     \<and> (\<forall>r r' c cl cl'. claim_of l r c = Some cl \<longrightarrow> claim_of l r' c = Some cl'
          \<longrightarrow> cm_seq cl = cm_seq cl' \<longrightarrow> r = r')"

text \<open>All claims in the order the two loops visit them.\<close>

definition visited :: "leases \<Rightarrow> (node_id \<times> node_id \<times> claim) list" where
  "visited l = concat (map (\<lambda>(r, m). map (Pair r) m) (ls_declared l))"

lemma attachments_visited:
  "leases_attachments l = map (\<lambda>(c, _, r). (c, r))
     (fold (\<lambda>(r, e). consider_claim (ls_attached_to l) r e) (visited l) [])"
proof -
  have inner: "fold (\<lambda>(r, e). consider_claim at r e) (map (Pair r) m) best
      = fold (consider_claim at r) m best" for at r m best
    by (induction m arbitrary: best) auto
  have "fold (\<lambda>(relay, claims) best. fold (consider_claim at relay) claims best) d best
      = fold (\<lambda>(r, e). consider_claim at r e) (concat (map (\<lambda>(r, m). map (Pair r) m) d)) best"
    for at d best
    by (induction d arbitrary: best) (auto simp: inner fold_append)
  then show ?thesis by (simp add: leases_attachments_def visited_def Let_def)
qed

lemma visited_claim: "leases_wf l \<Longrightarrow> (r, c, cl) \<in> set (visited l) \<longleftrightarrow> claim_of l r c = Some cl"
  by (fastforce simp: visited_def claim_of_def leases_wf_def bind_eq_Some_conv
      map_of_eq_Some_iff intro: map_of_is_SomeI)

abbreviation standing :: "(node_id, node_id) hmap \<Rightarrow> node_id \<Rightarrow> node_id \<Rightarrow> bool" where
  "standing at r c \<equiv> \<not> (case map_of at c of Some r' \<Rightarrow> r' \<noteq> r | None \<Rightarrow> False)"

text \<open>What the loop holds for one client: nothing, or the standing claim with the largest number.\<close>

definition best_for ::
    "(node_id, node_id) hmap \<Rightarrow> (node_id \<times> node_id \<times> claim) list \<Rightarrow> node_id \<Rightarrow> (nat \<times> node_id) option \<Rightarrow> bool" where
  "best_for at vs c b =
     (case b of
        None \<Rightarrow> \<forall>r cl. (r, c, cl) \<in> set vs \<longrightarrow> \<not> standing at r c
      | Some (q, r) \<Rightarrow> (\<exists>cl. (r, c, cl) \<in> set vs \<and> standing at r c \<and> cm_seq cl = q)
          \<and> (\<forall>r' cl'. (r', c, cl') \<in> set vs \<longrightarrow> standing at r' c \<longrightarrow> cm_seq cl' \<le> q))"

lemma best_for_fold:
  "best_for at vs c (map_of (fold (\<lambda>(r, e). consider_claim at r e) vs []) c)"
proof (induction vs rule: rev_induct)
  case Nil
  then show ?case by (simp add: best_for_def)
next
  case (snoc v vs)
  obtain r c' cl where v: "v = (r, c', cl)" by (cases v)
  define b where "b = fold (\<lambda>(r, e). consider_claim at r e) vs []"
  have IH: "best_for at vs c (map_of b c)" using snoc by (simp add: b_def)
  have "best_for at (vs @ [v]) c (map_of (consider_claim at r (c', cl) b) c)"
  proof (cases "c' = c \<and> standing at r c")
    case True
    then have m: "map_of (consider_claim at r (c', cl) b) c =
        (case map_of b c of Some (q, r0) \<Rightarrow> if q > cm_seq cl then Some (q, r0) else Some (cm_seq cl, r)
         | None \<Rightarrow> Some (cm_seq cl, r))"
      by (auto simp: consider_claim_def split: option.splits)
    show ?thesis
    proof (cases "map_of b c")
      case None
      with IH True show ?thesis unfolding m by (auto simp: v best_for_def)
    next
      case (Some p)
      with IH True show ?thesis unfolding m
        by (cases p) (auto simp: v best_for_def not_less intro: le_trans less_imp_le)
    qed
  next
    case False
    then have "map_of (consider_claim at r (c', cl) b) c = map_of b c"
      by (auto simp: consider_claim_def split: option.splits)
    with IH False show ?thesis
      by (cases "map_of b c") (auto simp: v best_for_def)
  qed
  then show ?case by (simp add: v b_def)
qed

lemma bt_wf_fold_consider:
  "bt_wf best \<Longrightarrow> bt_wf (fold (\<lambda>(r, e). consider_claim at r e) vs best)"
proof (induction vs arbitrary: best)
  case (Cons v vs)
  then have "bt_wf ((case v of (r, e) \<Rightarrow> consider_claim at r e) best)"
    by (auto simp: consider_claim_def split: prod.split option.split)
  with Cons show ?case by simp
qed simp

lemma bt_wf_attachments: "bt_wf (leases_attachments l)"
  using bt_wf_fold_consider [of "[]" "ls_attached_to l" "visited l"]
  by (simp add: attachments_visited comp_def split_beta)

lemma map_of_attachments:
  "map_of (leases_attachments l) c =
     map_option snd (map_of (fold (\<lambda>(r, e). consider_claim (ls_attached_to l) r e) (visited l) []) c)"
proof -
  have "map_of (map (\<lambda>(c, _, r). (c, r)) b) c = map_option snd (map_of b c)"
    for b :: "(node_id \<times> nat \<times> node_id) list"
    by (induction b) auto
  then show ?thesis by (simp add: attachments_visited)
qed

lemma standing_stands: "standing (ls_attached_to l) r c \<longleftrightarrow> stands l r c"
  by (auto simp: stands_def split: option.splits)

text \<open>The table, as the claims determine it.\<close>

lemma attachments_Some_iff:
  assumes wf: "leases_wf l"
  shows "map_of (leases_attachments l) c = Some r \<longleftrightarrow>
    (\<exists>cl. claim_of l r c = Some cl \<and> stands l r c
      \<and> (\<forall>r' cl'. claim_of l r' c = Some cl' \<longrightarrow> stands l r' c \<longrightarrow> cm_seq cl' \<le> cm_seq cl))"
    (is "?L \<longleftrightarrow> ?R")
proof -
  let ?b = "map_of (fold (\<lambda>(r, e). consider_claim (ls_attached_to l) r e) (visited l) []) c"
  have b: "best_for (ls_attached_to l) (visited l) c ?b" by (rule best_for_fold)
  have L: "?L \<longleftrightarrow> (\<exists>q. ?b = Some (q, r))" by (auto simp: map_of_attachments)
  show ?thesis
  proof
    assume ?L
    with L b show ?R
      by (auto simp: best_for_def visited_claim [OF wf] standing_stands)
  next
    assume ?R
    then obtain cl where cl: "claim_of l r c = Some cl" "stands l r c"
      "\<forall>r' cl'. claim_of l r' c = Some cl' \<longrightarrow> stands l r' c \<longrightarrow> cm_seq cl' \<le> cm_seq cl" by blast
    with b obtain q r' where q: "?b = Some (q, r')"
      by (cases ?b) (auto simp: best_for_def visited_claim [OF wf] standing_stands)
    with b obtain cl' where cl': "claim_of l r' c = Some cl'" "stands l r' c" "cm_seq cl' = q"
      and ge: "cm_seq cl \<le> q"
      using cl(1,2) by (auto simp: best_for_def visited_claim [OF wf] standing_stands)
    with cl(3) have "cm_seq cl' = cm_seq cl" by (metis le_antisym)
    with wf cl(1) cl'(1) have "r' = r" unfolding leases_wf_def by metis
    with q L show ?L by blast
  qed
qed

lemma attachments_None_iff:
  assumes wf: "leases_wf l"
  shows "map_of (leases_attachments l) c = None \<longleftrightarrow> (\<forall>r cl. claim_of l r c = Some cl \<longrightarrow> \<not> stands l r c)"
  using best_for_fold [of "ls_attached_to l" "visited l" c]
  by (auto simp: map_of_attachments best_for_def visited_claim [OF wf] standing_stands split: option.splits)

section \<open>A relay's declaration\<close>

definition declare_inv ::
    "(node_id, claim) hmap \<Rightarrow> nat \<Rightarrow> bool \<times> nat \<times> (node_id, claim) hmap \<Rightarrow> bool" where
  "declare_inv mine q0 = (\<lambda>(changed, q, keep). q0 \<le> q \<and> hm_wf keep
     \<and> (\<forall>c cl. map_of keep c = Some cl \<longrightarrow> map_of mine c = Some cl \<or> (q0 < cm_seq cl \<and> cm_seq cl \<le> q))
     \<and> (\<not> changed \<longrightarrow> (\<forall>c cl. map_of keep c = Some cl \<longrightarrow> map_of mine c = Some cl)))"

lemma declare_inv_step:
  "declare_inv mine q0 st \<Longrightarrow> declare_inv mine q0 (declare_client is_client mine a st)"
  by (cases st)
    (auto simp: declare_inv_def declare_client_def Let_def simp del: map_of_eq_Some_iff
      split: option.splits if_splits intro: le_SucI)

lemma declare_inv_fold:
  "declare_inv mine q0 (fold (declare_client is_client mine) as (False, q0, []))"
proof (rule fold_invariant [where Q = "\<lambda>_. True"])
  show "declare_inv mine q0 (False, q0, [])" by (simp add: declare_inv_def)
qed (rule TrueI, rule declare_inv_step)

text \<open>A client declared under a session id the relay did not declare before gets a fresh number.\<close>

lemma declare_new:
  assumes "\<And>a cl. a \<in> set as \<Longrightarrow> ac_node_id a = c \<Longrightarrow> map_of mine c = Some cl \<Longrightarrow> cm_session_id cl \<noteq> ac_session_id a"
    and "is_client c" and "a \<in> set as" and "ac_node_id a = c"
  shows "\<exists>cl. map_of (snd (snd (fold (declare_client is_client mine) as (False, q0, [])))) c = Some cl
    \<and> q0 < cm_seq cl"
  using assms(1,3,4)
proof (induction as rule: rev_induct)
  case (snoc x xs)
  let ?st = "fold (declare_client is_client mine) xs (False, q0, [])"
  obtain ch q keep where st: "?st = (ch, q, keep)" by (rule prod_cases3)
  have q: "q0 \<le> q" using declare_inv_fold [of mine q0 is_client xs] by (simp add: st declare_inv_def)
  have "\<exists>cl. map_of (snd (snd (declare_client is_client mine x (ch, q, keep)))) c = Some cl \<and> q0 < cm_seq cl"
  proof (cases "ac_node_id x = c")
    case True
    with snoc.prems(1) [of x] q assms(2) show ?thesis
      by (auto simp: declare_client_def Let_def split: option.splits)
  next
    case False
    with snoc.prems have "a \<in> set xs" by auto
    with snoc.IH snoc.prems obtain cl where "map_of keep c = Some cl" "q0 < cm_seq cl"
      by (auto simp: st)
    with False show ?thesis
      by (auto simp: declare_client_def Let_def split: option.splits if_splits)
  qed
  then show ?case by (simp add: st)
qed simp

lemma same_size_same_map:
  assumes "hm_wf keep" and "hm_wf mine" and "length keep = length mine"
    and "\<And>c cl. map_of keep c = Some cl \<Longrightarrow> map_of mine c = Some cl"
  shows "map_of keep = map_of mine"
proof -
  have "card (fst ` set keep) = card (fst ` set mine)"
    using assms(1,2,3) by (metis distinct_card length_map set_map)
  moreover have "fst ` set keep \<subseteq> fst ` set mine"
    using assms(4) by (metis (no_types, lifting) domD domI dom_map_of_conv_image_fst subsetI)
  ultimately have "dom (map_of keep) = dom (map_of mine)"
    by (simp add: dom_map_of_conv_image_fst card_subset_eq)
  then show ?thesis
    using assms(4) by (intro ext) (metis domD domI domIff option.exhaust)
qed

lemma claim_of_relay_heartbeat:
  assumes "relay_heartbeat_lease node hb is_client n l = (ch, l')"
  shows "claim_of l' r c = (if r = node
    then map_of (snd (snd (fold (declare_client is_client (case map_of (ls_declared l) node of Some m \<Rightarrow> m | None \<Rightarrow> []))
           (take n (hb_attached hb)) (False, ls_next_seq l, [])))) c
    else claim_of l r c)"
  using assms by (auto simp: relay_heartbeat_lease_def claim_of_def Let_def split_beta)

lemma leases_wf_relay_heartbeat:
  assumes wf: "leases_wf l" and hb: "relay_heartbeat_lease node hb is_client n l = (ch, l')"
  shows "leases_wf l'"
proof -
  define mine where "mine = (case map_of (ls_declared l) node of Some m \<Rightarrow> m | None \<Rightarrow> [])"
  obtain ch' q keep where st: "fold (declare_client is_client mine) (take n (hb_attached hb)) (False, ls_next_seq l, [])
      = (ch', q, keep)" by (rule prod_cases3)
  have inv: "declare_inv mine (ls_next_seq l) (ch', q, keep)" by (metis declare_inv_fold st)
  have mine: "map_of mine c = claim_of l node c" for c
    by (simp add: mine_def claim_of_def split: option.split)
  have claims: "claim_of l' r c = (if r = node then map_of keep c else claim_of l r c)" for r c
    using claim_of_relay_heartbeat [OF hb, of r c, folded mine_def] by (simp add: st)
  have l': "ls_declared l' = hm_insert node keep (ls_declared l)" "ls_next_seq l' = q"
    using hb by (auto simp: relay_heartbeat_lease_def st Let_def simp flip: mine_def)
  have "\<forall>(r, m) \<in> set (ls_declared l'). hm_wf m"
  proof -
    have "set (hm_insert node keep d) \<subseteq> insert (node, keep) (set d)" for d :: "(node_id \<times> (node_id \<times> claim) list) list"
      by (induction d) auto
    then show ?thesis using wf inv unfolding l' by (fastforce simp: leases_wf_def declare_inv_def)
  qed
  moreover have "hm_wf (ls_declared l')" using wf by (simp add: l' leases_wf_def)
  moreover have "cm_seq cl \<le> q" if "claim_of l' r c = Some cl" for r c cl
    using that wf inv by (fastforce simp: claims declare_inv_def leases_wf_def mine split: if_splits)
  moreover have "r = r'" if "claim_of l' r c = Some cl" "claim_of l' r' c = Some cl'" "cm_seq cl = cm_seq cl'" for r r' c cl cl'
    using that wf inv unfolding claims declare_inv_def leases_wf_def mine prod.case
    by (metis leD)
  ultimately show ?thesis by (simp add: leases_wf_def l'(2))
qed

section \<open>Every operation keeps the leases well-formed\<close>

lemma leases_wf_cong:
  assumes "leases_wf l" and "ls_declared l' = ls_declared l" and "ls_next_seq l' = ls_next_seq l"
  shows "leases_wf l'"
  using assms by (simp add: leases_wf_def claim_of_def)

lemma declared_seen [simp]:
  "ls_declared (snd (leases_seen n now l)) = ls_declared l"
  "ls_next_seq (snd (leases_seen n now l)) = ls_next_seq l"
  "ls_attached_to (snd (leases_seen n now l)) = ls_attached_to l"
  by (simp_all add: leases_seen_def Let_def)

lemma declared_offline [simp]:
  "ls_declared (leases_offline n l) = ls_declared l"
  "ls_next_seq (leases_offline n l) = ls_next_seq l"
  by (simp_all add: leases_offline_def Let_def split: option.split)

lemma attached_offline [simp]:
  "map_of (ls_attached_to (leases_offline n l)) = (map_of (ls_attached_to l))(n := None)"
  by (simp add: leases_offline_def Let_def split: option.split)

lemma declared_offlines [simp]:
  "ls_declared (fold leases_offline ns l) = ls_declared l"
  "ls_next_seq (fold leases_offline ns l) = ls_next_seq l"
  by (induction ns arbitrary: l) simp_all

lemma declared_client_heartbeat [simp]:
  "ls_declared (snd (client_heartbeat_lease n hb l)) = ls_declared l"
  "ls_next_seq (snd (client_heartbeat_lease n hb l)) = ls_next_seq l"
  by (simp_all add: client_heartbeat_lease_def Let_def)

lemma claim_of_remove:
  "claim_of (leases_remove n l) r c = (if c = n then None else claim_of l r c)"
proof -
  have "map_of (map (\<lambda>(r, claims). (r, hm_remove n claims)) d) r = map_option (hm_remove n) (map_of d r)"
    for d :: "(node_id \<times> (node_id \<times> claim) list) list"
    by (induction d) auto
  then show ?thesis
    by (cases "map_of (ls_declared l) r") (simp_all add: leases_remove_def claim_of_def Let_def)
qed

lemma leases_wf_remove: "leases_wf l \<Longrightarrow> leases_wf (leases_remove n l)"
proof -
  assume wf: "leases_wf l"
  have "ls_declared (leases_remove n l) = map (\<lambda>(r, claims). (r, hm_remove n claims)) (ls_declared l)"
    "ls_next_seq (leases_remove n l) = ls_next_seq l"
    by (simp_all add: leases_remove_def Let_def)
  moreover have "fst \<circ> (\<lambda>(r :: node_id, claims :: (node_id, claim) hmap). (r, hm_remove n claims)) = fst"
    by (simp add: fun_eq_iff split_beta)
  ultimately show ?thesis
    using wf unfolding leases_wf_def by (auto simp: claim_of_remove)
qed

lemma leases_wf_remove_relay: "leases_wf l \<Longrightarrow> leases_wf (leases_remove_relay r l)"
proof -
  assume wf: "leases_wf l"
  have "claim_of (l\<lparr>ls_declared := hm_remove r (ls_declared l)\<rparr>) x c = (if x = r then None else claim_of l x c)" for x c
    by (simp add: claim_of_def)
  moreover have "set (hm_remove r (ls_declared l)) \<subseteq> set (ls_declared l)"
    by (auto simp: AList.delete_eq)
  ultimately have "leases_wf (l\<lparr>ls_declared := hm_remove r (ls_declared l)\<rparr>)"
    using wf unfolding leases_wf_def by auto
  then show ?thesis by (simp add: leases_remove_relay_def leases_wf_remove)
qed

lemma leases_wf_heartbeat:
  assumes "leases_wf l"
  shows "leases_wf (snd (leases_heartbeat node r hb now is_client n l))"
proof -
  define l1 where "l1 = (snd (leases_seen node now l))\<lparr>ls_reported := hm_insert node
    \<lparr>rp_gen = hb_gen hb, rp_digest = hb_digest hb, rp_at = now\<rparr> (ls_reported (snd (leases_seen node now l)))\<rparr>"
  have 1: "leases_wf l1" by (rule leases_wf_cong [OF assms]) (simp_all add: l1_def)
  have eq: "snd (leases_heartbeat node r hb now is_client n l) =
      snd (case r of Relay \<Rightarrow> relay_heartbeat_lease node hb is_client n l1 | Client \<Rightarrow> client_heartbeat_lease node hb l1)"
    by (cases r) (simp_all add: leases_heartbeat_def l1_def split_beta Let_def)
  show ?thesis
  proof (cases r)
    case Client
    then show ?thesis unfolding eq by (simp add: leases_wf_cong [OF 1])
  next
    case Relay
    then show ?thesis unfolding eq using leases_wf_relay_heartbeat [OF 1] by (metis prod.collapse role.simps(4))
  qed
qed

text \<open>The states the coordinator's calls lead to.\<close>

inductive leases_reach :: "leases \<Rightarrow> bool" where
  start: "leases_reach leases_default"
| seen: "leases_reach l \<Longrightarrow> leases_reach (snd (leases_seen node now l))"
| beat: "leases_reach l \<Longrightarrow> leases_reach (snd (leases_heartbeat node r hb now is_client n l))"
| expire: "leases_reach l \<Longrightarrow> leases_reach (snd (leases_expire now window l))"
| offline: "leases_reach l \<Longrightarrow> leases_reach (leases_offline node l)"
| remove: "leases_reach l \<Longrightarrow> leases_reach (leases_remove node l)"
| remove_relay: "leases_reach l \<Longrightarrow> leases_reach (leases_remove_relay node l)"

lemma leases_reach_wf: "leases_reach l \<Longrightarrow> leases_wf l"
proof (induction rule: leases_reach.induct)
  case start
  then show ?case by (simp add: leases_wf_def leases_default_def claim_of_def)
next
  case (expire l now window)
  then show ?case by (auto intro: leases_wf_cong simp: leases_expire_def Let_def)
qed (auto intro: leases_wf_cong leases_wf_heartbeat leases_wf_remove leases_wf_remove_relay)

lemma last_seen_heartbeat:
  "ls_last_seen (snd (leases_heartbeat node r hb now is_client n l)) = hm_insert node now (ls_last_seen l)"
  by (cases r)
    (simp_all add: leases_heartbeat_def relay_heartbeat_lease_def client_heartbeat_lease_def leases_seen_def
      split_beta Let_def)

lemma leases_reach_seen_wf: "leases_reach l \<Longrightarrow> hm_wf (ls_last_seen l)"
proof (induction rule: leases_reach.induct)
  case (beat l node r hb now is_client n)
  then show ?case by (simp add: last_seen_heartbeat)
next
  case (expire l now window)
  have "hm_wf (ls_last_seen (fold leases_offline ns l))" if "hm_wf (ls_last_seen l)" for ns l
    using that by (induction ns arbitrary: l) (auto simp: leases_offline_def Let_def split: option.split)
  with expire show ?case by (simp add: leases_expire_def Let_def)
qed (auto simp: leases_default_def leases_seen_def leases_offline_def leases_remove_def
    leases_remove_relay_def Let_def split: option.split)

lemma heartbeat_unchanged_claims:
  assumes wf: "leases_wf l" and hb: "relay_heartbeat_lease node hb is_client n l = (False, l')"
  shows "claim_of l' = claim_of l"
proof -
  define mine where "mine = (case map_of (ls_declared l) node of Some m \<Rightarrow> m | None \<Rightarrow> [])"
  obtain ch q keep where st: "fold (declare_client is_client mine) (take n (hb_attached hb)) (False, ls_next_seq l, [])
      = (ch, q, keep)" by (rule prod_cases3)
  have inv: "declare_inv mine (ls_next_seq l) (ch, q, keep)" by (metis declare_inv_fold st)
  have "\<not> ch" "length keep = length mine"
    using hb by (auto simp: relay_heartbeat_lease_def st Let_def simp flip: mine_def)
  moreover have "hm_wf mine"
    using wf by (auto simp: mine_def leases_wf_def split: option.split dest!: map_of_SomeD)
  ultimately have "map_of keep = map_of mine"
    using inv by (intro same_size_same_map) (auto simp: declare_inv_def)
  moreover have "map_of mine = claim_of l node"
    by (simp add: mine_def claim_of_def fun_eq_iff split: option.split)
  ultimately show ?thesis
    using claim_of_relay_heartbeat [OF hb, folded mine_def] by (simp add: st fun_eq_iff)
qed

lemma attachments_cong:
  assumes "leases_wf l" and "leases_wf l'" and "claim_of l = claim_of l'"
    and "map_of (ls_attached_to l) = map_of (ls_attached_to l')"
  shows "leases_attachments l = leases_attachments l'"
proof (rule bt_ext [OF bt_wf_attachments bt_wf_attachments])
  have "stands l = stands l'" using assms(4) by (simp add: fun_eq_iff stands_def)
  then have "map_of (leases_attachments l) c = Some r \<longleftrightarrow> map_of (leases_attachments l') c = Some r" for c r
    by (simp add: attachments_Some_iff [OF assms(1)] attachments_Some_iff [OF assms(2)] assms(3))
  then show "map_of (leases_attachments l) = map_of (leases_attachments l')"
    by (metis ext not_Some_eq)
qed

lemma attached_offlines:
  "map_of (ls_attached_to (fold leases_offline ns l)) c = (if c \<in> set ns then None else map_of (ls_attached_to l) c)"
  by (induction ns arbitrary: l) auto

section \<open>Properties\<close>

text \<open>
  C18. The attachment table: in every state the coordinator can reach, a client is attached to a relay
  if and only if that relay declares it, the client's own report does not name another relay, and no
  other such declaration is more recent. The table is therefore the same whatever order the hash maps
  are visited in.
\<close>

theorem attachments_most_recent:
  assumes "leases_reach l"
  shows "map_of (leases_attachments l) c = Some r \<longleftrightarrow>
    (\<exists>cl. claim_of l r c = Some cl \<and> stands l r c
      \<and> (\<forall>r' cl'. claim_of l r' c = Some cl' \<longrightarrow> stands l r' c \<longrightarrow> cm_seq cl' \<le> cm_seq cl))"
  using leases_reach_wf [OF assms] by (rule attachments_Some_iff)

theorem attachments_most_recent_witness:
  "let hb = (\<lambda>s. \<lparr>hb_gen = 0, hb_digest = 0, hb_attached = [\<lparr>ac_node_id = 5, ac_session_id = s\<rparr>], hb_mesh_up = [],
                  hb_attached_to = None, hb_usable_mtu = 0, hb_traffic = None\<rparr>);
       l = snd (leases_heartbeat 2 Relay (hb 7) 11 (\<lambda>_. True) 9
             (snd (leases_heartbeat 1 Relay (hb 4) 10 (\<lambda>_. True) 9 leases_default)))
   in leases_attachments l = [(5, 2)] \<and> (\<exists>cl. claim_of l 2 5 = Some cl \<and> cm_seq cl = 2)"
proof -
  define hb where "hb = (\<lambda>s. \<lparr>hb_gen = 0, hb_digest = 0, hb_attached = [\<lparr>ac_node_id = 5, ac_session_id = s\<rparr>], hb_mesh_up = [],
                  hb_attached_to = None, hb_usable_mtu = 0, hb_traffic = None\<rparr>)"
  define l where "l = snd (leases_heartbeat 2 Relay (hb 7) 11 (\<lambda>_. True) 9
             (snd (leases_heartbeat 1 Relay (hb 4) 10 (\<lambda>_. True) 9 leases_default)))"
  have r: "leases_reach l" unfolding l_def by (intro leases_reach.intros)
  have a: "leases_attachments l = [(5, 2)]"
    by (simp add: l_def hb_def leases_heartbeat_def leases_seen_def relay_heartbeat_lease_def declare_client_def
        leases_default_def leases_attachments_def consider_claim_def)
  have "claim_of l 2 5 = Some \<lparr>cm_session_id = 7, cm_seq = 2\<rparr>"
    by (simp add: l_def hb_def leases_heartbeat_def leases_seen_def relay_heartbeat_lease_def declare_client_def
        leases_default_def claim_of_def)
  moreover have "map_of (leases_attachments l) 5 = Some 2" by (simp add: a)
  ultimately have "\<exists>cl. claim_of l 2 5 = Some cl \<and> cm_seq cl = 2"
    using attachments_most_recent [OF r, of 5 2] by auto
  with a show ?thesis by (simp add: hb_def l_def)
qed

text \<open>
  A move takes effect at once: when a relay's heartbeat declares a client under a session it did
  not declare before, and the client does not report another relay, the table lists the client at that
  relay, whoever else still claims it.
\<close>

theorem new_declaration_wins:
  assumes "leases_reach l" and "a \<in> set (take n (hb_attached hb))" and "ac_node_id a = c" and "is_client c"
    and "\<forall>a' \<in> set (take n (hb_attached hb)). ac_node_id a' = c \<longrightarrow>
           (\<forall>cl. claim_of l node c = Some cl \<longrightarrow> cm_session_id cl \<noteq> ac_session_id a')"
    and "map_of (ls_attached_to l) c = None \<or> map_of (ls_attached_to l) c = Some node"
  shows "map_of (leases_attachments (snd (leases_heartbeat node Relay hb now is_client n l))) c = Some node"
proof -
  define l1 where "l1 = (snd (leases_seen node now l))\<lparr>ls_reported := hm_insert node
    \<lparr>rp_gen = hb_gen hb, rp_digest = hb_digest hb, rp_at = now\<rparr> (ls_reported (snd (leases_seen node now l)))\<rparr>"
  obtain ch l' where hb: "relay_heartbeat_lease node hb is_client n l1 = (ch, l')" by (rule prod.exhaust)
  have l': "snd (leases_heartbeat node Relay hb now is_client n l) = l'"
    using hb by (simp add: leases_heartbeat_def l1_def split_beta Let_def)
  have same: "claim_of l1 = claim_of l" "ls_next_seq l1 = ls_next_seq l" "ls_attached_to l1 = ls_attached_to l"
    by (simp_all add: l1_def claim_of_def fun_eq_iff)
  have wf: "leases_wf l1" "leases_wf l"
    using leases_reach_wf [OF assms(1)] by (auto intro: leases_wf_cong simp: l1_def)
  let ?mine = "case map_of (ls_declared l1) node of Some m \<Rightarrow> m | None \<Rightarrow> []"
  have mine: "map_of ?mine c = claim_of l node c"
    by (simp add: claim_of_def same(1) [symmetric] split: option.split)
  obtain cl where cl: "claim_of l' node c = Some cl" "ls_next_seq l < cm_seq cl"
    using declare_new [of "take n (hb_attached hb)" c ?mine is_client a "ls_next_seq l1"] assms(2-5)
    unfolding mine claim_of_relay_heartbeat [OF hb] same(2) by auto
  have "cm_seq cl' \<le> cm_seq cl" if "claim_of l' r' c = Some cl'" for r' cl'
  proof (cases "r' = node")
    case False
    then have "claim_of l r' c = Some cl'" using that claim_of_relay_heartbeat [OF hb, of r' c] by (simp add: same)
    with wf(2) have "cm_seq cl' \<le> ls_next_seq l" unfolding leases_wf_def by metis
    with cl(2) show ?thesis by simp
  qed (use cl that in simp)
  moreover have "ls_attached_to l' = ls_attached_to l"
    using hb by (auto simp: relay_heartbeat_lease_def same Let_def split_beta)
  then have "stands l' node c" using assms(6) by (auto simp: stands_def)
  ultimately show ?thesis
    using cl(1) by (auto simp: l' attachments_Some_iff [OF leases_wf_relay_heartbeat [OF wf(1) hb]])
qed

theorem new_declaration_wins_witness:
  "let hb = (\<lambda>s. \<lparr>hb_gen = 0, hb_digest = 0, hb_attached = [\<lparr>ac_node_id = 5, ac_session_id = s\<rparr>], hb_mesh_up = [],
                  hb_attached_to = None, hb_usable_mtu = 0, hb_traffic = None\<rparr>)
   in map_of (leases_attachments (snd (leases_heartbeat 2 Relay (hb 7) 11 (\<lambda>_. True) 9
        (snd (leases_heartbeat 1 Relay (hb 4) 10 (\<lambda>_. True) 9 leases_default))))) 5 = Some 2"
  unfolding Let_def
  by (rule new_declaration_wins [OF leases_reach.beat [OF leases_reach.start],
        where a = "\<lparr>ac_node_id = 5, ac_session_id = 7\<rparr>"])
    (auto simp: claim_of_def leases_heartbeat_def leases_seen_def relay_heartbeat_lease_def
      declare_client_def leases_default_def)

text \<open>
  C22. A heartbeat that reports no change changed nothing that is published: when \<open>heartbeat\<close> returns
  false, the attachment table is the same as before and the same members are online.
\<close>

theorem quiet_heartbeat:
  assumes "leases_reach l" and "leases_heartbeat node r hb now is_client n l = (False, l')"
  shows "leases_attachments l' = leases_attachments l
    \<and> (\<forall>m. leases_is_online l' m = leases_is_online l m)"
proof -
  define l1 where "l1 = (snd (leases_seen node now l))\<lparr>ls_reported := hm_insert node
    \<lparr>rp_gen = hb_gen hb, rp_digest = hb_digest hb, rp_at = now\<rparr> (ls_reported (snd (leases_seen node now l)))\<rparr>"
  have wf: "leases_wf l1" "leases_wf l" "leases_wf l'"
    using leases_reach_wf [OF assms(1)] leases_wf_heartbeat [of l node r hb now is_client n] assms(2)
    by (auto intro: leases_wf_cong simp: l1_def)
  have same: "claim_of l1 = claim_of l" "ls_attached_to l1 = ls_attached_to l"
    by (simp_all add: l1_def claim_of_def fun_eq_iff)
  have came: "\<not> fst (leases_seen node now l)" and
    step: "(case r of Relay \<Rightarrow> relay_heartbeat_lease node hb is_client n l1 | Client \<Rightarrow> client_heartbeat_lease node hb l1)
      = (False, l')"
    using assms(2) by (cases r; simp add: leases_heartbeat_def l1_def split_beta Let_def; metis prod.collapse)+
  have "claim_of l' = claim_of l \<and> map_of (ls_attached_to l') = map_of (ls_attached_to l) \<and> ls_last_seen l' = ls_last_seen l1"
  proof (cases r)
    case Relay
    then have hb: "relay_heartbeat_lease node hb is_client n l1 = (False, l')" using step by simp
    then have "ls_attached_to l' = ls_attached_to l1" "ls_last_seen l' = ls_last_seen l1"
      by (auto simp: relay_heartbeat_lease_def Let_def split_beta)
    with heartbeat_unchanged_claims [OF wf(1) hb] same show ?thesis by simp
  next
    case Client
    then show ?thesis using step same
      by (auto simp: client_heartbeat_lease_def Let_def claim_of_def fun_eq_iff split: option.splits)
  qed
  moreover have "map_of (ls_last_seen l1) m = None \<longleftrightarrow> map_of (ls_last_seen l) m = None" for m
    using came by (auto simp: l1_def leases_seen_def Let_def split: if_splits)
  ultimately show ?thesis
    using attachments_cong [OF wf(3,2)] by (simp add: leases_is_online_def)
qed

theorem quiet_heartbeat_witness:
  "let hb = \<lparr>hb_gen = 0, hb_digest = 0, hb_attached = [\<lparr>ac_node_id = 5, ac_session_id = 4\<rparr>], hb_mesh_up = [],
             hb_attached_to = None, hb_usable_mtu = 0, hb_traffic = None\<rparr>;
       l = snd (leases_heartbeat 1 Relay hb 10 (\<lambda>_. True) 9 leases_default);
       l' = snd (leases_heartbeat 1 Relay hb 20 (\<lambda>_. True) 9 l)
   in leases_attachments l' = leases_attachments l \<and> leases_last_seen l' 1 = Some 20"
proof -
  define hb where "hb = \<lparr>hb_gen = 0, hb_digest = 0, hb_attached = [\<lparr>ac_node_id = 5, ac_session_id = 4\<rparr>], hb_mesh_up = [],
             hb_attached_to = None, hb_usable_mtu = 0, hb_traffic = None\<rparr>"
  define l where "l = snd (leases_heartbeat 1 Relay hb 10 (\<lambda>_. True) 9 leases_default)"
  define l' where "l' = snd (leases_heartbeat 1 Relay hb 20 (\<lambda>_. True) 9 l)"
  have "leases_heartbeat 1 Relay hb 20 (\<lambda>_. True) 9 l = (False, l')"
    by (simp add: l'_def l_def hb_def leases_heartbeat_def leases_seen_def relay_heartbeat_lease_def
        declare_client_def leases_default_def)
  moreover have "leases_reach l" unfolding l_def by (intro leases_reach.intros)
  ultimately have "leases_attachments l' = leases_attachments l" using quiet_heartbeat by blast
  moreover have "leases_last_seen l' 1 = Some 20"
    by (simp add: l'_def l_def hb_def leases_heartbeat_def leases_seen_def relay_heartbeat_lease_def
        declare_client_def leases_default_def leases_last_seen_def)
  ultimately show ?thesis by (simp add: hb_def l_def l'_def)
qed

text \<open>
  Losing the control link never detaches: expiring silent members takes exactly those silent for
  longer than the window offline, and every client that was attached is still attached somewhere.
\<close>

theorem expire_keeps_attached:
  assumes "leases_reach l" and "leases_expire now window l = (gone, l')"
  shows "(\<forall>m. leases_is_online l' m \<longleftrightarrow> (\<exists>t. leases_last_seen l m = Some t \<and> now - t \<le> window))
    \<and> (\<forall>c. map_of (leases_attachments l) c \<noteq> None \<longrightarrow> map_of (leases_attachments l') c \<noteq> None)"
proof -
  have l': "l' = fold leases_offline gone l"
    and gone: "gone = map fst (filter (\<lambda>(n, t). now - t > window) (ls_last_seen l))"
    using assms(2) by (auto simp: leases_expire_def Let_def)
  have wf: "leases_wf l" "leases_wf l'"
    using leases_reach_wf [OF assms(1)] by (auto simp: l' intro: leases_wf_cong)
  have off: "map_of (ls_last_seen (fold leases_offline ns l)) m = (if m \<in> set ns then None else map_of (ls_last_seen l) m)" for ns m
    by (induction ns arbitrary: l) (auto simp: leases_offline_def Let_def split: option.split)
  have in_gone: "m \<in> set gone \<longleftrightarrow> (\<exists>t. map_of (ls_last_seen l) m = Some t \<and> now - t > window)" for m
    using leases_reach_seen_wf [OF assms(1)] by (force simp: gone)
  have "leases_is_online l' m \<longleftrightarrow> (\<exists>t. leases_last_seen l m = Some t \<and> now - t \<le> window)" for m
    using in_gone [of m] by (auto simp: leases_is_online_def leases_last_seen_def l' off not_le not_less)
  moreover have "map_of (leases_attachments l') c \<noteq> None" if "map_of (leases_attachments l) c \<noteq> None" for c
  proof -
    have "claim_of l' = claim_of l" by (simp add: l' claim_of_def fun_eq_iff)
    moreover have "stands l r c \<Longrightarrow> stands l' r c" for r
      by (simp add: stands_def l' attached_offlines)
    ultimately show ?thesis
      using that by (auto simp: attachments_None_iff [OF wf(1)] attachments_None_iff [OF wf(2)])
  qed
  ultimately show ?thesis by blast
qed

theorem expire_keeps_attached_witness:
  "let hb = \<lparr>hb_gen = 0, hb_digest = 0, hb_attached = [\<lparr>ac_node_id = 5, ac_session_id = 4\<rparr>], hb_mesh_up = [],
             hb_attached_to = None, hb_usable_mtu = 0, hb_traffic = None\<rparr>;
       l = snd (leases_heartbeat 1 Relay hb 10 (\<lambda>_. True) 9 leases_default);
       l' = snd (leases_expire 100 30 l)
   in \<not> leases_is_online l' 1 \<and> map_of (leases_attachments l') 5 \<noteq> None"
proof -
  define hb where "hb = \<lparr>hb_gen = 0, hb_digest = 0, hb_attached = [\<lparr>ac_node_id = 5, ac_session_id = 4\<rparr>], hb_mesh_up = [],
             hb_attached_to = None, hb_usable_mtu = 0, hb_traffic = None\<rparr>"
  define l where "l = snd (leases_heartbeat 1 Relay hb 10 (\<lambda>_. True) 9 leases_default)"
  obtain gone l' where e: "leases_expire 100 30 l = (gone, l')" by (rule prod.exhaust)
  have ls: "ls_last_seen l = [(1, 10)]" and at: "map_of (leases_attachments l) 5 \<noteq> None"
    by (simp_all add: l_def hb_def leases_heartbeat_def leases_seen_def relay_heartbeat_lease_def
        declare_client_def leases_default_def leases_attachments_def consider_claim_def)
  have "leases_reach l" unfolding l_def by (intro leases_reach.intros)
  from expire_keeps_attached [OF this e] ls at
  have "\<not> leases_is_online l' 1 \<and> map_of (leases_attachments l') 5 \<noteq> None"
    by (simp add: leases_last_seen_def)
  with e show ?thesis by (simp add: hb_def l_def)
qed

end
