(* ===== verification/Nq_Config.thy ===== *)
theory Nq_Config
  imports Nq_Net
begin

text \<open>
  The configuration of a network and the rules every change must pass
  (\<open>crates/nqvpn-coord/src/config.rs\<close>), the error vocabulary (\<open>crates/nqvpn-proto/src/errors.rs\<close>,
  \<open>crates/nqvpn-coord/src/error.rs\<close>) and the secrets (\<open>crates/nqvpn-coord/src/secrets.rs\<close>). An error
  keeps its kind and the names and values it is about; its prose is not modelled. What a relay's host
  name denotes, a literal address or the resolver's answer, is the argument \<open>host_ips\<close>.
\<close>

section \<open>Error codes\<close>

datatype error_code =
    BadCredentials | ClientDisabled | PrefixConflict | AddressInUse | AddressSpaceExhausted
  | PoolExhausted | UnknownPool | RelayUnreachable | BadRequest | RateLimited | AdminAuthRequired
  | ErrNotFound | ErrInternal | UnsupportedVerb | UnsupportedVersion | ErrUnknown string

fun code_as_str :: "error_code \<Rightarrow> string" where
  "code_as_str BadCredentials = ''bad_credentials''"
| "code_as_str ClientDisabled = ''client_disabled''"
| "code_as_str PrefixConflict = ''prefix_conflict''"
| "code_as_str AddressInUse = ''address_in_use''"
| "code_as_str AddressSpaceExhausted = ''address_space_exhausted''"
| "code_as_str PoolExhausted = ''pool_exhausted''"
| "code_as_str UnknownPool = ''unknown_pool''"
| "code_as_str RelayUnreachable = ''relay_unreachable''"
| "code_as_str BadRequest = ''bad_request''"
| "code_as_str RateLimited = ''rate_limited''"
| "code_as_str AdminAuthRequired = ''admin_auth_required''"
| "code_as_str UnsupportedVerb = ''unsupported_verb''"
| "code_as_str UnsupportedVersion = ''unsupported_version''"
| "code_as_str ErrNotFound = ''not_found''"
| "code_as_str ErrInternal = ''internal''"
| "code_as_str (ErrUnknown s) = s"

text \<open>The codes \<open>parse\<close> knows, in the order of its \<open>match\<close>.\<close>

definition known_codes :: "error_code list" where
  "known_codes = [BadCredentials, ClientDisabled, PrefixConflict, AddressInUse, AddressSpaceExhausted,
     PoolExhausted, UnknownPool, RelayUnreachable, BadRequest, RateLimited, AdminAuthRequired,
     UnsupportedVerb, UnsupportedVersion, ErrNotFound, ErrInternal]"

definition code_parse :: "string \<Rightarrow> error_code" where
  "code_parse s =
     (case find (\<lambda>c. code_as_str c = s) known_codes of Some c \<Rightarrow> c | None \<Rightarrow> ErrUnknown s)"

definition code_is_terminal :: "error_code \<Rightarrow> bool" where
  "code_is_terminal c \<longleftrightarrow> c \<in> {BadCredentials, ClientDisabled, PrefixConflict, AddressInUse, UnknownPool,
     BadRequest, UnsupportedVerb, UnsupportedVersion}"

text \<open>\<open>ApiError\<close>: the status and the code; \<open>Panicked\<close> is a panic (\<open>expect\<close> on an absent value).\<close>

datatype api_error = ApiError nat error_code | Panicked

definition bad_credentials :: api_error where "bad_credentials = ApiError 401 BadCredentials"
definition client_disabled :: api_error where "client_disabled = ApiError 403 ClientDisabled"
definition address_in_use :: api_error where "address_in_use = ApiError 409 AddressInUse"
definition address_space_exhausted :: api_error where
  "address_space_exhausted = ApiError 409 AddressSpaceExhausted"
definition bad_request :: api_error where "bad_request = ApiError 400 BadRequest"
definition rate_limited :: api_error where "rate_limited = ApiError 429 RateLimited"
definition relay_unreachable :: api_error where "relay_unreachable = ApiError 409 RelayUnreachable"
definition api_not_found :: api_error where "api_not_found = ApiError 404 ErrNotFound"
definition api_internal :: api_error where "api_internal = ApiError 500 ErrInternal"

section \<open>Secrets\<close>

definition MAX_SECRET_LEN :: nat where "MAX_SECRET_LEN = 64"

definition plausible_secret :: "string \<Rightarrow> bool" where
  "plausible_secret s \<longleftrightarrow> s \<noteq> [] \<and> length s \<le> MAX_SECRET_LEN
     \<and> list_all (\<lambda>c. is_ascii_alphanumeric c \<or> c = CHR ''-'' \<or> c = CHR ''_'') s"

definition get_byte :: "string \<Rightarrow> nat \<Rightarrow> nat" where
  "get_byte s i = (if i < length s then of_char (s ! i) else 0)"

definition constant_time_eq :: "string \<Rightarrow> string \<Rightarrow> bool" where
  "constant_time_eq a b =
     (let n = max (length a) (length b);
          diff = fold (\<lambda>i d. d OR (get_byte a i XOR get_byte b i)) [0..<n] (length a XOR length b)
      in diff = 0)"

section \<open>Network configuration\<close>

definition MAX_LANES :: u8 where "MAX_LANES = 32"
definition MAX_CREDENTIAL_TTL_MINS :: nat where "MAX_CREDENTIAL_TTL_MINS = 7 * 24 * 60"

record settings_cfg =
  st_credential_ttl_mins :: nat
  st_heartbeat_secs :: u16
  st_offline_after :: u32
  st_hold_down_secs :: nat
  st_mtu :: u16
  st_relay_reachability :: string
  st_transport :: string
  st_lanes :: u8
  st_max_session_mbps :: u32
  st_restart_grace_secs :: nat
  st_allow_loopback_relays :: bool

definition settings_default :: settings_cfg where
  "settings_default = \<lparr>st_credential_ttl_mins = 15, st_heartbeat_secs = 5, st_offline_after = 3,
     st_hold_down_secs = 60, st_mtu = 1350, st_relay_reachability = ''warn'', st_transport = ''stream'',
     st_lanes = 1, st_max_session_mbps = 0, st_restart_grace_secs = 30,
     st_allow_loopback_relays = False\<rparr>"

definition liveness_window_secs :: "settings_cfg \<Rightarrow> nat" where
  "liveness_window_secs s = unat (max (st_heartbeat_secs s) 1) * unat (max (st_offline_after s) 1)"

record member_cfg =
  mc_secret :: "string option"
  mc_relay_addr :: "string option"
  mc_local_cidrs :: "ip_net list"
  mc_internet_gateway :: "bool option"
  mc_preferred_ip4 :: "u32 option"
  mc_preferred_ip6 :: "u128 option"
  mc_want_vpn_ip :: "bool option"
  mc_max_session_mbps :: "u32 option"
  mc_preferred_relay :: "string option"

definition member_cfg_default :: member_cfg where
  "member_cfg_default = \<lparr>mc_secret = None, mc_relay_addr = None, mc_local_cidrs = [],
     mc_internet_gateway = None, mc_preferred_ip4 = None, mc_preferred_ip6 = None,
     mc_want_vpn_ip = None, mc_max_session_mbps = None, mc_preferred_relay = None\<rparr>"

record network_config =
  nc_network_id :: string
  nc_cidrs :: "ip_net list"
  nc_settings :: settings_cfg
  nc_relays :: "(string, member_cfg) btree"
  nc_clients :: "(string, member_cfg) btree"

definition ipv4_cidr :: "network_config \<Rightarrow> ip_net option" where
  "ipv4_cidr cfg = find is_v4 (nc_cidrs cfg)"

definition ipv6_cidr :: "network_config \<Rightarrow> ip_net option" where
  "ipv6_cidr cfg = find (\<lambda>c. \<not> is_v4 c) (nc_cidrs cfg)"

definition member_by_name :: "network_config \<Rightarrow> string \<Rightarrow> (member_cfg \<times> role) option" where
  "member_by_name cfg name =
     (case map_of (nc_clients cfg) name of
        Some m \<Rightarrow> Some (m, Client)
      | None \<Rightarrow> map_option (\<lambda>m. (m, Relay)) (map_of (nc_relays cfg) name))"

text \<open>\<open>member_by_name_mut\<close> with the change its caller makes.\<close>

definition member_by_name_upd ::
    "string \<Rightarrow> (member_cfg \<Rightarrow> member_cfg) \<Rightarrow> network_config \<Rightarrow> network_config option" where
  "member_by_name_upd name f cfg =
     (case map_of (nc_clients cfg) name of
        Some m \<Rightarrow> Some (cfg\<lparr>nc_clients := bt_insert name (f m) (nc_clients cfg)\<rparr>)
      | None \<Rightarrow> (case map_of (nc_relays cfg) name of
          Some m \<Rightarrow> Some (cfg\<lparr>nc_relays := bt_insert name (f m) (nc_relays cfg)\<rparr>)
        | None \<Rightarrow> None))"

definition cfg_members :: "network_config \<Rightarrow> (string \<times> member_cfg \<times> role) list" where
  "cfg_members cfg =
     map (\<lambda>(n, m). (n, m, Client)) (nc_clients cfg) @ map (\<lambda>(n, m). (n, m, Relay)) (nc_relays cfg)"

definition insert_member :: "string \<Rightarrow> role \<Rightarrow> member_cfg \<Rightarrow> network_config \<Rightarrow> network_config" where
  "insert_member name r m cfg =
     (case r of
        Client \<Rightarrow> cfg\<lparr>nc_clients := bt_insert name m (nc_clients cfg)\<rparr>
      | Relay \<Rightarrow> cfg\<lparr>nc_relays := bt_insert name m (nc_relays cfg)\<rparr>)"

definition remove_member :: "string \<Rightarrow> network_config \<Rightarrow> bool \<times> network_config" where
  "remove_member name cfg =
     (if map_of (nc_clients cfg) name \<noteq> None
      then (True, cfg\<lparr>nc_clients := bt_remove name (nc_clients cfg)\<rparr>)
      else (map_of (nc_relays cfg) name \<noteq> None, cfg\<lparr>nc_relays := bt_remove name (nc_relays cfg)\<rparr>))"

text \<open>The stored form names the two ranges; older rows list them.\<close>

record network_wire =
  nw_network_id :: string
  nw_ipv4_cidr :: "ip_net option"
  nw_ipv6_cidr :: "ip_net option"
  nw_cidrs :: "ip_net list"
  nw_settings :: settings_cfg
  nw_relays :: "(string, member_cfg) btree"
  nw_clients :: "(string, member_cfg) btree"

definition network_from_wire :: "network_wire \<Rightarrow> unit + network_config" where
  "network_from_wire w =
     (let named = (nw_ipv4_cidr w \<noteq> None \<or> nw_ipv6_cidr w \<noteq> None) in
      if nw_cidrs w \<noteq> [] \<and> named then Inl ()
      else Inr \<lparr>nc_network_id = nw_network_id w,
        nc_cidrs = (if named then case_option [] (\<lambda>c. [c]) (nw_ipv4_cidr w)
                                 @ case_option [] (\<lambda>c. [c]) (nw_ipv6_cidr w)
                    else nw_cidrs w),
        nc_settings = nw_settings w, nc_relays = nw_relays w, nc_clients = nw_clients w\<rparr>)"

text \<open>\<open>None\<close>: \<open>ipv4_cidr\<close> panics on a network without an IPv4 range.\<close>

definition network_to_wire :: "network_config \<Rightarrow> network_wire option" where
  "network_to_wire cfg =
     map_option (\<lambda>v4. \<lparr>nw_network_id = nc_network_id cfg, nw_ipv4_cidr = Some v4,
       nw_ipv6_cidr = ipv6_cidr cfg, nw_cidrs = [], nw_settings = nc_settings cfg,
       nw_relays = nc_relays cfg, nw_clients = nc_clients cfg\<rparr>) (ipv4_cidr cfg)"

section \<open>Validation\<close>

datatype config_error =
    BadReachability | BadTransport | BadLanes | ZeroSetting | TtlTooLong | BadMtu | GraceTooLong
  | NotOneIpv4 | ManyIpv6 | BothRoles string
  | EmptySecret string | BadSecret string | RelayOnlyField string | ClientOnlyField string
  | DefaultAsLan string ip_net | NoRelayAddr string | BadRelayAddr string
  | RelayUnroutable string ip_addr | RelayInTunnel string ip_addr | RelayInLan string ip_addr
  | LanInTunnel string ip_net ip_net | LanPartial string ip_net ip_net string
  | LanHolds string ip_net string ip_addr | UnknownPreferred string string
  | AddrUnusable string ip_addr | AddrOutside string ip_addr | AddrNotHost string ip_addr
  | AddrTwice string string ip_addr

fun unroutable :: "ip_addr \<Rightarrow> bool" where
  "unroutable (A4 a) \<longleftrightarrow> is_loopback (A4 a) \<or> is_unspecified (A4 a) \<or> is_multicast (A4 a)
     \<or> is_link_local (A4 a) \<or> is_broadcast (A4 a) \<or> drop_bit 24 a = 0"
| "unroutable (A6 a) \<longleftrightarrow> is_loopback (A6 a) \<or> is_unspecified (A6 a) \<or> is_multicast (A6 a)
     \<or> is_link_local (A6 a)"

definition in_tunnel :: "ipnet \<Rightarrow> network_config \<Rightarrow> ip_addr \<Rightarrow> bool" where
  "in_tunnel I cfg ip \<longleftrightarrow> (\<exists>c \<in> set (nc_cidrs cfg). ipn_contains I c ip)"

definition check_relay_ip :: "ipnet \<Rightarrow> string \<Rightarrow> ip_addr \<Rightarrow> network_config \<Rightarrow> config_error + unit" where
  "check_relay_ip I name ip cfg =
     (let ip = to_canonical ip in
      if st_allow_loopback_relays (nc_settings cfg) \<and> is_loopback ip then Inr ()
      else if unroutable ip then Inl (RelayUnroutable name ip)
      else if in_tunnel I cfg ip then Inl (RelayInTunnel name ip)
      else if \<exists>m \<in> snd ` set (nc_relays cfg) \<union> snd ` set (nc_clients cfg).
                \<exists>c \<in> set (mc_local_cidrs m). ipn_contains I c ip
        then Inl (RelayInLan name ip)
      else Inr ())"

definition validate_relay_addr ::
    "ipnet \<Rightarrow> (string \<Rightarrow> int \<Rightarrow> ip_addr list) \<Rightarrow> string \<Rightarrow> string \<Rightarrow> network_config \<Rightarrow> config_error + unit" where
  "validate_relay_addr I host_ips name addr cfg =
     (case strip_prefix ''auto:'' addr of
        Some port \<Rightarrow> ensure (parse_uint 16 port \<noteq> None) (BadRelayAddr name)
      | None \<Rightarrow>
        (case rsplit_once CHR '':'' addr of
           None \<Rightarrow> Inl (BadRelayAddr name)
         | Some (host, port) \<Rightarrow>
           (case parse_uint 16 port of
              None \<Rightarrow> Inl (BadRelayAddr name)
            | Some port \<Rightarrow>
                let host = dropWhile (\<lambda>c. c = CHR ''['') host;
                    host = rev (dropWhile (\<lambda>c. c = CHR '']'') (rev host))
                in res_iter (\<lambda>ip. check_relay_ip I name ip cfg) (host_ips host port))))"

definition check_settings :: "settings_cfg \<Rightarrow> config_error + unit" where
  "check_settings s =
     (if st_relay_reachability s \<notin> {''off'', ''warn'', ''deny''} then Inl BadReachability
      else if st_transport s \<notin> {''datagram'', ''stream''} then Inl BadTransport
      else if st_lanes s = 0 \<or> st_lanes s > MAX_LANES then Inl BadLanes
      else if st_credential_ttl_mins s = 0 \<or> st_heartbeat_secs s = 0 \<or> st_offline_after s = 0
        then Inl ZeroSetting
      else if st_credential_ttl_mins s > MAX_CREDENTIAL_TTL_MINS then Inl TtlTooLong
      else if st_mtu s < 1280 \<or> st_mtu s > 9000 then Inl BadMtu
      else if st_restart_grace_secs s > 600 then Inl GraceTooLong
      else Inr ())"

definition check_secret :: "string \<Rightarrow> member_cfg \<Rightarrow> config_error + unit" where
  "check_secret name m =
     (case mc_secret m of
        None \<Rightarrow> Inr ()
      | Some s \<Rightarrow>
          if str_trim s = [] then Inl (EmptySecret name)
          else ensure (plausible_secret (str_trim s)) (BadSecret name))"

text \<open>The static addresses of a member, IPv4 first.\<close>

definition static_addrs :: "member_cfg \<Rightarrow> ip_addr list" where
  "static_addrs m =
     case_option [] (\<lambda>a. [A4 a]) (mc_preferred_ip4 m) @ case_option [] (\<lambda>a. [A6 a]) (mc_preferred_ip6 m)"

text \<open>One routed prefix against the tunnel space and every other member.\<close>

definition check_lan :: "ipnet \<Rightarrow> network_config \<Rightarrow> string \<Rightarrow> ip_net \<Rightarrow> config_error + unit" where
  "check_lan I cfg name c =
     res_bind (res_iter (\<lambda>t. ensure (\<not> overlaps I c t) (LanInTunnel name c t)) (nc_cidrs cfg)) (\<lambda>_.
     res_iter (\<lambda>(other, om, _).
       if other = name then Inr ()
       else res_bind
         (res_iter (\<lambda>oc. ensure (\<not> (overlaps I c oc \<and> ipn_trunc I c \<noteq> ipn_trunc I oc))
                                (LanPartial name c oc other)) (mc_local_cidrs om)) (\<lambda>_.
         res_iter (\<lambda>ip. ensure (\<not> ipn_contains I c ip) (LanHolds name c other ip)) (static_addrs om)))
       (cfg_members cfg))"

definition check_client :: "string \<Rightarrow> member_cfg \<Rightarrow> config_error + unit" where
  "check_client name m =
     ensure (\<not> (mc_relay_addr m \<noteq> None \<or> mc_local_cidrs m \<noteq> [] \<or> mc_max_session_mbps m \<noteq> None
       \<or> mc_internet_gateway m = Some True)) (RelayOnlyField name)"

definition check_relay ::
    "ipnet \<Rightarrow> (string \<Rightarrow> int \<Rightarrow> ip_addr list) \<Rightarrow> network_config \<Rightarrow> string \<Rightarrow> member_cfg \<Rightarrow> config_error + unit" where
  "check_relay I host_ips cfg name m =
     (if mc_preferred_relay m \<noteq> None then Inl (ClientOnlyField name)
      else case find (\<lambda>c. prefix_len c = 0) (mc_local_cidrs m) of
        Some c \<Rightarrow> Inl (DefaultAsLan name c)
      | None \<Rightarrow>
        (case mc_relay_addr m of
           None \<Rightarrow> Inl (NoRelayAddr name)
         | Some addr \<Rightarrow>
             res_bind (validate_relay_addr I host_ips name addr cfg) (\<lambda>_.
             res_iter (check_lan I cfg name) (mc_local_cidrs m))))"

text \<open>The static addresses seen so far, with the member that claimed each.\<close>

record seen_addrs =
  sa_seen4 :: "(u32, string) btree"
  sa_seen6 :: "(u128, string) btree"

definition check_addr4 ::
    "ipnet \<Rightarrow> network_config \<Rightarrow> string \<Rightarrow> u32 \<Rightarrow> seen_addrs \<Rightarrow> config_error + seen_addrs" where
  "check_addr4 I cfg name a seen =
     (let ip = A4 a in
      if unroutable ip then Inl (AddrUnusable name ip)
      else if \<not> in_tunnel I cfg ip then Inl (AddrOutside name ip)
      else if (case ipv4_cidr cfg of
                 Some v4 \<Rightarrow> prefix_len v4 < 31 \<and> (ip = ipn_network I v4 \<or> ip = ipn_broadcast I v4)
               | None \<Rightarrow> False) then Inl (AddrNotHost name ip)
      else case map_of (sa_seen4 seen) a of
        Some prev \<Rightarrow> Inl (AddrTwice prev name ip)
      | None \<Rightarrow> Inr (seen\<lparr>sa_seen4 := bt_insert a name (sa_seen4 seen)\<rparr>))"

definition check_addr6 ::
    "ipnet \<Rightarrow> network_config \<Rightarrow> string \<Rightarrow> u128 \<Rightarrow> seen_addrs \<Rightarrow> config_error + seen_addrs" where
  "check_addr6 I cfg name a seen =
     (let ip = A6 a in
      if unroutable ip then Inl (AddrUnusable name ip)
      else if \<not> in_tunnel I cfg ip then Inl (AddrOutside name ip)
      else case map_of (sa_seen6 seen) a of
        Some prev \<Rightarrow> Inl (AddrTwice prev name ip)
      | None \<Rightarrow> Inr (seen\<lparr>sa_seen6 := bt_insert a name (sa_seen6 seen)\<rparr>))"

definition check_preferred :: "network_config \<Rightarrow> string \<Rightarrow> member_cfg \<Rightarrow> config_error + unit" where
  "check_preferred cfg name m =
     (case mc_preferred_relay m of
        Some p \<Rightarrow> ensure (map_of (nc_relays cfg) p \<noteq> None) (UnknownPreferred name p)
      | None \<Rightarrow> Inr ())"

definition check_member ::
    "ipnet \<Rightarrow> (string \<Rightarrow> int \<Rightarrow> ip_addr list) \<Rightarrow> network_config \<Rightarrow> string \<times> member_cfg \<times> role \<Rightarrow> seen_addrs
      \<Rightarrow> config_error + seen_addrs" where
  "check_member I host_ips cfg = (\<lambda>(name, m, r) seen.
     res_bind (check_secret name m) (\<lambda>_.
     res_bind (case r of Client \<Rightarrow> check_client name m | Relay \<Rightarrow> check_relay I host_ips cfg name m) (\<lambda>_.
     res_bind (check_preferred cfg name m) (\<lambda>_.
     res_bind (case mc_preferred_ip4 m of Some a \<Rightarrow> check_addr4 I cfg name a seen | None \<Rightarrow> Inr seen) (\<lambda>seen.
     case mc_preferred_ip6 m of Some a \<Rightarrow> check_addr6 I cfg name a seen | None \<Rightarrow> Inr seen)))))"

definition trunc_network :: "ipnet \<Rightarrow> network_config \<Rightarrow> network_config" where
  "trunc_network I cfg = cfg\<lparr>
     nc_cidrs := map (ipn_trunc I) (nc_cidrs cfg),
     nc_relays := map (\<lambda>(n, m). (n, m\<lparr>mc_local_cidrs := map (ipn_trunc I) (mc_local_cidrs m)\<rparr>)) (nc_relays cfg)\<rparr>"

definition check_network ::
    "ipnet \<Rightarrow> (string \<Rightarrow> int \<Rightarrow> ip_addr list) \<Rightarrow> network_config \<Rightarrow> config_error + unit" where
  "check_network I host_ips cfg =
     res_bind (check_settings (nc_settings cfg)) (\<lambda>_.
     if length (filter is_v4 (nc_cidrs cfg)) \<noteq> 1 then Inl NotOneIpv4
     else if length (filter (\<lambda>c. \<not> is_v4 c) (nc_cidrs cfg)) > 1 then Inl ManyIpv6
     else
       res_bind (res_iter (\<lambda>(name, _). ensure (map_of (nc_relays cfg) name = None) (BothRoles name))
                   (nc_clients cfg)) (\<lambda>_.
       res_bind (res_fold (check_member I host_ips cfg) (cfg_members cfg) \<lparr>sa_seen4 = [], sa_seen6 = []\<rparr>) (\<lambda>_.
       Inr ())))"

definition validate_network_with ::
    "ipnet \<Rightarrow> (string \<Rightarrow> int \<Rightarrow> ip_addr list) \<Rightarrow> network_config \<Rightarrow> config_error + network_config" where
  "validate_network_with I host_ips cfg =
     (let cfg = trunc_network I cfg in res_bind (check_network I host_ips cfg) (\<lambda>_. Inr cfg))"

section \<open>Lemmas\<close>

lemma fold_or_zero:
  "fold (\<lambda>i d. d OR f i) is (d :: nat) = 0 \<longleftrightarrow> d = 0 \<and> (\<forall>i \<in> set is. f i = 0)"
  by (induction "is" arbitrary: d) (auto simp: or_eq_0_iff)

lemma nat_xor_zero: "(a :: nat) XOR b = 0 \<longleftrightarrow> a = b"
  by (metis xor.assoc xor.left_neutral xor_self_eq)

lemma constant_time_eq_iff: "constant_time_eq a b \<longleftrightarrow> a = b"
proof -
  have "constant_time_eq a b \<longleftrightarrow>
      length a = length b \<and> (\<forall>i < length a. get_byte a i = get_byte b i)"
    unfolding constant_time_eq_def Let_def fold_or_zero nat_xor_zero by auto
  also have "\<dots> \<longleftrightarrow> a = b" by (auto simp: get_byte_def list_eq_iff_nth_eq)
  finally show ?thesis .
qed

lemma trunc_trunc [simp]: "ipnet_ok I \<Longrightarrow> ipn_trunc I (ipn_trunc I n) = ipn_trunc I n"
proof -
  assume "ipnet_ok I"
  then have "net_addr (ipn_trunc I (ipn_trunc I n)) = net_addr (ipn_trunc I n)"
    "prefix_len (ipn_trunc I (ipn_trunc I n)) = prefix_len (ipn_trunc I n)"
    by (simp_all add: ipnet_ok_def)
  then show ?thesis by (cases "ipn_trunc I (ipn_trunc I n)"; cases "ipn_trunc I n") auto
qed

lemma trunc_network_idem [simp]:
  "ipnet_ok I \<Longrightarrow> trunc_network I (trunc_network I cfg) = trunc_network I cfg"
  by (simp add: trunc_network_def split_def comp_def)

lemma validate_Inr:
  "validate_network_with I h cfg = Inr cfg' \<longleftrightarrow>
     cfg' = trunc_network I cfg \<and> check_network I h cfg' = Inr ()"
  by (auto simp: validate_network_with_def Let_def res_bind_Inr_conv)

lemma validate_idem:
  "ipnet_ok I \<Longrightarrow> validate_network_with I h cfg = Inr cfg' \<Longrightarrow> validate_network_with I h cfg' = Inr cfg'"
  by (auto simp: validate_Inr)

text \<open>Every code survives the wire; a string that names none is kept as it is.\<close>

lemma code_parse_known: "c \<in> set known_codes \<Longrightarrow> code_parse (code_as_str c) = c"
proof -
  have "list_all (\<lambda>c. code_parse (code_as_str c) = c) known_codes" by code_simp
  then show "c \<in> set known_codes \<Longrightarrow> ?thesis" by (simp only: list_all_iff)
qed

lemma code_parse_as_str: "code_as_str (code_parse s) = s"
  by (auto simp: code_parse_def find_Some_iff split: option.split)

text \<open>A network in the order the UI creates it reads back from its stored form.\<close>

lemma wire_roundtrip:
  assumes "nc_cidrs cfg = V4 a l # (case v6 of Some (b, k) \<Rightarrow> [V6 b k] | None \<Rightarrow> [])"
  shows "Option.bind (network_to_wire cfg) (\<lambda>w. Some (network_from_wire w)) = Some (Inr cfg)"
  using assms
  by (auto simp: network_to_wire_def network_from_wire_def ipv4_cidr_def ipv6_cidr_def
      split: option.splits)

text \<open>What the checks of one member establish.\<close>

definition addr4_ok :: "ipnet \<Rightarrow> network_config \<Rightarrow> u32 \<Rightarrow> bool" where
  "addr4_ok I cfg a \<longleftrightarrow> \<not> unroutable (A4 a) \<and> in_tunnel I cfg (A4 a)
     \<and> (\<forall>v4. ipv4_cidr cfg = Some v4 \<longrightarrow> prefix_len v4 < 31 \<longrightarrow>
          A4 a \<noteq> ipn_network I v4 \<and> A4 a \<noteq> ipn_broadcast I v4)"

definition addr6_ok :: "ipnet \<Rightarrow> network_config \<Rightarrow> u128 \<Rightarrow> bool" where
  "addr6_ok I cfg a \<longleftrightarrow> \<not> unroutable (A6 a) \<and> in_tunnel I cfg (A6 a)"

definition lan_ok :: "ipnet \<Rightarrow> network_config \<Rightarrow> string \<Rightarrow> ip_net \<Rightarrow> bool" where
  "lan_ok I cfg name c \<longleftrightarrow> (\<forall>t \<in> set (nc_cidrs cfg). \<not> overlaps I c t)
     \<and> (\<forall>(other, om, _) \<in> set (cfg_members cfg). other \<noteq> name \<longrightarrow>
          (\<forall>oc \<in> set (mc_local_cidrs om). overlaps I c oc \<longrightarrow> ipn_trunc I c = ipn_trunc I oc)
        \<and> (\<forall>ip \<in> set (static_addrs om). \<not> ipn_contains I c ip))"

lemma check_addr4_Inr:
  "check_addr4 I cfg name a seen = Inr seen' \<longleftrightarrow> addr4_ok I cfg a \<and> map_of (sa_seen4 seen) a = None
     \<and> seen' = seen\<lparr>sa_seen4 := bt_insert a name (sa_seen4 seen)\<rparr>"
  by (auto simp: check_addr4_def addr4_ok_def Let_def split: option.splits)

lemma check_addr6_Inr:
  "check_addr6 I cfg name a seen = Inr seen' \<longleftrightarrow> addr6_ok I cfg a \<and> map_of (sa_seen6 seen) a = None
     \<and> seen' = seen\<lparr>sa_seen6 := bt_insert a name (sa_seen6 seen)\<rparr>"
  by (auto simp: check_addr6_def addr6_ok_def Let_def split: option.splits)

lemma check_lan_Inr: "check_lan I cfg name c = Inr u \<longleftrightarrow> lan_ok I cfg name c"
  by (auto simp: check_lan_def lan_ok_def res_bind_Inr_conv res_iter_Inr split: if_splits)

lemma check_relay_lan:
  "check_relay I h cfg name m = Inr u \<Longrightarrow> c \<in> set (mc_local_cidrs m) \<Longrightarrow>
     lan_ok I cfg name c \<and> prefix_len c \<noteq> 0"
  by (auto simp: check_relay_def res_bind_Inr_conv res_iter_Inr check_lan_Inr find_None_iff
      split: if_splits option.splits)

definition member_ok :: "ipnet \<Rightarrow> network_config \<Rightarrow> string \<times> member_cfg \<times> role \<Rightarrow> bool" where
  "member_ok I cfg = (\<lambda>(name, m, r).
     (\<forall>s. mc_secret m = Some s \<longrightarrow> plausible_secret (str_trim s))
   \<and> (r = Client \<longrightarrow> mc_local_cidrs m = [])
   \<and> (r = Relay \<longrightarrow> mc_relay_addr m \<noteq> None)
   \<and> (\<forall>c \<in> set (mc_local_cidrs m). lan_ok I cfg name c \<and> prefix_len c \<noteq> 0)
   \<and> (\<forall>p. mc_preferred_relay m = Some p \<longrightarrow> map_of (nc_relays cfg) p \<noteq> None)
   \<and> (\<forall>a. mc_preferred_ip4 m = Some a \<longrightarrow> addr4_ok I cfg a)
   \<and> (\<forall>a. mc_preferred_ip6 m = Some a \<longrightarrow> addr6_ok I cfg a))"

lemma check_member_Inr:
  assumes "check_member I h cfg (name, m, r) seen = Inr seen'"
  shows "member_ok I cfg (name, m, r)
    \<and> map_of (sa_seen4 seen') =
        (case mc_preferred_ip4 m of Some a \<Rightarrow> (map_of (sa_seen4 seen))(a \<mapsto> name) | None \<Rightarrow> map_of (sa_seen4 seen))
    \<and> map_of (sa_seen6 seen') =
        (case mc_preferred_ip6 m of Some a \<Rightarrow> (map_of (sa_seen6 seen))(a \<mapsto> name) | None \<Rightarrow> map_of (sa_seen6 seen))
    \<and> (\<forall>a. mc_preferred_ip4 m = Some a \<longrightarrow> map_of (sa_seen4 seen) a = None)
    \<and> (\<forall>a. mc_preferred_ip6 m = Some a \<longrightarrow> map_of (sa_seen6 seen) a = None)"
proof -
  from assms obtain s1 where
      sec: "check_secret name m = Inr ()"
    and rl: "(case r of Client \<Rightarrow> check_client name m | Relay \<Rightarrow> check_relay I h cfg name m) = Inr ()"
    and pref: "check_preferred cfg name m = Inr ()"
    and a4: "(case mc_preferred_ip4 m of Some a \<Rightarrow> check_addr4 I cfg name a seen | None \<Rightarrow> Inr seen) = Inr s1"
    and a6: "(case mc_preferred_ip6 m of Some a \<Rightarrow> check_addr6 I cfg name a s1 | None \<Rightarrow> Inr s1) = Inr seen'"
    by (auto simp: check_member_def res_bind_Inr_conv)
  have "mc_secret m = Some s \<Longrightarrow> plausible_secret (str_trim s)" for s
    using sec by (auto simp: check_secret_def split: if_splits)
  moreover have "r = Client \<Longrightarrow> mc_local_cidrs m = []" "r = Relay \<Longrightarrow> mc_relay_addr m \<noteq> None"
    using rl by (auto simp: check_client_def check_relay_def split: if_splits option.splits)
  moreover have "c \<in> set (mc_local_cidrs m) \<Longrightarrow> lan_ok I cfg name c \<and> prefix_len c \<noteq> 0" for c
    using rl check_relay_lan by (cases r) (auto simp: check_client_def)
  moreover have "mc_preferred_relay m = Some p \<Longrightarrow> map_of (nc_relays cfg) p \<noteq> None" for p
    using pref by (auto simp: check_preferred_def)
  ultimately have "mc_preferred_ip4 m = None \<or> addr4_ok I cfg (the (mc_preferred_ip4 m)) \<Longrightarrow>
      mc_preferred_ip6 m = None \<or> addr6_ok I cfg (the (mc_preferred_ip6 m)) \<Longrightarrow> member_ok I cfg (name, m, r)"
    by (auto simp: member_ok_def)
  with a4 a6 show ?thesis
    by (auto simp: check_addr4_Inr check_addr6_Inr split: option.splits)
qed

definition statics4 :: "(string \<times> member_cfg \<times> role) list \<Rightarrow> u32 list" where
  "statics4 xs = List.map_filter (\<lambda>(_, m, _). mc_preferred_ip4 m) xs"

definition statics6 :: "(string \<times> member_cfg \<times> role) list \<Rightarrow> u128 list" where
  "statics6 xs = List.map_filter (\<lambda>(_, m, _). mc_preferred_ip6 m) xs"

lemma statics_simps [simp]:
  "statics4 [] = []" "statics6 [] = []"
  "statics4 ((n, m, r) # xs) = (case mc_preferred_ip4 m of Some a \<Rightarrow> a # statics4 xs | None \<Rightarrow> statics4 xs)"
  "statics6 ((n, m, r) # xs) = (case mc_preferred_ip6 m of Some a \<Rightarrow> a # statics6 xs | None \<Rightarrow> statics6 xs)"
  by (simp_all add: statics4_def statics6_def map_filter_simps split: option.split)

lemma check_members_Inr:
  assumes "res_fold (check_member I h cfg) xs seen = Inr seen'"
  shows "(\<forall>x \<in> set xs. member_ok I cfg x)
    \<and> distinct (statics4 xs) \<and> set (statics4 xs) \<inter> dom (map_of (sa_seen4 seen)) = {}
    \<and> distinct (statics6 xs) \<and> set (statics6 xs) \<inter> dom (map_of (sa_seen6 seen)) = {}"
  using assms
proof (induction xs arbitrary: seen)
  case (Cons x xs)
  obtain n m r where x: "x = (n, m, r)" by (cases x)
  from Cons.prems obtain s1 where s1: "check_member I h cfg x seen = Inr s1"
    and rest: "res_fold (check_member I h cfg) xs s1 = Inr seen'"
    by (auto simp: res_bind_Inr_conv)
  show ?case
    using Cons.IH [OF rest] check_member_Inr [OF s1 [unfolded x]]
    by (auto simp: x dom_def split: option.splits if_splits)
qed simp

lemma check_network_Inr:
  assumes "check_network I h cfg = Inr u"
  shows "check_settings (nc_settings cfg) = Inr ()" "length (filter is_v4 (nc_cidrs cfg)) = 1"
    "length (filter (\<lambda>c. \<not> is_v4 c) (nc_cidrs cfg)) \<le> 1"
    "\<forall>n \<in> fst ` set (nc_clients cfg). map_of (nc_relays cfg) n = None"
    "\<forall>x \<in> set (cfg_members cfg). member_ok I cfg x"
    "distinct (statics4 (cfg_members cfg))" "distinct (statics6 (cfg_members cfg))"
proof -
  from assms obtain seen where "check_settings (nc_settings cfg) = Inr ()"
      "length (filter is_v4 (nc_cidrs cfg)) = 1" "length (filter (\<lambda>c. \<not> is_v4 c) (nc_cidrs cfg)) \<le> 1"
      "res_iter (\<lambda>(name, _). ensure (map_of (nc_relays cfg) name = None) (BothRoles name)) (nc_clients cfg) = Inr ()"
    and fold: "res_fold (check_member I h cfg) (cfg_members cfg) \<lparr>sa_seen4 = [], sa_seen6 = []\<rparr> = Inr seen"
    by (auto simp: check_network_def res_bind_Inr_conv split: if_splits)
  then show "check_settings (nc_settings cfg) = Inr ()" "length (filter is_v4 (nc_cidrs cfg)) = 1"
    "length (filter (\<lambda>c. \<not> is_v4 c) (nc_cidrs cfg)) \<le> 1"
    "\<forall>n \<in> fst ` set (nc_clients cfg). map_of (nc_relays cfg) n = None"
    by (auto simp: res_iter_Inr)
  show "\<forall>x \<in> set (cfg_members cfg). member_ok I cfg x"
    "distinct (statics4 (cfg_members cfg))" "distinct (statics6 (cfg_members cfg))"
    using check_members_Inr [OF fold] by blast+
qed

lemma in_statics4: "a \<in> set (statics4 xs) \<longleftrightarrow> (\<exists>(n, m, r) \<in> set xs. mc_preferred_ip4 m = Some a)"
  by (induction xs) (auto split: option.splits)

lemma in_statics6: "a \<in> set (statics6 xs) \<longleftrightarrow> (\<exists>(n, m, r) \<in> set xs. mc_preferred_ip6 m = Some a)"
  by (induction xs) (auto split: option.splits)

lemma trunc_network_lan:
  assumes "ipnet_ok I" and "(n, m, r) \<in> set (cfg_members (trunc_network I cfg))" and "r = Relay"
    and "c \<in> set (mc_local_cidrs m)"
  shows "ipn_trunc I c = c"
  using assms by (auto simp: cfg_members_def trunc_network_def)

text \<open>A prefix routed by a member.\<close>

definition routed :: "network_config \<Rightarrow> string \<Rightarrow> ip_net \<Rightarrow> bool" where
  "routed cfg n c \<longleftrightarrow> (\<exists>m r. (n, m, r) \<in> set (cfg_members cfg) \<and> c \<in> set (mc_local_cidrs m))"

lemma routed_valid:
  assumes "ipnet_ok I" and "check_network I h (trunc_network I cfg) = Inr ()"
    and "routed (trunc_network I cfg) n c"
  shows "lan_ok I (trunc_network I cfg) n c" "ipn_trunc I c = c"
proof -
  from assms(3) obtain m r where m: "(n, m, r) \<in> set (cfg_members (trunc_network I cfg))"
    and c: "c \<in> set (mc_local_cidrs m)" by (auto simp: routed_def)
  have ok: "member_ok I (trunc_network I cfg) (n, m, r)" using check_network_Inr(5) [OF assms(2)] m by blast
  with c show "lan_ok I (trunc_network I cfg) n c" by (simp add: member_ok_def)
  from ok c have "r = Relay" by (cases r) (auto simp: member_ok_def)
  then show "ipn_trunc I c = c" using trunc_network_lan [OF assms(1) m] c by simp
qed

lemma lan_ok_other:
  "lan_ok I cfg n c \<Longrightarrow> routed cfg n' c' \<Longrightarrow> n \<noteq> n' \<Longrightarrow> overlaps I c c' \<Longrightarrow> ipn_trunc I c = ipn_trunc I c'"
  by (fastforce simp: lan_ok_def routed_def)

lemma routed_apart:
  assumes "ipnet_ok I" and "check_network I h (trunc_network I cfg) = Inr ()"
    and "routed (trunc_network I cfg) n c" and "routed (trunc_network I cfg) n' c'" and "n \<noteq> n'"
    and "ipn_contains I c x" and "ipn_contains I c' x"
  shows "c = c'"
proof -
  have "overlaps I c c'" using assms(6,7) by (auto simp: overlaps_shared [OF assms(1)])
  then have "ipn_trunc I c = ipn_trunc I c'"
    using lan_ok_other routed_valid(1) [OF assms(1-3)] assms(4,5) by blast
  then show ?thesis using routed_valid(2) [OF assms(1,2)] assms(3,4) by metis
qed

lemma statics_in_tunnel:
  assumes "check_network I h cfg = Inr ()"
  shows "a \<in> set (statics4 (cfg_members cfg)) \<Longrightarrow> in_tunnel I cfg (A4 a)"
    "b \<in> set (statics6 (cfg_members cfg)) \<Longrightarrow> in_tunnel I cfg (A6 b)"
  using check_network_Inr(5) [OF assms]
  by (auto simp: in_statics4 in_statics6 member_ok_def addr4_ok_def addr6_ok_def dest!: bspec)

section \<open>Properties\<close>

text \<open>
  The constant-time comparison of secrets, which walks the longer of the two whatever they hold,
  decides equality.
\<close>

theorem constant_time_eq_correct: "constant_time_eq a b = (a = b)"
  by (rule constant_time_eq_iff)


text \<open>A network with a client at a static address and a relay that routes a LAN, given as a host address.\<close>

definition example_network :: network_config where
  "example_network = \<lparr>nc_network_id = ''n'', nc_cidrs = [V4 0x0a000001 24], nc_settings = settings_default,
     nc_relays = [(''r'', member_cfg_default\<lparr>mc_relay_addr := Some ''relay.example:7000'',
       mc_local_cidrs := [V4 0xac1a063b 20]\<rparr>)],
     nc_clients = [(''c'', member_cfg_default\<lparr>mc_preferred_ip4 := Some 0x0a000005\<rparr>)]\<rparr>"

definition example_hosts :: "string \<Rightarrow> int \<Rightarrow> ip_addr list" where
  "example_hosts h p = [A4 0x08080808]"

lemma example_network_valid:
  "validate_network_with ipnet_std example_hosts example_network = Inr (trunc_network ipnet_std example_network)"
  by code_simp


end
