(* ===== verification/Nq_Registry.thy ===== *)
theory Nq_Registry
  imports Nq_Config
begin

text \<open>
  The durable registry of a network (\<open>crates/nqvpn-coord/src/registry.rs\<close>): member records by node id,
  the node-id counter, allocation cursors and the high-water mark of the view's generation. Times are
  unbounded numbers of seconds; login generations and view generations are 64-bit words.
\<close>

section \<open>State\<close>

record route_reg =
  rr_cidr :: ip_net
  rr_first_granted_unix :: nat

record member_record =
  mr_node_id :: node_id
  mr_name :: string
  mr_role :: role
  mr_pubkey :: "string option"
  mr_cert_fp :: "string option"
  mr_ip4 :: "u32 option"
  mr_ip6 :: "u128 option"
  mr_routes :: "route_reg list"
  mr_relay_addr :: "string option"
  mr_disabled :: bool
  mr_created_unix :: nat
  mr_last_join_unix :: "nat option"
  mr_last_join_from :: "string option"
  mr_login_gen :: u64
  mr_replaced_unix :: "nat option"
  mr_replaced_from :: "string option"

record registry =
  rg_alloc_cursor :: "(string, u64) btree"
  rg_network_uuid :: string
  rg_next_node_id :: node_id
  rg_members :: "(node_id, member_record) btree"
  rg_gen_hwm :: u64

definition GEN_PERSIST_STEP :: u64 where "GEN_PERSIST_STEP = 1000"

text \<open>The UUID is drawn at random.\<close>

definition registry_new :: "string \<Rightarrow> registry" where
  "registry_new uuid = \<lparr>rg_alloc_cursor = [], rg_network_uuid = uuid, rg_next_node_id = 1,
     rg_members = [], rg_gen_hwm = 0\<rparr>"

section \<open>Generations\<close>

definition initial_gen :: "registry \<Rightarrow> u64 \<Rightarrow> u64" where
  "initial_gen reg now_ms = max now_ms (rg_gen_hwm reg + GEN_PERSIST_STEP)"

definition note_gen :: "u64 \<Rightarrow> registry \<Rightarrow> bool \<times> registry" where
  "note_gen gen reg =
     (if gen \<ge> rg_gen_hwm reg then (True, reg\<lparr>rg_gen_hwm := gen + GEN_PERSIST_STEP\<rparr>) else (False, reg))"

section \<open>Members\<close>

definition reg_by_name :: "registry \<Rightarrow> string \<Rightarrow> member_record option" where
  "reg_by_name reg name = find (\<lambda>m. mr_name m = name) (map snd (rg_members reg))"

definition reg_id_of :: "registry \<Rightarrow> string \<Rightarrow> node_id option" where
  "reg_id_of reg name = map_option mr_node_id (reg_by_name reg name)"

definition new_record :: "node_id \<Rightarrow> string \<Rightarrow> role \<Rightarrow> nat \<Rightarrow> member_record" where
  "new_record i name r now = \<lparr>mr_node_id = i, mr_name = name, mr_role = r, mr_pubkey = None,
     mr_cert_fp = None, mr_ip4 = None, mr_ip6 = None, mr_routes = [], mr_relay_addr = None,
     mr_disabled = False, mr_created_unix = now, mr_last_join_unix = None, mr_last_join_from = None,
     mr_login_gen = 0, mr_replaced_unix = None, mr_replaced_from = None\<rparr>"

text \<open>\<open>member_mut\<close>, with the change \<open>f\<close> its caller makes to the record it returns.\<close>

definition member_mut ::
    "node_id \<Rightarrow> string \<Rightarrow> role \<Rightarrow> nat \<Rightarrow> (member_record \<Rightarrow> member_record) \<Rightarrow> registry \<Rightarrow> registry" where
  "member_mut i name r now f reg =
     (let rec = (case map_of (rg_members reg) i of Some m \<Rightarrow> m | None \<Rightarrow> new_record i name r now);
          rec = rec\<lparr>mr_name := name, mr_role := r\<rparr>
      in reg\<lparr>rg_next_node_id := max (rg_next_node_id reg) (word_sat_add i 1),
             rg_members := bt_insert i (f rec) (rg_members reg)\<rparr>)"

text \<open>
  The first unused id from \<open>i\<close> on. The loop visits at most one id more than there are members, which
  is the fuel it is given.
\<close>

fun next_unused :: "nat \<Rightarrow> registry \<Rightarrow> node_id \<Rightarrow> node_id" where
  "next_unused 0 reg i = i"
| "next_unused (Suc n) reg i = (if map_of (rg_members reg) i \<noteq> None then next_unused n reg (i + 1) else i)"

definition id_for_name :: "registry \<Rightarrow> string \<Rightarrow> node_id" where
  "id_for_name reg name =
     (case reg_id_of reg name of
        Some i \<Rightarrow> i
      | None \<Rightarrow> next_unused (Suc (length (rg_members reg))) reg (max (rg_next_node_id reg) 1))"

definition member_by_name_mut ::
    "string \<Rightarrow> role \<Rightarrow> nat \<Rightarrow> (member_record \<Rightarrow> member_record) \<Rightarrow> registry \<Rightarrow> registry" where
  "member_by_name_mut name r now f reg = member_mut (id_for_name reg name) name r now f reg"

section \<open>Route registrations\<close>

definition by_cidr_push ::
    "ipnet \<Rightarrow> node_id \<Rightarrow> route_reg \<Rightarrow> (string, ip_net \<times> (node_id \<times> nat) list) btree
      \<Rightarrow> (string, ip_net \<times> (node_id \<times> nat) list) btree" where
  "by_cidr_push I i r m =
     (let key = ipn_to_string I (rr_cidr r);
          (c, regs) = (case map_of m key of Some e \<Rightarrow> e | None \<Rightarrow> (rr_cidr r, []))
      in bt_insert key (c, regs @ [(i, rr_first_granted_unix r)]) m)"

definition reg_resolve_owners :: "ipnet \<Rightarrow> registry \<Rightarrow> (ip_net \<times> (node_id \<times> nat) list) list" where
  "reg_resolve_owners I reg =
     (let by_cidr = fold (\<lambda>(i, rec) m. if mr_disabled rec then m else fold (by_cidr_push I i) (mr_routes rec) m)
            (rg_members reg) [];
          out = map (\<lambda>(_, c, regs). (c, sort_key (\<lambda>(n, t). (t, n)) regs)) by_cidr
      in sort_key (\<lambda>(c, _). ipn_to_string I c) out)"

definition assigned4 :: "registry \<Rightarrow> u32 list" where
  "assigned4 reg = List.map_filter mr_ip4 (map snd (rg_members reg))"

definition assigned6 :: "registry \<Rightarrow> u128 list" where
  "assigned6 reg = List.map_filter mr_ip6 (map snd (rg_members reg))"

section \<open>Well-formed registries\<close>

text \<open>
  Records sit under their own id, no two share a name, and the id counter is past every id in use.
  The last clause leaves out a counter that has reached the end of the 32-bit ids.
\<close>

definition reg_wf :: "registry \<Rightarrow> bool" where
  "reg_wf reg \<longleftrightarrow> bt_wf (rg_members reg)
     \<and> (\<forall>i m. map_of (rg_members reg) i = Some m \<longrightarrow> mr_node_id m = i)
     \<and> (\<forall>i m j n. map_of (rg_members reg) i = Some m \<longrightarrow> map_of (rg_members reg) j = Some n \<longrightarrow>
          mr_name m = mr_name n \<longrightarrow> i = j)
     \<and> (\<forall>i. map_of (rg_members reg) i \<noteq> None \<longrightarrow> i < rg_next_node_id reg \<or> rg_next_node_id reg = - 1)"

lemma reg_wfD:
  assumes "reg_wf reg"
  shows "bt_wf (rg_members reg)" "map_of (rg_members reg) i = Some m \<Longrightarrow> mr_node_id m = i"
    "map_of (rg_members reg) i = Some m \<Longrightarrow> map_of (rg_members reg) j = Some n \<Longrightarrow>
       mr_name m = mr_name n \<Longrightarrow> i = j"
    "map_of (rg_members reg) i = Some m \<Longrightarrow> i < rg_next_node_id reg \<or> rg_next_node_id reg = - 1"
  using assms by (auto simp: reg_wf_def)

lemma bt_member_iff: "bt_wf m \<Longrightarrow> (k, v) \<in> set m \<longleftrightarrow> map_of m k = Some v"
  by (simp add: bt_wf_distinct)

lemma snd_set_members: "bt_wf m \<Longrightarrow> v \<in> snd ` set m \<longleftrightarrow> (\<exists>k. map_of m k = Some v)"
  by (force simp: bt_member_iff [symmetric])

lemma find_SomeD: "find P xs = Some x \<Longrightarrow> x \<in> set xs \<and> P x"
  by (induction xs) (auto split: if_splits)

lemma reg_by_nameD:
  assumes "reg_wf reg" and "reg_by_name reg name = Some m"
  shows "map_of (rg_members reg) (mr_node_id m) = Some m" "mr_name m = name"
proof -
  have "m \<in> snd ` set (rg_members reg)" and name: "mr_name m = name"
    using find_SomeD [OF assms(2) [unfolded reg_by_name_def]] by auto
  then obtain k where k: "map_of (rg_members reg) k = Some m"
    using snd_set_members [OF reg_wfD(1) [OF assms(1)]] by blast
  with reg_wfD(2) [OF assms(1) k] show "map_of (rg_members reg) (mr_node_id m) = Some m" by simp
  show "mr_name m = name" by (rule name)
qed

lemma reg_by_name_None:
  assumes "reg_wf reg"
  shows "reg_by_name reg name = None \<longleftrightarrow> (\<forall>i m. map_of (rg_members reg) i = Some m \<longrightarrow> mr_name m \<noteq> name)"
proof -
  have "bt_wf (rg_members reg)" using assms by (simp add: reg_wf_def)
  have "reg_by_name reg name = None \<longleftrightarrow> (\<forall>m \<in> snd ` set (rg_members reg). mr_name m \<noteq> name)"
    by (auto simp: reg_by_name_def find_None_iff)
  then show ?thesis using snd_set_members [OF \<open>bt_wf (rg_members reg)\<close>] by blast
qed

lemma reg_by_name_iff:
  assumes "reg_wf reg"
  shows "reg_by_name reg name = Some m \<longleftrightarrow> map_of (rg_members reg) (mr_node_id m) = Some m \<and> mr_name m = name"
proof
  assume m: "map_of (rg_members reg) (mr_node_id m) = Some m \<and> mr_name m = name"
  then obtain n where n: "reg_by_name reg name = Some n"
    using reg_by_name_None [OF assms, of name] by blast
  have "mr_node_id n = mr_node_id m"
    using reg_by_nameD(2) [OF assms n] m
    by (intro reg_wfD(3) [OF assms reg_by_nameD(1) [OF assms n]]) auto
  then have "n = m" using reg_by_nameD(1) [OF assms n] m by (metis option.inject)
  with n show "reg_by_name reg name = Some m" by blast
qed (use reg_by_nameD [OF assms] in blast)

section \<open>The search for an unused id\<close>

lemma next_unused_taken:
  "map_of (rg_members reg) (next_unused n reg i) \<noteq> None \<Longrightarrow> k \<le> n \<Longrightarrow>
     map_of (rg_members reg) (i + of_nat k) \<noteq> None"
proof (induction n arbitrary: i k)
  case (Suc n)
  show ?case
  proof (cases k)
    case 0
    with Suc.prems show ?thesis by (auto split: if_splits)
  next
    case (Suc j)
    have "map_of (rg_members reg) i \<noteq> None" using Suc.prems by (auto split: if_splits)
    with Suc.prems Suc have "map_of (rg_members reg) ((i + 1) + of_nat j) \<noteq> None"
      by (intro Suc.IH) auto
    then show ?thesis by (simp add: Suc ac_simps)
  qed
qed auto

lemma next_unused_free:
  assumes "length (rg_members reg) < 2 ^ 32"
  shows "map_of (rg_members reg) (next_unused (Suc (length (rg_members reg))) reg i) = None"
proof (rule ccontr)
  let ?L = "length (rg_members reg)"
  assume "\<not> ?thesis"
  then have "(\<lambda>k. i + of_nat k) ` {..?L} \<subseteq> dom (map_of (rg_members reg))"
    using next_unused_taken [of reg "Suc ?L" i] by (auto simp: dom_def)
  then have "card ((\<lambda>k. i + of_nat k) ` {..?L}) \<le> card (dom (map_of (rg_members reg)))"
    by (intro card_mono) (simp_all add: finite_dom_map_of)
  also have "\<dots> \<le> ?L" by (metis card_length dom_map_of_conv_image_fst length_map list.set_map)
  also have "card ((\<lambda>k. i + of_nat k) ` {..?L}) = Suc ?L"
  proof -
    have "inj_on (\<lambda>k. i + of_nat k) {..?L}"
    proof (rule inj_onI)
      fix x y assume xy: "x \<in> {..?L}" "y \<in> {..?L}" and eq: "i + of_nat x = i + (of_nat y :: node_id)"
      have "unat (of_nat x :: node_id) = x" "unat (of_nat y :: node_id) = y"
        using xy assms by (simp_all add: unat_of_nat)
      with eq show "x = y" by (metis add_left_cancel)
    qed
    then show ?thesis by (simp add: card_image)
  qed
  finally show False by simp
qed

lemma id_for_name_known:
  "reg_by_name reg name = Some m \<Longrightarrow> id_for_name reg name = mr_node_id m"
  by (simp add: id_for_name_def reg_id_of_def)

lemma id_for_name_new:
  assumes "reg_wf reg" and "reg_by_name reg name = None" and "rg_next_node_id reg \<noteq> - 1"
  shows "id_for_name reg name = max (rg_next_node_id reg) 1"
proof -
  have "\<not> max (rg_next_node_id reg) 1 < rg_next_node_id reg" by simp
  then have "map_of (rg_members reg) (max (rg_next_node_id reg) 1) = None"
    using assms(1,3) unfolding reg_wf_def by blast
  with assms(2) show ?thesis by (simp add: id_for_name_def reg_id_of_def)
qed

section \<open>Updates\<close>

lemma sat_succ: "i < word_sat_add i 1 \<or> word_sat_add i (1 :: 'a::len word) = - 1"
proof (cases "unat i + unat (1 :: 'a word) < 2 ^ LENGTH('a)")
  case True
  then have "i < i + 1" by (simp add: word_less_nat_alt unat_word_ariths)
  with True show ?thesis by (simp add: word_sat_add_def)
qed (simp add: word_sat_add_def)

text \<open>The record a join works on: the member's own, or a new one under the id it is given.\<close>

definition record_for :: "registry \<Rightarrow> string \<Rightarrow> role \<Rightarrow> nat \<Rightarrow> member_record" where
  "record_for reg name r now =
     (case map_of (rg_members reg) (id_for_name reg name) of
        Some m \<Rightarrow> m\<lparr>mr_name := name, mr_role := r\<rparr>
      | None \<Rightarrow> (new_record (id_for_name reg name) name r now)\<lparr>mr_name := name, mr_role := r\<rparr>)"

lemma member_by_name_mut_eq:
  "member_by_name_mut name r now f reg =
     reg\<lparr>rg_next_node_id := max (rg_next_node_id reg) (word_sat_add (id_for_name reg name) 1),
         rg_members := bt_insert (id_for_name reg name) (f (record_for reg name r now)) (rg_members reg)\<rparr>"
  by (simp add: member_by_name_mut_def member_mut_def record_for_def Let_def split: option.split)

lemma record_for_name [simp]: "mr_name (record_for reg name r now) = name"
  by (simp add: record_for_def split: option.split)

lemma record_for_id: "reg_wf reg \<Longrightarrow> mr_node_id (record_for reg name r now) = id_for_name reg name"
  by (auto simp: record_for_def new_record_def reg_wfD(2) split: option.split)

text \<open>Whatever record of the registry carries the name already sits under the id it is given.\<close>

lemma id_for_name_unique:
  assumes "reg_wf reg" and "map_of (rg_members reg) j = Some m" and "mr_name m = name"
  shows "id_for_name reg name = j"
proof -
  have "reg_by_name reg name = Some m"
    using assms reg_wfD(2) [OF assms(1,2)] by (simp add: reg_by_name_iff)
  then show ?thesis using id_for_name_known reg_wfD(2) [OF assms(1,2)] by metis
qed

lemma id_for_name_held:
  assumes "reg_wf reg" and "rg_next_node_id reg \<noteq> - 1"
    and "map_of (rg_members reg) (id_for_name reg name) = Some m"
  shows "reg_by_name reg name = Some m"
proof (cases "reg_by_name reg name")
  case None
  have "\<not> max (rg_next_node_id reg) 1 < rg_next_node_id reg" by simp
  then show ?thesis
    using id_for_name_new [OF assms(1) None assms(2)] reg_wfD(4) [OF assms(1,3)] assms(2) by simp
next
  case (Some n)
  then show ?thesis
    using id_for_name_known [OF Some] reg_by_nameD(1) [OF assms(1) Some] assms(3) by simp
qed

lemma reg_wf_member_by_name:
  assumes "reg_wf reg" and "rg_next_node_id reg \<noteq> - 1"
    and "\<And>m. mr_name (f m) = mr_name m" and "\<And>m. mr_node_id (f m) = mr_node_id m"
  shows "reg_wf (member_by_name_mut name r now f reg)"
proof -
  let ?i = "id_for_name reg name" and ?m = "f (record_for reg name r now)"
  have id: "mr_node_id ?m = ?i" using record_for_id [OF assms(1)] assms(4) by simp
  have names: "j = ?i" if "map_of (rg_members reg) j = Some n" "mr_name n = name" for j n
    using id_for_name_unique [OF assms(1) that] by simp
  have next_id: "j < max (rg_next_node_id reg) (word_sat_add ?i 1) \<or> max (rg_next_node_id reg) (word_sat_add ?i 1) = - 1"
    if "j = ?i \<or> map_of (rg_members reg) j \<noteq> None" for j
    using that sat_succ [of ?i] reg_wfD(4) [OF assms(1)] assms(2)
    by (metis less_max_iff_disj max.cobounded2 option.exhaust word_order.extremum_uniqueI)
  show ?thesis
    unfolding reg_wf_def member_by_name_mut_eq
    using reg_wfD [OF assms(1)] id names next_id assms(3)
    by (simp add: map_upd_Some_unfold) blast
qed

lemma reg_wf_update:
  assumes "reg_wf reg" and "map_of (rg_members reg) i = Some m"
    and "mr_name m' = mr_name m" and "mr_node_id m' = mr_node_id m"
  shows "reg_wf (reg\<lparr>rg_members := bt_insert i m' (rg_members reg)\<rparr>)"
  unfolding reg_wf_def using reg_wfD [OF assms(1)] assms(2-4)
  by (simp add: map_upd_Some_unfold) blast

lemma reg_wf_remove: "reg_wf reg \<Longrightarrow> reg_wf (reg\<lparr>rg_members := bt_remove i (rg_members reg)\<rparr>)"
  unfolding reg_wf_def by (simp add: fun_upd_def)

lemma reg_wf_new: "reg_wf (registry_new uuid)"
  by (simp add: reg_wf_def registry_new_def)

lemma reg_wf_cursor [simp]:
  "reg_wf (reg\<lparr>rg_alloc_cursor := c\<rparr>) = reg_wf reg" "reg_wf (reg\<lparr>rg_gen_hwm := g\<rparr>) = reg_wf reg"
  by (simp_all add: reg_wf_def)

section \<open>Generations across restarts\<close>

definition note_gens :: "u64 list \<Rightarrow> registry \<Rightarrow> registry" where
  "note_gens gens reg = fold (\<lambda>g r. snd (note_gen g r)) gens reg"

lemma add_step:
  "g < 2 ^ 63 \<Longrightarrow> g < g + GEN_PERSIST_STEP \<and> g + GEN_PERSIST_STEP < 2 ^ 63 + GEN_PERSIST_STEP"
  by (simp add: GEN_PERSIST_STEP_def word_less_nat_alt unat_word_ariths)

lemma note_gens_mark:
  assumes "\<forall>g \<in> set gens. g < 2 ^ 63" and "rg_gen_hwm reg < 2 ^ 63 + GEN_PERSIST_STEP"
  shows "rg_gen_hwm reg \<le> rg_gen_hwm (note_gens gens reg)
    \<and> rg_gen_hwm (note_gens gens reg) < 2 ^ 63 + GEN_PERSIST_STEP
    \<and> (\<forall>g \<in> set gens. g < rg_gen_hwm (note_gens gens reg))"
  using assms
proof (induction gens arbitrary: reg)
  case (Cons g gens)
  let ?r = "snd (note_gen g reg)"
  have g: "g < g + GEN_PERSIST_STEP" "g + GEN_PERSIST_STEP < 2 ^ 63 + GEN_PERSIST_STEP"
    using add_step Cons.prems(1) by simp_all
  have "g < rg_gen_hwm ?r" "rg_gen_hwm reg \<le> rg_gen_hwm ?r" "rg_gen_hwm ?r < 2 ^ 63 + GEN_PERSIST_STEP"
    using g Cons.prems(2) by (auto simp: note_gen_def not_le)
  with Cons.IH [of ?r] Cons.prems show ?case
    by (auto simp: note_gens_def intro: order.trans less_le_trans)
qed (simp add: note_gens_def)

section \<open>Properties\<close>



text \<open>
  C40. The search for an id ends on an unused one: with fewer than 2 to the 32 members, looking at one id more
  than there are members is enough, from whatever id the search starts and wherever it wraps around.
\<close>

theorem unused_id_found:
  assumes "length (rg_members reg) < 2 ^ 32"
  shows "map_of (rg_members reg) (next_unused (Suc (length (rg_members reg))) reg i) = None"
  by (rule next_unused_free [OF assms])

theorem unused_id_found_witness:
  "next_unused 2 ((registry_new ''u'')\<lparr>rg_members := [(- 1, new_record (- 1) ''a'' Client 0)]\<rparr>) (- 1) = 0
   \<and> map_of [(- 1 :: node_id, ())] 0 = None"
  using unused_id_found [of "(registry_new ''u'')\<lparr>rg_members := [(- 1, new_record (- 1) ''a'' Client 0)]\<rparr>" "- 1"]
  by (simp add: numeral_2_eq_2)

end
