(* ===== verification/Nq_Ipam.thy ===== *)
theory Nq_Ipam
  imports Nq_Registry Nq_Leases
begin

text \<open>
  Address allocation (\<open>crates/nqvpn-coord/src/ipam.rs\<close>): static reservations, dynamic addresses that
  follow their member, the scan from a cursor, and the reclaim of an abandoned address when a range is
  full. The clock is an argument. Index arithmetic in a range is on natural numbers: a range has at
  most 2 to the 32 indices, so the 64-bit sums of the sources do not wrap.
\<close>

section \<open>The scan\<close>

text \<open>\<open>k\<close> steps are left, \<open>step\<close> were made.\<close>

fun scan_steps :: "nat \<Rightarrow> nat \<Rightarrow> (nat \<Rightarrow> 'a) \<Rightarrow> 'a set \<Rightarrow> nat \<Rightarrow> nat \<Rightarrow> ('a \<times> nat) option" where
  "scan_steps n start at taken 0 step = None"
| "scan_steps n start at taken (Suc k) step =
     (let idx = (start + step) mod n; cand = at idx in
      if cand \<notin> taken then Some (cand, (idx + 1) mod n)
      else scan_steps n start at taken k (step + 1))"

definition scan_from_cursor :: "nat \<Rightarrow> (nat \<Rightarrow> 'a) \<Rightarrow> 'a set \<Rightarrow> nat \<Rightarrow> ('a \<times> nat) option" where
  "scan_from_cursor n at taken cursor =
     (if n = 0 then None else scan_steps n (cursor mod n) at taken n 0)"

text \<open>The 32 bits of an IPv4 address and the 128 of an IPv6 one; each is used on its own family only.\<close>

fun v4_bits :: "ip_addr \<Rightarrow> u32" where
  "v4_bits (A4 a) = a"
| "v4_bits (A6 _) = 0"

fun v6_bits :: "ip_addr \<Rightarrow> u128" where
  "v6_bits (A6 a) = a"
| "v6_bits (A4 _) = 0"

text \<open>The number of hosts from the first to the last address of a range, and the first host.\<close>

definition host_span :: "bool \<Rightarrow> u32 \<Rightarrow> u32 \<Rightarrow> nat \<times> u32" where
  "host_span whole first last_ip =
     (if whole then (unat (last_ip - first) + 1, first) else (unat (last_ip - first) - 1, first + 1))"

definition v4_hosts :: "ipnet \<Rightarrow> ip_net \<Rightarrow> nat \<times> u32" where
  "v4_hosts I net =
     host_span (prefix_len net \<ge> 31) (v4_bits (ipn_network I net)) (v4_bits (ipn_broadcast I net))"

section \<open>Reclaiming\<close>

definition last_joined :: "member_record \<Rightarrow> nat" where
  "last_joined rec = (case mr_last_join_unix rec of Some t \<Rightarrow> t | None \<Rightarrow> mr_created_unix rec)"

definition abandoned ::
    "network_config \<Rightarrow> leases \<Rightarrow> (node_id, node_id) btree \<Rightarrow> nat \<Rightarrow> string \<Rightarrow> node_id \<times> member_record \<Rightarrow> bool" where
  "abandoned cfg l attached now member = (\<lambda>(i, rec).
     mr_name rec \<noteq> member \<and> mr_role rec = Client \<and> \<not> leases_is_online l i \<and> map_of attached i = None
     \<and> member_by_name cfg (mr_name rec) \<noteq> None
     \<and> (leases_offline_since l i \<noteq> None
        \<or> sat_add64 (last_joined rec) (liveness_window_secs (nc_settings cfg)) \<le> now))"

definition reclaim_key :: "leases \<Rightarrow> node_id \<times> member_record \<times> 'a \<Rightarrow> nat \<times> node_id" where
  "reclaim_key l = (\<lambda>(i, rec, _).
     (case leases_offline_since l i of Some t \<Rightarrow> t | None \<Rightarrow> sat_mul64 (last_joined rec) 1000, i))"

definition reclaim_candidates ::
    "network_config \<Rightarrow> registry \<Rightarrow> leases \<Rightarrow> nat \<Rightarrow> string \<Rightarrow> 'a set \<Rightarrow> (member_record \<Rightarrow> 'a option)
      \<Rightarrow> ('a \<Rightarrow> bool) \<Rightarrow> (node_id \<times> member_record \<times> 'a) list" where
  "reclaim_candidates cfg reg l now member hard address eligible =
     filter (\<lambda>(_, _, ip). ip \<notin> hard \<and> eligible ip)
       (List.map_filter (\<lambda>(i, rec). map_option (\<lambda>ip. (i, rec, ip)) (address rec))
         (filter (abandoned cfg l (leases_attachments l) now member) (rg_members reg)))"

text \<open>\<open>min_by_key\<close> returns the first of the least elements, as \<open>arg_min_list\<close> does.\<close>

definition reclaimable ::
    "network_config \<Rightarrow> registry \<Rightarrow> leases option \<Rightarrow> nat \<Rightarrow> string \<Rightarrow> 'a set \<Rightarrow> (member_record \<Rightarrow> 'a option)
      \<Rightarrow> ('a \<Rightarrow> bool) \<Rightarrow> (node_id \<times> 'a) option" where
  "reclaimable cfg reg leases now member hard address eligible =
     (case leases of
        None \<Rightarrow> None
      | Some l \<Rightarrow>
          let cands = reclaim_candidates cfg reg l now member hard address eligible in
          if cands = [] then None
          else (let (i, _, ip) = arg_min_list (reclaim_key l) cands in Some (i, ip)))"

text \<open>
  The victim loses the address, and its login generation goes up so that relays reject the credential
  that still claims it.
\<close>

definition take_from :: "(member_record \<Rightarrow> member_record) \<Rightarrow> node_id \<Rightarrow> registry \<Rightarrow> registry" where
  "take_from clear victim reg =
     (case map_of (rg_members reg) victim of
        Some rec \<Rightarrow>
          let rec = clear rec; rec = rec\<lparr>mr_login_gen := word_sat_add (mr_login_gen rec) 1\<rparr>
          in reg\<lparr>rg_members := bt_insert victim rec (rg_members reg)\<rparr>
      | None \<Rightarrow> reg)"

section \<open>Allocation in a range\<close>

definition cursor_of :: "string \<Rightarrow> registry \<Rightarrow> nat" where
  "cursor_of key reg = (case map_of (rg_alloc_cursor reg) key of Some c \<Rightarrow> unat c | None \<Rightarrow> 0)"

definition set_cursor :: "string \<Rightarrow> nat \<Rightarrow> registry \<Rightarrow> registry" where
  "set_cursor key c reg = reg\<lparr>rg_alloc_cursor := bt_insert key (of_nat c) (rg_alloc_cursor reg)\<rparr>"

definition alloc_v4 ::
    "ipnet \<Rightarrow> network_config \<Rightarrow> registry \<Rightarrow> u32 set \<Rightarrow> u32 set \<Rightarrow> leases option \<Rightarrow> nat \<Rightarrow> string
      \<Rightarrow> api_error + u32 option \<times> registry" where
  "alloc_v4 I cfg reg taken hard reclaim now member =
     (case ipv4_cidr cfg of
        None \<Rightarrow> Inl Panicked
      | Some v4net \<Rightarrow>
          (case v4_hosts I v4net of (n, first) \<Rightarrow>
             case scan_from_cursor n (\<lambda>i. first + of_nat i) taken (cursor_of ''ipv4'' reg) of
               Some (ip, next_idx) \<Rightarrow> Inr (Some ip, set_cursor ''ipv4'' next_idx reg)
             | None \<Rightarrow>
               (case reclaimable cfg reg reclaim now member hard mr_ip4 (\<lambda>ip. ipn_contains I v4net (A4 ip)) of
                  Some (victim, ip) \<Rightarrow> Inr (Some ip, take_from (\<lambda>r. r\<lparr>mr_ip4 := None\<rparr>) victim reg)
                | None \<Rightarrow> Inl address_space_exhausted)))"

definition V6_SCAN_CAP :: nat where "V6_SCAN_CAP = 100000"

text \<open>
  \<open>network + 1\<close> wraps for the range that consists of the last IPv6 address only; \<open>last - first + 1\<close>
  then wraps to zero as well and the scan is empty.
\<close>

definition v6_span :: "u128 \<Rightarrow> u128 \<Rightarrow> nat" where
  "v6_span first last_ip = (if last_ip \<ge> first then min (unat (last_ip - first + 1)) V6_SCAN_CAP else 0)"

definition v6_scan :: "u128 \<Rightarrow> u128 \<Rightarrow> u128 set \<Rightarrow> nat \<Rightarrow> (u128 \<times> nat) option" where
  "v6_scan first last_ip = scan_from_cursor (v6_span first last_ip) (\<lambda>i. first + of_nat i)"

definition alloc_v6 ::
    "ipnet \<Rightarrow> network_config \<Rightarrow> registry \<Rightarrow> u128 set \<Rightarrow> u128 set \<Rightarrow> leases option \<Rightarrow> nat \<Rightarrow> string
      \<Rightarrow> api_error + u128 option \<times> registry" where
  "alloc_v6 I cfg reg taken hard reclaim now member =
     (case ipv6_cidr cfg of
        None \<Rightarrow> Inr (None, reg)
      | Some v6net \<Rightarrow>
          (case v6_scan (v6_bits (ipn_network I v6net) + 1) (v6_bits (ipn_broadcast I v6net)) taken
                  (cursor_of ''ipv6'' reg) of
             Some (ip, next_idx) \<Rightarrow> Inr (Some ip, set_cursor ''ipv6'' next_idx reg)
           | None \<Rightarrow>
             (case reclaimable cfg reg reclaim now member hard mr_ip6 (\<lambda>ip. ipn_contains I v6net (A6 ip)) of
                Some (victim, ip) \<Rightarrow> Inr (Some ip, take_from (\<lambda>r. r\<lparr>mr_ip6 := None\<rparr>) victim reg)
              | None \<Rightarrow> Inr (None, reg))))"

section \<open>Allocation for a member\<close>

record granted =
  gr_ip4 :: "u32 option"
  gr_ip6 :: "u128 option"

definition check_in_network :: "ipnet \<Rightarrow> network_config \<Rightarrow> ip_addr \<Rightarrow> api_error + unit" where
  "check_in_network I cfg ip =
     (if is_loopback ip \<or> is_unspecified ip \<or> is_multicast ip \<or> is_broadcast ip then Inl bad_request
      else if \<not> in_tunnel I cfg ip then Inl bad_request
      else Inr ())"

definition dynamic_address_allowed :: "ipnet \<Rightarrow> network_config \<Rightarrow> ip_addr \<Rightarrow> bool" where
  "dynamic_address_allowed I cfg ip = in_tunnel I cfg ip"

definition hard_of :: "(member_cfg \<Rightarrow> 'a option) \<Rightarrow> network_config \<Rightarrow> 'a set" where
  "hard_of static cfg = set (List.map_filter (\<lambda>(_, m, _). static m) (cfg_members cfg))"

text \<open>Every address reserved for a member other than this one, dynamic or static.\<close>

definition taken_of ::
    "(member_record \<Rightarrow> 'a option) \<Rightarrow> (member_cfg \<Rightarrow> 'a option) \<Rightarrow> network_config \<Rightarrow> registry \<Rightarrow> string \<Rightarrow> 'a set" where
  "taken_of address static cfg reg member =
     set (List.map_filter address (filter (\<lambda>r. mr_name r \<noteq> member) (map snd (rg_members reg))))
     \<union> set (List.map_filter (\<lambda>(_, m, _). static m) (filter (\<lambda>(n, _, _). n \<noteq> member) (cfg_members cfg)))"

definition check_wanted :: "ipnet \<Rightarrow> network_config \<Rightarrow> ('a \<Rightarrow> ip_addr) \<Rightarrow> 'a set \<Rightarrow> 'a option \<Rightarrow> api_error + unit" where
  "check_wanted I cfg family taken want =
     (case want of
        None \<Rightarrow> Inr ()
      | Some ip \<Rightarrow> res_bind (check_in_network I cfg (family ip)) (\<lambda>_. ensure (ip \<notin> taken) address_in_use))"

definition or_else :: "'a option \<Rightarrow> 'a option \<Rightarrow> 'a option" where
  "or_else a b = (case a of Some x \<Rightarrow> Some x | None \<Rightarrow> b)"

definition grant_v4 ::
    "ipnet \<Rightarrow> network_config \<Rightarrow> registry \<Rightarrow> leases option \<Rightarrow> nat \<Rightarrow> string \<Rightarrow> u32 option
      \<Rightarrow> api_error + u32 option \<times> registry" where
  "grant_v4 I cfg reg reclaim now member want =
     (if want \<noteq> None then Inr (want, reg)
      else if (case Option.bind (reg_by_name reg member) mr_ip4 of
                 Some ip \<Rightarrow> dynamic_address_allowed I cfg (A4 ip) | None \<Rightarrow> False)
        then Inr (Option.bind (reg_by_name reg member) mr_ip4, reg)
      else alloc_v4 I cfg reg (taken_of mr_ip4 mc_preferred_ip4 cfg reg member)
             (hard_of mc_preferred_ip4 cfg) reclaim now member)"

text \<open>
  \<open>before\<close> is the registry the function started from: the current address and the taken ones are read
  there, ahead of the IPv4 allocation.
\<close>

definition grant_v6 ::
    "ipnet \<Rightarrow> network_config \<Rightarrow> registry \<Rightarrow> registry \<Rightarrow> leases option \<Rightarrow> nat \<Rightarrow> string \<Rightarrow> u128 option
      \<Rightarrow> u128 option \<times> registry" where
  "grant_v6 I cfg before reg reclaim now member want =
     (if want \<noteq> None then (want, reg)
      else if (case Option.bind (reg_by_name before member) mr_ip6 of
                 Some ip \<Rightarrow> dynamic_address_allowed I cfg (A6 ip) | None \<Rightarrow> False)
        then (Option.bind (reg_by_name before member) mr_ip6, reg)
      else if \<exists>c \<in> set (nc_cidrs cfg). \<not> is_v4 c
        then (case alloc_v6 I cfg reg (taken_of mr_ip6 mc_preferred_ip6 cfg before member)
                (hard_of mc_preferred_ip6 cfg) reclaim now member of Inr r \<Rightarrow> r | Inl _ \<Rightarrow> (None, reg))
      else (None, reg))"

definition allocate_inner ::
    "ipnet \<Rightarrow> network_config \<Rightarrow> registry \<Rightarrow> leases option \<Rightarrow> nat \<Rightarrow> string \<Rightarrow> u32 option \<Rightarrow> u128 option
      \<Rightarrow> api_error + granted \<times> registry" where
  "allocate_inner I cfg reg reclaim now member preferred4 preferred6 =
     (case member_by_name cfg member of
        None \<Rightarrow> Inl api_not_found
      | Some (member_cfg, _) \<Rightarrow>
          let want4 = or_else preferred4 (mc_preferred_ip4 member_cfg);
              want6 = or_else preferred6 (mc_preferred_ip6 member_cfg)
          in res_bind (check_wanted I cfg A4 (taken_of mr_ip4 mc_preferred_ip4 cfg reg member) want4) (\<lambda>_.
             res_bind (check_wanted I cfg A6 (taken_of mr_ip6 mc_preferred_ip6 cfg reg member) want6) (\<lambda>_.
             res_bind (grant_v4 I cfg reg reclaim now member want4) (\<lambda>(ip4, reg4).
             let (ip6, reg6) = grant_v6 I cfg reg reg4 reclaim now member want6
             in Inr (\<lparr>gr_ip4 = ip4, gr_ip6 = ip6\<rparr>, reg6)))))"

definition allocate ::
    "ipnet \<Rightarrow> network_config \<Rightarrow> registry \<Rightarrow> nat \<Rightarrow> string \<Rightarrow> u32 option \<Rightarrow> u128 option
      \<Rightarrow> api_error + granted \<times> registry" where
  "allocate I cfg reg now member = allocate_inner I cfg reg None now member"

definition allocate_for_join ::
    "ipnet \<Rightarrow> network_config \<Rightarrow> registry \<Rightarrow> leases \<Rightarrow> bool \<Rightarrow> nat \<Rightarrow> string \<Rightarrow> u32 option \<Rightarrow> u128 option
      \<Rightarrow> api_error + granted \<times> registry" where
  "allocate_for_join I cfg reg leases allow_reclaim now member =
     allocate_inner I cfg reg (if allow_reclaim then Some leases else None) now member"

section \<open>What the scan finds\<close>

lemma scan_steps_Some:
  "scan_steps n start at taken k step = Some (a, next_idx) \<Longrightarrow> 0 < n \<Longrightarrow>
     a \<notin> taken \<and> next_idx < n \<and> (\<exists>i < n. a = at i)"
  by (induction k arbitrary: step) (auto simp: Let_def split: if_splits intro: mod_less_divisor)

lemma scan_steps_None:
  "scan_steps n start at taken k step = None \<Longrightarrow> step \<le> j \<Longrightarrow> j < step + k \<Longrightarrow>
     at ((start + j) mod n) \<in> taken"
proof (induction k arbitrary: step)
  case (Suc k)
  then show ?case by (cases "j = step") (auto simp: Let_def split: if_splits)
qed simp

lemma scan_Some:
  "scan_from_cursor n at taken cursor = Some (a, next_idx) \<Longrightarrow>
     a \<notin> taken \<and> next_idx < n \<and> (\<exists>i < n. a = at i)"
  by (auto simp: scan_from_cursor_def split: if_splits dest: scan_steps_Some)

text \<open>Every index of the range is visited, wherever the scan starts.\<close>

lemma wrapped_index:
  assumes "i < (n :: nat)" and "start < n"
  shows "\<exists>j < n. (start + j) mod n = i"
proof (cases "start \<le> i")
  case True
  with assms show ?thesis by (intro exI [of _ "i - start"]) auto
next
  case False
  with assms show ?thesis by (intro exI [of _ "n + i - start"]) auto
qed

lemma scan_None: "scan_from_cursor n at taken cursor = None \<longleftrightarrow> (\<forall>i < n. at i \<in> taken)"
proof
  assume none: "scan_from_cursor n at taken cursor = None"
  show "\<forall>i < n. at i \<in> taken"
  proof (intro allI impI)
    fix i assume "i < n"
    then obtain j where "j < n" "(cursor mod n + j) mod n = i"
      using wrapped_index [of i n "cursor mod n"] by auto
    with none scan_steps_None [of n "cursor mod n" at taken n 0 j] \<open>i < n\<close> show "at i \<in> taken"
      by (auto simp: scan_from_cursor_def)
  qed
next
  assume all: "\<forall>i < n. at i \<in> taken"
  show "scan_from_cursor n at taken cursor = None"
  proof (rule ccontr)
    assume "scan_from_cursor n at taken cursor \<noteq> None"
    then obtain a m where "scan_from_cursor n at taken cursor = Some (a, m)" by auto
    with scan_Some [OF this] all show False by blast
  qed
qed

section \<open>Ranges\<close>

lemma range_v4:
  assumes "ipnet_ok I" and "is_v4 net"
  obtains x y where "ipn_network I net = A4 x" "ipn_broadcast I net = A4 y" "x \<le> y"
    "\<And>a. ipn_contains I net (A4 a) \<longleftrightarrow> x \<le> a \<and> a \<le> y"
proof -
  obtain b l where net: "net = V4 b l" using assms(2) by (cases net) auto
  have le: "addr_le (ipn_network I net) (net_addr net)" "addr_le (net_addr net) (ipn_broadcast I net)"
    using assms(1) by (simp_all add: ipnet_ok_def)
  obtain x where x: "ipn_network I net = A4 x" "x \<le> b" using le(1) net by (cases "ipn_network I net") auto
  obtain y where y: "ipn_broadcast I net = A4 y" "b \<le> y" using le(2) net by (cases "ipn_broadcast I net") auto
  have "ipn_contains I net (A4 a) \<longleftrightarrow> x \<le> a \<and> a \<le> y" for a
    using contains_range [OF assms(1)] x(1) y(1) by simp
  with x y that show ?thesis by force
qed

lemma range_v6:
  assumes "ipnet_ok I" and "\<not> is_v4 net"
  obtains x y where "ipn_network I net = A6 x" "ipn_broadcast I net = A6 y" "x \<le> y"
    "\<And>a. ipn_contains I net (A6 a) \<longleftrightarrow> x \<le> a \<and> a \<le> y"
proof -
  obtain b l where net: "net = V6 b l" using assms(2) by (cases net) auto
  have le: "addr_le (ipn_network I net) (net_addr net)" "addr_le (net_addr net) (ipn_broadcast I net)"
    using assms(1) by (simp_all add: ipnet_ok_def)
  obtain x where x: "ipn_network I net = A6 x" "x \<le> b" using le(1) net by (cases "ipn_network I net") auto
  obtain y where y: "ipn_broadcast I net = A6 y" "b \<le> y" using le(2) net by (cases "ipn_broadcast I net") auto
  have "ipn_contains I net (A6 a) \<longleftrightarrow> x \<le> a \<and> a \<le> y" for a
    using contains_range [OF assms(1)] x(1) y(1) by simp
  with x y that show ?thesis by force
qed

lemma word_range:
  fixes x y :: "'a::len word"
  assumes "x \<le> y"
  shows "(\<exists>i < unat (y - x) + 1. a = x + of_nat i) \<longleftrightarrow> x \<le> a \<and> a \<le> y"
proof
  assume "\<exists>i < unat (y - x) + 1. a = x + of_nat i"
  then obtain i where i: "i \<le> unat (y - x)" "a = x + of_nat i" by (auto simp only: Suc_eq_plus1 [symmetric] less_Suc_eq_le)
  have u: "unat (y - x) = unat y - unat x" using assms by (simp add: unat_sub)
  have "unat x + i < 2 ^ LENGTH('a)"
    using i(1) u assms [unfolded word_le_nat_alt] unsigned_less [of y, where ?'a = nat] by linarith
  then have "unat a = unat x + i"
    using i by (simp add: unat_word_ariths unat_of_nat mod_less)
  with i(1) u assms show "x \<le> a \<and> a \<le> y" by (simp add: word_le_nat_alt)
next
  assume a: "x \<le> a \<and> a \<le> y"
  then have "unat (a - x) < unat (y - x) + 1" 
    using assms by (auto simp: unat_sub word_le_nat_alt)
  then show "\<exists>i < unat (y - x) + 1. a = x + of_nat i" by (intro exI [of _ "unat (a - x)"]) simp
qed

lemma word_range_open:
  fixes x y :: "'a::len word"
  assumes "x \<le> y"
  shows "(\<exists>i < unat (y - x) - 1. a = x + 1 + of_nat i) \<longleftrightarrow> x < a \<and> a < y"
proof
  assume "\<exists>i < unat (y - x) - 1. a = x + 1 + of_nat i"
  then obtain i where i: "i < unat (y - x) - 1" "a = x + of_nat (Suc i)" by (auto simp: ac_simps)
  have u: "unat (y - x) = unat y - unat x" using assms by (simp add: unat_sub)
  have "unat x + Suc i < 2 ^ LENGTH('a)"
    using i(1) u unsigned_less [of y, where ?'a = nat] by linarith
  then have "unat a = unat x + Suc i"
    unfolding i(2) by (simp add: unat_word_ariths unat_of_nat mod_less del: of_nat_Suc)
  with i(1) u show "x < a \<and> a < y" by (simp add: word_less_nat_alt)
next
  assume a: "x < a \<and> a < y"
  have "unat (a - x) = unat a - unat x" "unat (y - x) = unat y - unat x"
    using a assms by (simp_all add: unat_sub order_less_imp_le)
  then have pos: "unat (a - x) - 1 < unat (y - x) - 1" "0 < unat (a - x)"
    using a unfolding word_less_nat_alt by linarith+
  have "of_nat (unat (a - x) - 1) = a - x - (1 :: 'a word)" using pos(2) by (simp add: of_nat_diff)
  with pos(1) show "\<exists>i < unat (y - x) - 1. a = x + 1 + of_nat i"
    by (intro exI [of _ "unat (a - x) - 1"]) simp
qed

text \<open>The hosts of a range: all of it, less the two ends where the prefix is shorter than 31.\<close>

definition is_host4 :: "ipnet \<Rightarrow> ip_net \<Rightarrow> u32 \<Rightarrow> bool" where
  "is_host4 I net a \<longleftrightarrow> ipn_contains I net (A4 a)
     \<and> (prefix_len net < 31 \<longrightarrow> A4 a \<noteq> ipn_network I net \<and> A4 a \<noteq> ipn_broadcast I net)"

lemma v4_hosts_exact:
  assumes "ipnet_ok I" and "is_v4 net" and "v4_hosts I net = (n, first)"
  shows "(\<exists>i < n. a = first + of_nat i) \<longleftrightarrow> is_host4 I net a"
proof -
  obtain x y where r: "ipn_network I net = A4 x" "ipn_broadcast I net = A4 y" "x \<le> y"
      and c: "\<And>a. ipn_contains I net (A4 a) \<longleftrightarrow> x \<le> a \<and> a \<le> y"
    using range_v4 [OF assms(1,2)] by metis
  show ?thesis
  proof (cases "prefix_len net \<ge> 31")
    case True
    with assms(3) r have "n = unat (y - x) + 1" "first = x" by (auto simp: v4_hosts_def host_span_def)
    moreover have "is_host4 I net a \<longleftrightarrow> x \<le> a \<and> a \<le> y"
      using True leD unfolding is_host4_def c by blast
    ultimately show ?thesis using word_range [OF r(3), of a] by (simp only:)
  next
    case False
    with assms(3) r have "n = unat (y - x) - 1" "first = x + 1" by (auto simp: v4_hosts_def host_span_def)
    moreover have "is_host4 I net a \<longleftrightarrow> x < a \<and> a < y"
      using False unfolding is_host4_def c r(1,2) ip_addr.inject order_less_le [of x a] order_less_le [of a y]
      by (auto simp: not_le)
    ultimately show ?thesis using word_range_open [OF r(3), of a] by (simp only:)
  qed
qed

lemma v6_span_inside:
  assumes "x \<le> y" and "i < v6_span (x + 1) y"
  shows "x \<le> x + 1 + of_nat i \<and> x + 1 + of_nat i \<le> y"
proof -
  have le: "x + 1 \<le> y" and i: "i < unat (y - (x + 1) + 1)"
    using assms(2) by (auto simp: v6_span_def split: if_splits)
  have x: "x < x + 1"
  proof (cases "x = - 1")
    case True
    with assms(1) have "y = - 1" using word_order.extremum_unique by blast
    with i True show ?thesis by simp
  qed (rule word_less_succ)
  have "unat (y - (x + 1) + 1) \<le> unat (y - (x + 1)) + 1"
    unfolding unat_word_ariths by (rule order.trans [OF mod_less_eq_dividend]) simp
  with i have "i < unat (y - (x + 1)) + 1" by linarith
  then have "x + 1 \<le> x + 1 + of_nat i \<and> x + 1 + of_nat i \<le> y"
    using word_range [OF le, of "x + 1 + of_nat i"] by blast
  with x show ?thesis by (meson order.strict_implies_order order.trans)
qed

section \<open>What reclaiming takes\<close>

lemma set_reclaim_candidates:
  "(i, rec, ip) \<in> set (reclaim_candidates cfg reg l now member hard address eligible) \<longleftrightarrow>
     (i, rec) \<in> set (rg_members reg) \<and> abandoned cfg l (leases_attachments l) now member (i, rec)
     \<and> address rec = Some ip \<and> ip \<notin> hard \<and> eligible ip"
  by (force simp: reclaim_candidates_def List.map_filter_def)

lemma reclaimable_Some:
  assumes "reclaimable cfg reg reclaim now member hard address eligible = Some (i, ip)"
  shows "\<exists>l rec. reclaim = Some l \<and> (i, rec) \<in> set (rg_members reg)
    \<and> abandoned cfg l (leases_attachments l) now member (i, rec)
    \<and> address rec = Some ip \<and> ip \<notin> hard \<and> eligible ip"
proof -
  obtain l where l: "reclaim = Some l"
    using assms by (auto simp: reclaimable_def split: option.splits)
  let ?c = "reclaim_candidates cfg reg l now member hard address eligible"
  have ne: "?c \<noteq> []" using assms l by (auto simp: reclaimable_def Let_def split: if_splits)
  obtain rec where "arg_min_list (reclaim_key l) ?c = (i, rec, ip)"
    using assms l ne by (auto simp: reclaimable_def Let_def split: prod.splits)
  with arg_min_list_in [OF ne, of "reclaim_key l"] have "(i, rec, ip) \<in> set ?c" by simp
  with l show ?thesis by (auto simp: set_reclaim_candidates)
qed

lemma reclaimable_None:
  "reclaimable cfg reg (Some l) now member hard address eligible = None \<longleftrightarrow>
     (\<forall>(i, rec) \<in> set (rg_members reg). abandoned cfg l (leases_attachments l) now member (i, rec) \<longrightarrow>
        (case address rec of Some ip \<Rightarrow> ip \<in> hard \<or> \<not> eligible ip | None \<Rightarrow> True))"
  (is "?l \<longleftrightarrow> ?r")
proof -
  let ?c = "reclaim_candidates cfg reg l now member hard address eligible"
  have "?l \<longleftrightarrow> ?c = []" by (simp add: reclaimable_def Let_def split: prod.split)
  also have "\<dots> \<longleftrightarrow> (\<forall>i rec ip. (i, rec, ip) \<notin> set ?c)" by (metis list.set_intros(1) neq_Nil_conv prod_cases3 empty_iff list.set(1))
  also have "\<dots> \<longleftrightarrow> ?r" unfolding set_reclaim_candidates by (auto split: option.splits)
  finally show ?thesis .
qed

text \<open>
  A registry step that only takes addresses away: every record keeps its id, name, role and times, and each
  of its addresses is kept or dropped.
\<close>

definition keeps_or_drops :: "member_record \<Rightarrow> member_record \<Rightarrow> bool" where
  "keeps_or_drops m m' \<longleftrightarrow> mr_node_id m' = mr_node_id m \<and> mr_name m' = mr_name m \<and> mr_role m' = mr_role m
     \<and> mr_last_join_unix m' = mr_last_join_unix m \<and> mr_created_unix m' = mr_created_unix m
     \<and> (mr_ip4 m' = mr_ip4 m \<or> mr_ip4 m' = None) \<and> (mr_ip6 m' = mr_ip6 m \<or> mr_ip6 m' = None)"

definition shrinks :: "registry \<Rightarrow> registry \<Rightarrow> bool" where
  "shrinks reg reg' \<longleftrightarrow> reg_wf reg' \<and> rg_next_node_id reg' = rg_next_node_id reg
     \<and> (\<forall>i m'. map_of (rg_members reg') i = Some m' \<longrightarrow>
          (\<exists>m. map_of (rg_members reg) i = Some m \<and> keeps_or_drops m m'))"

lemma keeps_or_drops_refl [simp]: "keeps_or_drops m m"
  by (simp add: keeps_or_drops_def)

lemma keeps_or_drops_trans: "keeps_or_drops a b \<Longrightarrow> keeps_or_drops b c \<Longrightarrow> keeps_or_drops a c"
  by (auto simp: keeps_or_drops_def)

lemma shrinks_refl: "reg_wf reg \<Longrightarrow> shrinks reg reg"
  unfolding shrinks_def using keeps_or_drops_refl by blast

lemma shrinks_trans:
  assumes "shrinks a b" and "shrinks b c"
  shows "shrinks a c"
proof -
  have "\<exists>m. map_of (rg_members a) i = Some m \<and> keeps_or_drops m m'"
    if m': "map_of (rg_members c) i = Some m'" for i m'
  proof -
    obtain n where "map_of (rg_members b) i = Some n" "keeps_or_drops n m'"
      using m' assms(2) unfolding shrinks_def by blast
    moreover from this(1) obtain m where "map_of (rg_members a) i = Some m" "keeps_or_drops m n"
      using assms(1) unfolding shrinks_def by blast
    ultimately show ?thesis using keeps_or_drops_trans by blast
  qed
  with assms show ?thesis unfolding shrinks_def by metis
qed

lemma shrinks_cursor: "reg_wf reg \<Longrightarrow> shrinks reg (set_cursor k c reg)"
  unfolding shrinks_def set_cursor_def using keeps_or_drops_refl by fastforce

lemma shrinks_take:
  assumes "reg_wf reg" and "\<And>m. keeps_or_drops m (clear m)"
  shows "shrinks reg (take_from clear v reg)"
proof (cases "map_of (rg_members reg) v")
  case (Some m)
  let ?m = "(clear m)\<lparr>mr_login_gen := word_sat_add (mr_login_gen (clear m)) 1\<rparr>"
  have k: "keeps_or_drops m ?m" using assms(2) [of m] by (simp add: keeps_or_drops_def)
  then have "reg_wf (reg\<lparr>rg_members := bt_insert v ?m (rg_members reg)\<rparr>)"
    by (intro reg_wf_update [OF assms(1) Some]) (simp_all add: keeps_or_drops_def)
  with Some k show ?thesis by (simp add: take_from_def shrinks_def Let_def)
qed (simp add: take_from_def shrinks_refl assms(1))

section \<open>Addresses are held once\<close>

definition held_once :: "(member_record \<Rightarrow> 'a option) \<Rightarrow> registry \<Rightarrow> bool" where
  "held_once address reg \<longleftrightarrow>
     (\<forall>i m j n a. map_of (rg_members reg) i = Some m \<longrightarrow> map_of (rg_members reg) j = Some n \<longrightarrow>
        address m = Some a \<longrightarrow> address n = Some a \<longrightarrow> i = j)"

text \<open>No member but this one holds the address.\<close>

definition free_for :: "(member_record \<Rightarrow> 'a option) \<Rightarrow> string \<Rightarrow> registry \<Rightarrow> 'a \<Rightarrow> bool" where
  "free_for address member reg a \<longleftrightarrow>
     (\<forall>i m. map_of (rg_members reg) i = Some m \<longrightarrow> mr_name m \<noteq> member \<longrightarrow> address m \<noteq> Some a)"

definition drops_only :: "(member_record \<Rightarrow> 'a option) \<Rightarrow> bool" where
  "drops_only address \<longleftrightarrow> (\<forall>m m'. keeps_or_drops m m' \<longrightarrow> address m' = address m \<or> address m' = None)"

lemma drops_only_ips [simp]: "drops_only mr_ip4" "drops_only mr_ip6"
  by (auto simp: drops_only_def keeps_or_drops_def)

lemma shrinks_address:
  assumes "shrinks reg reg'" and "drops_only address"
    and "map_of (rg_members reg') i = Some m'" and "address m' = Some a"
  shows "\<exists>m. map_of (rg_members reg) i = Some m \<and> mr_name m = mr_name m' \<and> address m = Some a"
proof -
  obtain m where m: "map_of (rg_members reg) i = Some m" "keeps_or_drops m m'"
    using assms(1,3) unfolding shrinks_def by blast
  have "address m' = address m" using assms(2,4) m(2) unfolding drops_only_def by fastforce
  moreover have "mr_name m = mr_name m'" using m(2) by (simp add: keeps_or_drops_def)
  ultimately show ?thesis using m(1) assms(4) by simp
qed

lemma held_once_shrinks:
  assumes "held_once address reg" and "drops_only address" and "shrinks reg reg'"
  shows "held_once address reg'"
  unfolding held_once_def
  using shrinks_address [OF assms(3,2)] assms(1) [unfolded held_once_def] by blast

lemma free_for_shrinks:
  assumes "free_for address member reg a" and "drops_only address" and "shrinks reg reg'"
  shows "free_for address member reg' a"
  unfolding free_for_def
  using shrinks_address [OF assms(3,2)] assms(1) [unfolded free_for_def] by metis

lemma in_map_filter: "x \<in> set (List.map_filter f xs) \<longleftrightarrow> (\<exists>y \<in> set xs. f y = Some x)"
  by (force simp: List.map_filter_def)

lemma free_for_not_taken:
  assumes "reg_wf reg" and "a \<notin> taken_of address static cfg reg member"
  shows "free_for address member reg a"
  unfolding free_for_def
proof (intro allI impI notI)
  fix i m
  assume m: "map_of (rg_members reg) i = Some m" "mr_name m \<noteq> member" "address m = Some a"
  from m(1) have "(i, m) \<in> set (rg_members reg)" by (rule map_of_SomeD)
  then have "m \<in> set (filter (\<lambda>r. mr_name r \<noteq> member) (map snd (rg_members reg)))"
    using m(2) by force
  with m(3) assms(2) show False unfolding taken_of_def Un_iff in_map_filter by blast
qed

lemma free_for_current:
  assumes "reg_wf reg" and "held_once address reg" and "Option.bind (reg_by_name reg member) address = Some a"
  shows "free_for address member reg a"
  unfolding free_for_def
proof (intro allI impI notI)
  obtain m where m: "reg_by_name reg member = Some m" "address m = Some a"
    using assms(3) by (auto simp: bind_eq_Some_conv)
  fix j n
  assume n: "map_of (rg_members reg) j = Some n" "mr_name n \<noteq> member" "address n = Some a"
  have "mr_node_id m = j"
    using assms(2) reg_by_nameD(1) [OF assms(1) m(1)] n(1,3) m(2) unfolding held_once_def by blast
  then have "m = n" using reg_by_nameD(1) [OF assms(1) m(1)] n(1) by (metis option.inject)
  with n(2) reg_by_nameD(2) [OF assms(1) m(1)] show False by blast
qed

lemma free_for_taken_from:
  assumes "reg_wf reg" and "held_once address reg" and "(v, rec) \<in> set (rg_members reg)"
    and "address rec = Some a" and "\<And>m g. address ((clear m)\<lparr>mr_login_gen := g\<rparr>) = None"
  shows "free_for address member (take_from clear v reg) a"
  unfolding free_for_def
proof (intro allI impI notI)
  have v: "map_of (rg_members reg) v = Some rec"
    using assms(3) bt_member_iff [OF reg_wfD(1) [OF assms(1)]] by blast
  fix j n
  assume n: "map_of (rg_members (take_from clear v reg)) j = Some n" "address n = Some a"
  show False
  proof (cases "j = v")
    case True
    with n(1) v have "n = (clear rec)\<lparr>mr_login_gen := word_sat_add (mr_login_gen (clear rec)) 1\<rparr>"
      by (simp add: take_from_def Let_def)
    with n(2) assms(5) show False by simp
  next
    case False
    with n(1) v have "map_of (rg_members reg) j = Some n" by (simp add: take_from_def Let_def)
    with v n(2) assms(2,4) False show False unfolding held_once_def by blast
  qed
qed

section \<open>Whose record changes\<close>

text \<open>
  Every record is as before, or it belongs to an abandoned client and its login generation went up
  (or stands at the end of its range).
\<close>

definition reclaimed ::
    "network_config \<Rightarrow> leases option \<Rightarrow> nat \<Rightarrow> string \<Rightarrow> node_id \<Rightarrow> member_record \<Rightarrow> member_record \<Rightarrow> bool" where
  "reclaimed cfg reclaim now member i m m' \<longleftrightarrow>
     (\<exists>l. reclaim = Some l \<and> abandoned cfg l (leases_attachments l) now member (i, m))
     \<and> (mr_login_gen m < mr_login_gen m' \<or> mr_login_gen m' = - 1)"

definition spares ::
    "network_config \<Rightarrow> leases option \<Rightarrow> nat \<Rightarrow> string \<Rightarrow> registry \<Rightarrow> registry \<Rightarrow> bool" where
  "spares cfg reclaim now member reg reg' \<longleftrightarrow>
     (\<forall>i m. map_of (rg_members reg) i = Some m \<longrightarrow>
        (\<exists>m'. map_of (rg_members reg') i = Some m' \<and> (m' = m \<or> reclaimed cfg reclaim now member i m m')))"

lemma spares_refl [simp]: "spares cfg reclaim now member reg reg"
  "spares cfg reclaim now member reg (set_cursor k c reg)"
  by (simp_all add: spares_def set_cursor_def)

lemma abandoned_keeps:
  "keeps_or_drops m m' \<Longrightarrow> abandoned cfg l att now member (i, m') = abandoned cfg l att now member (i, m)"
  by (simp add: abandoned_def keeps_or_drops_def last_joined_def split: option.split)

lemma reclaimed_trans:
  assumes "keeps_or_drops m n" and "n = m \<or> reclaimed cfg reclaim now member i m n"
    and "n' = n \<or> reclaimed cfg reclaim now member i n n'"
  shows "n' = m \<or> reclaimed cfg reclaim now member i m n'"
proof -
  have "mr_login_gen m < mr_login_gen n \<Longrightarrow> mr_login_gen n < mr_login_gen n' \<Longrightarrow>
      mr_login_gen m < mr_login_gen n'" by (rule less_trans)
  moreover have "\<not> - 1 < mr_login_gen n'" by (simp add: not_less)
  ultimately show ?thesis
    using assms(2,3) unfolding reclaimed_def abandoned_keeps [OF assms(1)] by metis
qed

lemma spares_trans:
  assumes "spares cfg reclaim now member a b" and "shrinks a b" and "spares cfg reclaim now member b c"
  shows "spares cfg reclaim now member a c"
  unfolding spares_def
proof (intro allI impI)
  fix i m
  assume m: "map_of (rg_members a) i = Some m"
  obtain n where n: "map_of (rg_members b) i = Some n" "n = m \<or> reclaimed cfg reclaim now member i m n"
    using assms(1) m unfolding spares_def by blast
  obtain n' where n': "map_of (rg_members c) i = Some n'" "n' = n \<or> reclaimed cfg reclaim now member i n n'"
    using assms(3) n(1) unfolding spares_def by blast
  have "keeps_or_drops m n"
    using assms(2) n(1) m unfolding shrinks_def by (metis option.inject)
  from reclaimed_trans [OF this n(2) n'(2)] n'(1)
  show "\<exists>m'. map_of (rg_members c) i = Some m' \<and> (m' = m \<or> reclaimed cfg reclaim now member i m m')"
    by blast
qed

lemma spares_take:
  assumes "reg_wf reg" and "(v, rec) \<in> set (rg_members reg)" and "reclaim = Some l"
    and "abandoned cfg l (leases_attachments l) now member (v, rec)"
    and "\<And>m. mr_login_gen (clear m) = mr_login_gen m"
  shows "spares cfg reclaim now member reg (take_from clear v reg)"
  unfolding spares_def
proof (intro allI impI)
  fix i m
  assume m: "map_of (rg_members reg) i = Some m"
  have v: "map_of (rg_members reg) v = Some rec"
    using assms(2) bt_member_iff [OF reg_wfD(1) [OF assms(1)]] by blast
  let ?t = "rg_members (take_from clear v reg)"
  show "\<exists>m'. map_of ?t i = Some m' \<and> (m' = m \<or> reclaimed cfg reclaim now member i m m')"
  proof (cases "i = v")
    case True
    let ?m = "(clear m)\<lparr>mr_login_gen := word_sat_add (mr_login_gen m) 1\<rparr>"
    have "m = rec" using True m v by simp
    then have "map_of ?t i = Some ?m" using True v assms(5) by (simp add: take_from_def Let_def)
    moreover have "reclaimed cfg reclaim now member i m ?m"
      using sat_succ [of "mr_login_gen m"] assms(3,4) True \<open>m = rec\<close> by (simp add: reclaimed_def)
    ultimately show ?thesis by blast
  next
    case False
    with m v show ?thesis by (simp add: take_from_def Let_def)
  qed
qed

section \<open>Grants\<close>

text \<open>What every way to an address gives.\<close>

definition grant_ok ::
    "(member_record \<Rightarrow> 'a option) \<Rightarrow> network_config \<Rightarrow> leases option \<Rightarrow> nat \<Rightarrow> string \<Rightarrow> registry \<Rightarrow> registry
      \<Rightarrow> 'a option \<Rightarrow> bool" where
  "grant_ok address cfg reclaim now member reg reg' ip \<longleftrightarrow>
     shrinks reg reg' \<and> spares cfg reclaim now member reg reg'
     \<and> (\<forall>a. ip = Some a \<longrightarrow> free_for address member reg' a)"

lemma grant_ok_Some:
  "reg_wf reg \<Longrightarrow> free_for address member reg a \<Longrightarrow> grant_ok address cfg reclaim now member reg reg (Some a)"
  by (simp add: grant_ok_def shrinks_refl)

lemma grant_ok_None: "reg_wf reg \<Longrightarrow> grant_ok address cfg reclaim now member reg reg None"
  by (simp add: grant_ok_def shrinks_refl)

lemma grant_ok_scan:
  assumes "reg_wf reg" and "drops_only address" and "free_for address member reg a"
  shows "grant_ok address cfg reclaim now member reg (set_cursor k c reg) (Some a)"
  using shrinks_cursor [OF assms(1)] free_for_shrinks [OF assms(3,2) shrinks_cursor [OF assms(1)]]
  by (simp add: grant_ok_def)

lemma grant_ok_reclaim:
  assumes "reg_wf reg" and "held_once address reg"
    and "reclaimable cfg reg reclaim now member hard address eligible = Some (v, a)"
    and "\<And>m. keeps_or_drops m (clear m)" and "\<And>m. mr_login_gen (clear m) = mr_login_gen m"
    and "\<And>m g. address ((clear m)\<lparr>mr_login_gen := g\<rparr>) = None"
  shows "grant_ok address cfg reclaim now member reg (take_from clear v reg) (Some a)"
proof -
  obtain l rec where v: "reclaim = Some l" "(v, rec) \<in> set (rg_members reg)"
      "abandoned cfg l (leases_attachments l) now member (v, rec)" "address rec = Some a"
    using reclaimable_Some [OF assms(3)] by blast
  show ?thesis
    using shrinks_take [OF assms(1,4)] spares_take [OF assms(1) v(2,1,3) assms(5)]
      free_for_taken_from [OF assms(1,2) v(2,4) assms(6)]
    by (simp add: grant_ok_def)
qed

lemma cidr_of:
  "ipv4_cidr cfg = Some net \<Longrightarrow> net \<in> set (nc_cidrs cfg) \<and> is_v4 net"
  "ipv6_cidr cfg = Some net \<Longrightarrow> net \<in> set (nc_cidrs cfg) \<and> \<not> is_v4 net"
  by (auto simp: ipv4_cidr_def ipv6_cidr_def dest: find_SomeD)

lemma alloc_v4_cases:
  assumes "alloc_v4 I cfg reg taken hard reclaim now member = Inr (ip, reg')"
  obtains (scan) net n first a k where "ipv4_cidr cfg = Some net" "v4_hosts I net = (n, first)"
      "a \<notin> taken" "\<exists>i < n. a = first + of_nat i" "ip = Some a" "reg' = set_cursor ''ipv4'' k reg"
  | (reclaim) net v a where "ipv4_cidr cfg = Some net"
      "reclaimable cfg reg reclaim now member hard mr_ip4 (\<lambda>ip. ipn_contains I net (A4 ip)) = Some (v, a)"
      "ip = Some a" "reg' = take_from (\<lambda>r. r\<lparr>mr_ip4 := None\<rparr>) v reg"
proof -
  obtain net where net: "ipv4_cidr cfg = Some net"
    using assms by (cases "ipv4_cidr cfg") (simp_all add: alloc_v4_def)
  obtain n first where hosts: "v4_hosts I net = (n, first)" by fastforce
  show ?thesis
  proof (cases "scan_from_cursor n (\<lambda>i. first + of_nat i) taken (cursor_of ''ipv4'' reg)")
    case (Some r)
    then obtain a k where ak: "scan_from_cursor n (\<lambda>i. first + of_nat i) taken (cursor_of ''ipv4'' reg) = Some (a, k)"
      by (cases r) simp
    have "ip = Some a" "reg' = set_cursor ''ipv4'' k reg"
      using assms net hosts ak by (simp_all add: alloc_v4_def)
    with scan_Some [OF ak] show ?thesis by (intro scan [OF net hosts]) simp_all
  next
    case None
    let ?rc = "reclaimable cfg reg reclaim now member hard mr_ip4 (\<lambda>ip. ipn_contains I net (A4 ip))"
    obtain v a where va: "?rc = Some (v, a)"
      using assms net hosts None by (cases ?rc) (auto simp: alloc_v4_def)
    with assms net hosts None show ?thesis by (intro reclaim [OF net va]) (simp_all add: alloc_v4_def)
  qed
qed

lemma alloc_v6_cases:
  assumes "alloc_v6 I cfg reg taken hard reclaim now member = Inr (ip, reg')"
  obtains (scan) net a k where "ipv6_cidr cfg = Some net" "a \<notin> taken"
      "\<exists>i < v6_span (v6_bits (ipn_network I net) + 1) (v6_bits (ipn_broadcast I net)).
         a = v6_bits (ipn_network I net) + 1 + of_nat i"
      "ip = Some a" "reg' = set_cursor ''ipv6'' k reg"
  | (reclaim) net v a where "ipv6_cidr cfg = Some net"
      "reclaimable cfg reg reclaim now member hard mr_ip6 (\<lambda>ip. ipn_contains I net (A6 ip)) = Some (v, a)"
      "ip = Some a" "reg' = take_from (\<lambda>r. r\<lparr>mr_ip6 := None\<rparr>) v reg"
  | (none) "ip = None" "reg' = reg"
proof (cases "ipv6_cidr cfg")
  case None
  with assms show ?thesis by (intro none) (simp_all add: alloc_v6_def)
next
  case net: (Some net)
  let ?scan = "v6_scan (v6_bits (ipn_network I net) + 1) (v6_bits (ipn_broadcast I net)) taken
    (cursor_of ''ipv6'' reg)"
  show ?thesis
  proof (cases ?scan)
    case (Some r)
    then obtain a k where ak: "?scan = Some (a, k)" by (cases r) simp
    have "ip = Some a" "reg' = set_cursor ''ipv6'' k reg"
      using assms net ak by (simp_all add: alloc_v6_def Let_def)
    with scan_Some [OF ak [unfolded v6_scan_def]] show ?thesis by (intro scan [OF net]) simp_all
  next
    case scan_none: None
    let ?rc = "reclaimable cfg reg reclaim now member hard mr_ip6 (\<lambda>ip. ipn_contains I net (A6 ip))"
    show ?thesis
    proof (cases ?rc)
      case None
      with assms net scan_none show ?thesis by (intro none) (simp_all add: alloc_v6_def Let_def)
    next
      case (Some r)
      then obtain v a where va: "?rc = Some (v, a)" by (cases r) simp
      with assms net scan_none show ?thesis by (intro reclaim [OF net va]) (simp_all add: alloc_v6_def Let_def)
    qed
  qed
qed

lemma alloc_v4_ok:
  assumes "reg_wf reg" and "held_once mr_ip4 reg" and "\<And>a. a \<notin> taken \<Longrightarrow> free_for mr_ip4 member reg a"
    and "alloc_v4 I cfg reg taken hard reclaim now member = Inr (ip, reg')"
  shows "grant_ok mr_ip4 cfg reclaim now member reg reg' ip"
  using assms(4)
proof (cases rule: alloc_v4_cases)
  case scan
  with assms show ?thesis by (simp add: grant_ok_scan)
next
  case reclaim
  with grant_ok_reclaim [OF assms(1,2) reclaim(2)] show ?thesis by (simp add: keeps_or_drops_def)
qed

lemma alloc_v6_ok:
  assumes "reg_wf reg" and "held_once mr_ip6 reg" and "\<And>a. a \<notin> taken \<Longrightarrow> free_for mr_ip6 member reg a"
    and "alloc_v6 I cfg reg taken hard reclaim now member = Inr (ip, reg')"
  shows "grant_ok mr_ip6 cfg reclaim now member reg reg' ip"
  using assms(4)
proof (cases rule: alloc_v6_cases)
  case scan
  with assms show ?thesis by (simp add: grant_ok_scan)
next
  case reclaim
  with grant_ok_reclaim [OF assms(1,2) reclaim(2)] show ?thesis by (simp add: keeps_or_drops_def)
next
  case none
  from grant_ok_None [OF assms(1)] show ?thesis unfolding none .
qed

lemma alloc_v4_inside:
  assumes "ipnet_ok I" and "alloc_v4 I cfg reg taken hard reclaim now member = Inr (Some a, reg')"
  shows "in_tunnel I cfg (A4 a)"
  using assms(2)
proof (cases rule: alloc_v4_cases)
  case (scan net n first b k)
  have "is_host4 I net b" using v4_hosts_exact [OF assms(1) _ scan(2)] cidr_of(1) [OF scan(1)] scan(4) by blast
  with scan(5) cidr_of(1) [OF scan(1)] show ?thesis by (auto simp: in_tunnel_def is_host4_def)
next
  case (reclaim net v b)
  with reclaimable_Some [OF reclaim(2)] cidr_of(1) [OF reclaim(1)] show ?thesis
    unfolding in_tunnel_def by blast
qed

lemma alloc_v6_inside:
  assumes "ipnet_ok I" and "alloc_v6 I cfg reg taken hard reclaim now member = Inr (Some a, reg')"
  shows "in_tunnel I cfg (A6 a)"
  using assms(2)
proof (cases rule: alloc_v6_cases)
  case (scan net b k)
  obtain x y where r: "ipn_network I net = A6 x" "ipn_broadcast I net = A6 y" "x \<le> y"
      and c: "\<And>a. ipn_contains I net (A6 a) \<longleftrightarrow> x \<le> a \<and> a \<le> y"
    using range_v6 [OF assms(1)] cidr_of(2) [OF scan(1)] by metis
  obtain i where "i < v6_span (x + 1) y" "b = x + 1 + of_nat i" using scan(3) r by auto
  with v6_span_inside [OF r(3)] have "ipn_contains I net (A6 b)" unfolding c by blast
  with scan(4) cidr_of(2) [OF scan(1)] show ?thesis unfolding in_tunnel_def by blast
next
  case (reclaim net v b)
  with reclaimable_Some [OF reclaim(2)] cidr_of(2) [OF reclaim(1)] show ?thesis
    unfolding in_tunnel_def by blast
qed simp

lemma check_wanted_Inr:
  "check_wanted I cfg fam taken want = Inr u \<longleftrightarrow>
     (\<forall>a. want = Some a \<longrightarrow> check_in_network I cfg (fam a) = Inr () \<and> a \<notin> taken)"
  by (cases want) (auto simp: check_wanted_def res_bind_Inr_conv)

lemma check_in_network_Inr: "check_in_network I cfg ip = Inr u \<Longrightarrow> in_tunnel I cfg ip"
  by (auto simp: check_in_network_def split: if_splits)

lemma grant_v4_cases:
  assumes "grant_v4 I cfg reg reclaim now member want = Inr (ip, reg')"
  obtains (wanted) a where "want = Some a" "ip = Some a" "reg' = reg"
  | (current) a where "want = None" "Option.bind (reg_by_name reg member) mr_ip4 = Some a" "ip = Some a"
      "in_tunnel I cfg (A4 a)" "reg' = reg"
  | (allocated) "want = None" "alloc_v4 I cfg reg (taken_of mr_ip4 mc_preferred_ip4 cfg reg member)
      (hard_of mc_preferred_ip4 cfg) reclaim now member = Inr (ip, reg')"
proof (cases want)
  case (Some a)
  with assms show ?thesis by (intro wanted [of a]) (simp_all add: grant_v4_def)
next
  case None
  show ?thesis
  proof (cases "Option.bind (reg_by_name reg member) mr_ip4")
    case None
    with assms \<open>want = None\<close> show ?thesis by (intro allocated) (simp_all add: grant_v4_def)
  next
    case (Some a)
    show ?thesis
    proof (cases "in_tunnel I cfg (A4 a)")
      case True
      with assms Some \<open>want = None\<close> show ?thesis
        by (intro current [of a]) (simp_all add: grant_v4_def dynamic_address_allowed_def)
    next
      case False
      with assms Some \<open>want = None\<close> show ?thesis
        by (intro allocated) (simp_all add: grant_v4_def dynamic_address_allowed_def)
    qed
  qed
qed

lemma grant_v6_cases:
  assumes "grant_v6 I cfg before reg reclaim now member want = (ip, reg')"
  obtains (wanted) a where "want = Some a" "ip = Some a" "reg' = reg"
  | (current) a where "want = None" "Option.bind (reg_by_name before member) mr_ip6 = Some a" "ip = Some a"
      "in_tunnel I cfg (A6 a)" "reg' = reg"
  | (allocated) "want = None" "alloc_v6 I cfg reg (taken_of mr_ip6 mc_preferred_ip6 cfg before member)
      (hard_of mc_preferred_ip6 cfg) reclaim now member = Inr (ip, reg')"
  | (absent) "want = None" "ip = None" "reg' = reg"
proof (cases want)
  case (Some a)
  with assms show ?thesis by (intro wanted [of a]) (simp_all add: grant_v6_def)
next
  case None
  let ?alloc = "alloc_v6 I cfg reg (taken_of mr_ip6 mc_preferred_ip6 cfg before member)
      (hard_of mc_preferred_ip6 cfg) reclaim now member"
  let ?cur = "Option.bind (reg_by_name before member) mr_ip6"
  show ?thesis
  proof (cases "\<exists>a. ?cur = Some a \<and> in_tunnel I cfg (A6 a)")
    case True
    then obtain a where "?cur = Some a" "in_tunnel I cfg (A6 a)" by blast
    with assms None show ?thesis
      by (intro current [of a]) (simp_all add: grant_v6_def dynamic_address_allowed_def)
  next
    case False
    then have "\<not> (case ?cur of Some ip \<Rightarrow> dynamic_address_allowed I cfg (A6 ip) | None \<Rightarrow> False)"
      by (auto simp: dynamic_address_allowed_def split: option.splits)
    then have "(ip, reg') = (if \<exists>c \<in> set (nc_cidrs cfg). \<not> is_v4 c
        then case ?alloc of Inr r \<Rightarrow> r | Inl _ \<Rightarrow> (None, reg) else (None, reg))"
      using assms None unfolding grant_v6_def Let_def by (simp only: if_False simp_thms)
    then have "?alloc = Inr (ip, reg') \<or> (ip = None \<and> reg' = reg)"
      by (cases ?alloc; cases "\<exists>c \<in> set (nc_cidrs cfg). \<not> is_v4 c") auto
    with allocated absent None show ?thesis by blast
  qed
qed

lemma grant_v4_ok:
  assumes "reg_wf reg" and "held_once mr_ip4 reg"
    and "check_wanted I cfg A4 (taken_of mr_ip4 mc_preferred_ip4 cfg reg member) want = Inr u"
    and "grant_v4 I cfg reg reclaim now member want = Inr (ip, reg')"
  shows "grant_ok mr_ip4 cfg reclaim now member reg reg' ip"
  using assms(4)
proof (cases rule: grant_v4_cases)
  case (wanted a)
  then have "a \<notin> taken_of mr_ip4 mc_preferred_ip4 cfg reg member" 
      using assms(3) [unfolded check_wanted_Inr] by blast
  from grant_ok_Some [OF assms(1) free_for_not_taken [OF assms(1) this]] show ?thesis
    unfolding wanted(2,3) .
next
  case (current a)
  from grant_ok_Some [OF assms(1) free_for_current [OF assms(1,2) current(2)]] show ?thesis
    unfolding current(3,5) .
next
  case allocated
  show ?thesis by (rule alloc_v4_ok [OF assms(1,2) free_for_not_taken [OF assms(1)] allocated(2)])
qed

text \<open>The IPv6 grant starts from a registry the IPv4 one has already been through.\<close>

lemma grant_v6_ok:
  assumes "reg_wf before" and "held_once mr_ip6 before" and "shrinks before reg"
    and "check_wanted I cfg A6 (taken_of mr_ip6 mc_preferred_ip6 cfg before member) want = Inr u"
    and "grant_v6 I cfg before reg reclaim now member want = (ip, reg')"
  shows "grant_ok mr_ip6 cfg reclaim now member reg reg' ip"
proof -
  have wf: "reg_wf reg" using assms(3) by (simp add: shrinks_def)
  have free: "free_for mr_ip6 member reg a" if "free_for mr_ip6 member before a" for a
    using free_for_shrinks [OF that drops_only_ips(2) assms(3)] .
  have once: "held_once mr_ip6 reg" using held_once_shrinks [OF assms(2) drops_only_ips(2) assms(3)] .
  from assms(5) show ?thesis
  proof (cases rule: grant_v6_cases)
    case (wanted a)
    then have "a \<notin> taken_of mr_ip6 mc_preferred_ip6 cfg before member" 
      using assms(4) [unfolded check_wanted_Inr] by blast
    from grant_ok_Some [OF wf free [OF free_for_not_taken [OF assms(1) this]]] show ?thesis
      unfolding wanted(2,3) .
  next
    case (current a)
    from grant_ok_Some [OF wf free [OF free_for_current [OF assms(1,2) current(2)]]] show ?thesis
      unfolding current(3,5) .
  next
    case allocated
    show ?thesis by (rule alloc_v6_ok [OF wf once free [OF free_for_not_taken [OF assms(1)]] allocated(2)])
  next
    case absent
    from grant_ok_None [OF wf] show ?thesis unfolding absent(2,3) .
  qed
qed

lemma allocate_cases:
  assumes "allocate_inner I cfg reg reclaim now member p4 p6 = Inr (g, reg')"
  obtains mc r want4 want6 reg4 where "member_by_name cfg member = Some (mc, r)"
    "want4 = or_else p4 (mc_preferred_ip4 mc)" "want6 = or_else p6 (mc_preferred_ip6 mc)"
    "check_wanted I cfg A4 (taken_of mr_ip4 mc_preferred_ip4 cfg reg member) want4 = Inr ()"
    "check_wanted I cfg A6 (taken_of mr_ip6 mc_preferred_ip6 cfg reg member) want6 = Inr ()"
    "grant_v4 I cfg reg reclaim now member want4 = Inr (gr_ip4 g, reg4)"
    "grant_v6 I cfg reg reg4 reclaim now member want6 = (gr_ip6 g, reg')"
proof -
  obtain mc r where m: "member_by_name cfg member = Some (mc, r)"
    using assms by (cases "member_by_name cfg member") (auto simp: allocate_inner_def)
  let ?w4 = "or_else p4 (mc_preferred_ip4 mc)" and ?w6 = "or_else p6 (mc_preferred_ip6 mc)"
  have c4: "check_wanted I cfg A4 (taken_of mr_ip4 mc_preferred_ip4 cfg reg member) ?w4 = Inr ()"
    and c6: "check_wanted I cfg A6 (taken_of mr_ip6 mc_preferred_ip6 cfg reg member) ?w6 = Inr ()"
    using assms m by (auto simp: allocate_inner_def Let_def res_bind_Inr_conv)
  obtain ip4 reg4 where g4: "grant_v4 I cfg reg reclaim now member ?w4 = Inr (ip4, reg4)"
    using assms m c4 c6 by (cases "grant_v4 I cfg reg reclaim now member ?w4") (auto simp: allocate_inner_def)
  obtain ip6 reg6 where g6: "grant_v6 I cfg reg reg4 reclaim now member ?w6 = (ip6, reg6)" by fastforce
  have "g = \<lparr>gr_ip4 = ip4, gr_ip6 = ip6\<rparr>" "reg' = reg6"
    using assms m c4 c6 g4 g6 by (simp_all add: allocate_inner_def)
  with g4 g6 that [OF m refl refl c4 c6] show ?thesis by simp
qed

lemma allocate_ok:
  assumes "reg_wf reg" and "held_once mr_ip4 reg" and "held_once mr_ip6 reg"
    and "allocate_inner I cfg reg reclaim now member p4 p6 = Inr (g, reg')"
  shows "grant_ok mr_ip4 cfg reclaim now member reg reg' (gr_ip4 g)"
    "grant_ok mr_ip6 cfg reclaim now member reg reg' (gr_ip6 g)"
proof -
  obtain mc r w4 w6 reg4 where s: "member_by_name cfg member = Some (mc, r)"
      "check_wanted I cfg A4 (taken_of mr_ip4 mc_preferred_ip4 cfg reg member) w4 = Inr ()"
      "check_wanted I cfg A6 (taken_of mr_ip6 mc_preferred_ip6 cfg reg member) w6 = Inr ()"
      "grant_v4 I cfg reg reclaim now member w4 = Inr (gr_ip4 g, reg4)"
      "grant_v6 I cfg reg reg4 reclaim now member w6 = (gr_ip6 g, reg')"
    using allocate_cases [OF assms(4)] by metis
  have g4: "grant_ok mr_ip4 cfg reclaim now member reg reg4 (gr_ip4 g)"
    by (rule grant_v4_ok [OF assms(1,2) s(2,4)])
  then have sh: "shrinks reg reg4" and sp: "spares cfg reclaim now member reg reg4"
    by (simp_all add: grant_ok_def)
  have g6: "grant_ok mr_ip6 cfg reclaim now member reg4 reg' (gr_ip6 g)"
    by (rule grant_v6_ok [OF assms(1,3) sh s(3,5)])
  then have sh6: "shrinks reg4 reg'" and sp6: "spares cfg reclaim now member reg4 reg'"
    by (simp_all add: grant_ok_def)
  note both = shrinks_trans [OF sh sh6] spares_trans [OF sp sh sp6]
  show "grant_ok mr_ip4 cfg reclaim now member reg reg' (gr_ip4 g)"
    using both g4 free_for_shrinks [OF _ drops_only_ips(1) sh6] unfolding grant_ok_def by blast
  show "grant_ok mr_ip6 cfg reclaim now member reg reg' (gr_ip6 g)"
    using both g6 unfolding grant_ok_def by blast
qed

lemma allocate_inside:
  assumes "ipnet_ok I" and "allocate_inner I cfg reg reclaim now member p4 p6 = Inr (g, reg')"
  shows "gr_ip4 g = Some a \<Longrightarrow> in_tunnel I cfg (A4 a)" "gr_ip6 g = Some b \<Longrightarrow> in_tunnel I cfg (A6 b)"
proof -
  obtain mc r w4 w6 reg4 where s: "member_by_name cfg member = Some (mc, r)"
      "check_wanted I cfg A4 (taken_of mr_ip4 mc_preferred_ip4 cfg reg member) w4 = Inr ()"
      "check_wanted I cfg A6 (taken_of mr_ip6 mc_preferred_ip6 cfg reg member) w6 = Inr ()"
      "grant_v4 I cfg reg reclaim now member w4 = Inr (gr_ip4 g, reg4)"
      "grant_v6 I cfg reg reg4 reclaim now member w6 = (gr_ip6 g, reg')"
    using allocate_cases [OF assms(2)] by metis
  show "in_tunnel I cfg (A4 a)" if a: "gr_ip4 g = Some a"
    using s(4) a s(2) check_in_network_Inr alloc_v4_inside [OF assms(1)]
    by (elim grant_v4_cases) (auto simp: check_wanted_Inr)
  show "in_tunnel I cfg (A6 b)" if b: "gr_ip6 g = Some b"
    using s(5) b s(3) check_in_network_Inr alloc_v6_inside [OF assms(1)]
    by (elim grant_v6_cases) (auto simp: check_wanted_Inr)
qed

text \<open>Storing a grant in the member's record keeps every address held once.\<close>

lemma held_once_store:
  assumes "reg_wf reg" and "rg_next_node_id reg \<noteq> - 1" and "held_once address reg"
    and "\<And>m a. address (f m) = Some a \<Longrightarrow> free_for address name reg a"
  shows "held_once address (member_by_name_mut name r now f reg)"
proof -
  let ?i = "id_for_name reg name" and ?m = "f (record_for reg name r now)"
  have alone: "address n \<noteq> Some a"
    if "map_of (rg_members reg) j = Some n" "j \<noteq> ?i" "address ?m = Some a" for j n a
  proof -
    have "mr_name n \<noteq> name" using id_for_name_unique [OF assms(1) that(1)] that(2) by blast
    with assms(4) [OF that(3)] that(1) show ?thesis unfolding free_for_def by blast
  qed
  show ?thesis
    unfolding held_once_def member_by_name_mut_eq
  proof (intro allI impI)
    fix i m j n a
    assume h: "map_of (rg_members (reg\<lparr>rg_next_node_id := max (rg_next_node_id reg) (word_sat_add ?i 1),
          rg_members := bt_insert ?i ?m (rg_members reg)\<rparr>)) i = Some m"
        "map_of (rg_members (reg\<lparr>rg_next_node_id := max (rg_next_node_id reg) (word_sat_add ?i 1),
          rg_members := bt_insert ?i ?m (rg_members reg)\<rparr>)) j = Some n"
      and a: "address m = Some a" "address n = Some a"
    from h have h: "((map_of (rg_members reg))(?i \<mapsto> ?m)) i = Some m" "((map_of (rg_members reg))(?i \<mapsto> ?m)) j = Some n"
      by simp_all
    show "i = j"
    proof (cases "i = ?i"; cases "j = ?i")
      assume ij: "i \<noteq> ?i" "j \<noteq> ?i"
      with h have "map_of (rg_members reg) i = Some m" "map_of (rg_members reg) j = Some n" by simp_all
      with a assms(3) show ?thesis unfolding held_once_def by blast
    next
      assume ij: "i = ?i" "j \<noteq> ?i"
      with h have "m = ?m" "map_of (rg_members reg) j = Some n" by simp_all
      with alone ij a show ?thesis by blast
    next
      assume ij: "i \<noteq> ?i" "j = ?i"
      with h have "n = ?m" "map_of (rg_members reg) i = Some m" by simp_all
      with alone ij a show ?thesis by blast
    qed simp
  qed
qed

section \<open>Properties\<close>


text \<open>A range with two hosts, both taken: the second by a client that was heard of last at time 5.\<close>

definition example_pool :: network_config where
  "example_pool = \<lparr>nc_network_id = ''n'', nc_cidrs = [V4 0x0A000000 30], nc_settings = settings_default,
     nc_relays = [], nc_clients = [(''a'', member_cfg_default), (''b'', member_cfg_default), (''c'', member_cfg_default)]\<rparr>"

definition example_reg :: registry where
  "example_reg = (registry_new ''u'')\<lparr>rg_next_node_id := 3, rg_members :=
     [(1, (new_record 1 ''a'' Client 0)\<lparr>mr_ip4 := Some 0x0A000001\<rparr>),
      (2, (new_record 2 ''b'' Client 0)\<lparr>mr_ip4 := Some 0x0A000002\<rparr>)]\<rparr>"

definition example_leases :: leases where
  "example_leases = snd (leases_seen 1 9 (leases_offline 2 (snd (leases_seen 2 5 leases_default))))"

lemma example_reg_ok: "reg_wf example_reg" "held_once mr_ip4 example_reg" "held_once mr_ip6 example_reg"
  by (auto simp: example_reg_def reg_wf_def held_once_def registry_new_def new_record_def split: if_splits)

lemma example_grant:
  "map_sum id fst (allocate_for_join ipnet_std example_pool example_reg example_leases True 10 ''c'' None None)
     = Inr \<lparr>gr_ip4 = Some 0x0A000002, gr_ip6 = None\<rparr>"
  by code_simp


text \<open>
  C37. The IPv4 allocation fails only when it must: exactly when every host address of the range is
  taken, counting neither the network nor the broadcast address of a prefix shorter than 31, and, where
  reclaiming is allowed, no abandoned client holds a dynamic address of the range.
\<close>

theorem alloc_v4_exhausted:
  assumes "ipnet_ok I" and "ipv4_cidr cfg = Some net"
  shows "alloc_v4 I cfg reg taken hard reclaim now member = Inl e \<longleftrightarrow>
    e = address_space_exhausted \<and> (\<forall>a. is_host4 I net a \<longrightarrow> a \<in> taken)
    \<and> (\<forall>l. reclaim = Some l \<longrightarrow> (\<forall>(i, rec) \<in> set (rg_members reg).
         abandoned cfg l (leases_attachments l) now member (i, rec) \<longrightarrow>
         (case mr_ip4 rec of Some ip \<Rightarrow> ip \<in> hard \<or> \<not> ipn_contains I net (A4 ip) | None \<Rightarrow> True)))"
proof -
  obtain n first where hosts: "v4_hosts I net = (n, first)" by fastforce
  let ?scan = "scan_from_cursor n (\<lambda>i. first + of_nat i) taken (cursor_of ''ipv4'' reg)"
  let ?rc = "reclaimable cfg reg reclaim now member hard mr_ip4 (\<lambda>ip. ipn_contains I net (A4 ip))"
  have "is_v4 net" using cidr_of(1) [OF assms(2)] by blast
  have full: "?scan = None \<longleftrightarrow> (\<forall>a. is_host4 I net a \<longrightarrow> a \<in> taken)"
    unfolding scan_None v4_hosts_exact [OF assms(1) \<open>is_v4 net\<close> hosts, symmetric] by blast
  have none: "?rc = None \<longleftrightarrow> (\<forall>l. reclaim = Some l \<longrightarrow> (\<forall>(i, rec) \<in> set (rg_members reg).
      abandoned cfg l (leases_attachments l) now member (i, rec) \<longrightarrow>
      (case mr_ip4 rec of Some ip \<Rightarrow> ip \<in> hard \<or> \<not> ipn_contains I net (A4 ip) | None \<Rightarrow> True)))"
    using reclaimable_None by (cases reclaim) (simp_all add: reclaimable_def)
  have "alloc_v4 I cfg reg taken hard reclaim now member = Inl e \<longleftrightarrow>
      e = address_space_exhausted \<and> ?scan = None \<and> ?rc = None"
    using hosts assms(2) by (cases ?scan; cases ?rc) (auto simp: alloc_v4_def)
  then show ?thesis unfolding full none .
qed

theorem alloc_v4_exhausted_witness:
  "alloc_v4 ipnet_std example_pool example_reg {0x0A000001, 0x0A000002} {} None 10 ''c'' = Inl address_space_exhausted
   \<and> \<not> is_host4 ipnet_std (V4 0x0A000000 30) 0x0A000003"
proof -
  have cidr: "ipv4_cidr example_pool = Some (V4 0x0A000000 30)" by code_simp
  have run: "alloc_v4 ipnet_std example_pool example_reg {0x0A000001, 0x0A000002} {} None 10 ''c''
      = Inl address_space_exhausted"
    by code_simp
  from alloc_v4_exhausted [OF ipnet_std_ok cidr, THEN iffD1, OF run] run show ?thesis by auto
qed

end
