(* ===== verification/Nq_Directory.thy ===== *)
theory Nq_Directory
  imports Nq_Registry Nq_Leases
begin

text \<open>
  The directory of a network (\<open>crates/nqvpn-coord/src/directory.rs\<close>): the published view derived from
  configuration, registry and leases, its generations, the ring of recent deltas, ownership of routed
  prefixes with hold-down, the network MTU and the traffic reports. The encoder behind the digest and
  the operations on prefixes are parameters, as in the theories of the view and of the configuration.
\<close>

section \<open>Numbers as text\<close>

definition digit_char :: "int \<Rightarrow> char" where
  "digit_char d = char_of (48 + nat d)"

function show_uint :: "int \<Rightarrow> string" where
  "show_uint n = (if n < 10 then [digit_char n] else show_uint (n div 10) @ [digit_char (n mod 10)])"
  by pat_completeness auto
termination by (relation "measure nat") auto

declare show_uint.simps [simp del]

section \<open>State\<close>

definition RING :: nat where "RING = 512"
definition MIN_TUNNEL_MTU :: u16 where "MIN_TUNNEL_MTU = 1280"
definition TRAFFIC_RETENTION_SECS :: nat where "TRAFFIC_RETENTION_SECS = 300"
definition MTU_QUANTUM :: u16 where "MTU_QUANTUM = 8"

record traffic_sample =
  ts_at :: nat
  ts_report :: traffic_report
  ts_prev_at :: nat
  ts_prev :: "(node_id, u64 \<times> u64) hmap option"

text \<open>Bytes per second on one link. The counters are subtracted with saturation.\<close>

definition traffic_rate :: "traffic_sample \<Rightarrow> link_traffic \<Rightarrow> bool \<Rightarrow> nat" where
  "traffic_rate s link tx =
     (case ts_prev s of
        None \<Rightarrow> 0
      | Some prev \<Rightarrow>
          if ts_at s > ts_prev_at s then
            let before = (case map_of prev (lt_peer_id link) of Some (t, r) \<Rightarrow> if tx then t else r | None \<Rightarrow> 0);
                now = (if tx then lt_tx_bytes link else lt_rx_bytes link)
            in (unat now - unat before) div (ts_at s - ts_prev_at s)
          else 0)"

definition quantize_mtu :: "u16 \<Rightarrow> u16 \<Rightarrow> u16" where
  "quantize_mtu reported ceil =
     (let v = min reported ceil; v = (if v < ceil then v - v mod MTU_QUANTUM else v)
      in max v MIN_TUNNEL_MTU)"

datatype reachability = Unknown | Reachable | Unreachable

record directory =
  dr_gen :: u64
  dr_published :: snapshot
  dr_published_digest :: u64
  dr_ring :: "delta list"
  dr_owners :: "(string, node_id) btree"
  dr_hold_down_secs :: nat
  dr_reachability :: "(node_id, reachability) hmap"
  dr_reported_mtu :: "(node_id, u16) hmap"
  dr_traffic :: "(node_id, traffic_sample) hmap"
  dr_exit_readiness :: "(node_id, exit_readiness) hmap"

definition directory_new :: "(snapshot \<Rightarrow> bytes) \<Rightarrow> u64 \<Rightarrow> nat \<Rightarrow> directory" where
  "directory_new enc gen0 hold =
     (let published = snapshot_default\<lparr>sn_gen := gen0\<rparr> in
      \<lparr>dr_gen = gen0, dr_published = published, dr_published_digest = digest enc published, dr_ring = [],
       dr_owners = [], dr_hold_down_secs = hold, dr_reachability = [], dr_reported_mtu = [],
       dr_traffic = [], dr_exit_readiness = []\<rparr>)"

section \<open>Owners of routed prefixes\<close>

definition choose_owner :: "leases \<Rightarrow> nat \<Rightarrow> nat \<Rightarrow> node_id option \<Rightarrow> node_id option \<Rightarrow> node_id option" where
  "choose_owner l hold now current best =
     (case (current, best) of
        (Some cur, Some b) \<Rightarrow>
          if cur = b then Some cur
          else if leases_is_online l cur then
            (let since = (case leases_online_since l b of Some t \<Rightarrow> t | None \<Rightarrow> 0) div 1000 in
             if now - since \<ge> hold then Some b else Some cur)
          else Some b
      | _ \<Rightarrow> best)"

text \<open>The oldest registrant that is online.\<close>

definition best_live :: "leases \<Rightarrow> (node_id \<times> nat) list \<Rightarrow> node_id option" where
  "best_live l regs =
     (case filter (\<lambda>(n, _). leases_is_online l n) regs of [] \<Rightarrow> None | (n, _) # _ \<Rightarrow> Some n)"

definition owner_step ::
    "ipnet \<Rightarrow> leases \<Rightarrow> nat \<Rightarrow> nat \<Rightarrow> (string, node_id) btree \<Rightarrow> ip_net \<times> (node_id \<times> nat) list
      \<Rightarrow> (string, node_id) btree \<Rightarrow> (string, node_id) btree" where
  "owner_step I l hold now owners = (\<lambda>(cidr, regs) new_owners.
     let key = ipn_to_string I cidr in
     case choose_owner l hold now (map_of owners key) (best_live l regs) of
       Some ow \<Rightarrow> bt_insert key ow new_owners
     | None \<Rightarrow> new_owners)"

definition dir_resolve_owners :: "ipnet \<Rightarrow> registry \<Rightarrow> leases \<Rightarrow> nat \<Rightarrow> directory \<Rightarrow> directory" where
  "dir_resolve_owners I reg l now d =
     d\<lparr>dr_owners := fold (owner_step I l (dr_hold_down_secs d) now (dr_owners d)) (reg_resolve_owners I reg) []\<rparr>"

section \<open>The view\<close>

definition owned_prefixes :: "ipnet \<Rightarrow> (string, node_id) btree \<Rightarrow> node_id \<Rightarrow> ip_net list" where
  "owned_prefixes I owners i =
     List.map_filter (\<lambda>(cidr, ow).
       if ow = i then (case ipn_parse I cidr of
           Some net \<Rightarrow> if prefix_len net \<noteq> 0 then Some net else None
         | None \<Rightarrow> None)
       else None) owners"

definition exit_prefixes :: "bool \<Rightarrow> route_reg list \<Rightarrow> ip_net list \<Rightarrow> ip_net list" where
  "exit_prefixes exit_ready routes prefixes =
     fold (\<lambda>r ps. if prefix_len (rr_cidr r) = 0 \<and> exit_ready \<and> rr_cidr r \<notin> set ps
                  then ps @ [rr_cidr r] else ps) routes prefixes"

definition member_view :: "ipnet \<Rightarrow> directory \<Rightarrow> leases \<Rightarrow> node_id \<times> member_record \<Rightarrow> peer_info" where
  "member_view I d l = (\<lambda>(i, rec).
     let prefixes = case_option [] (\<lambda>a. [V4 a 32]) (mr_ip4 rec) @ case_option [] (\<lambda>a. [V6 a 128]) (mr_ip6 rec)
           @ owned_prefixes I (dr_owners d) i;
         exit_ready = (case map_of (dr_exit_readiness d) i of Some e \<Rightarrow> exit_ok e | None \<Rightarrow> False)
     in \<lparr>pi_node_id = i, pi_name = mr_name rec, pi_role = mr_role rec,
         pi_prefixes = sort_key (ipn_to_string I) (exit_prefixes exit_ready (mr_routes rec) prefixes),
         pi_pubkey = unwrap_or [] (mr_pubkey rec), pi_online = leases_is_online l i,
         pi_login_gen = mr_login_gen rec\<rparr>)"

definition enabled :: "registry \<Rightarrow> node_id \<Rightarrow> bool" where
  "enabled reg n = (case map_of (rg_members reg) n of Some m \<Rightarrow> \<not> mr_disabled m | None \<Rightarrow> False)"

definition attachment_view :: "registry \<Rightarrow> leases \<Rightarrow> attachment_entry list" where
  "attachment_view reg l =
     map (\<lambda>(c, r). \<lparr>ae_node_id = c, ae_relay_id = r\<rparr>)
       (filter (\<lambda>(c, r). enabled reg c \<and> enabled reg r) (leases_attachments l))"

definition reserved_view :: "network_config \<Rightarrow> registry \<Rightarrow> ip_net list" where
  "reserved_view cfg reg =
     nc_cidrs cfg @ concat (map (\<lambda>rec. filter (\<lambda>c. prefix_len c \<noteq> 0) (map rr_cidr (mr_routes rec)))
       (filter (\<lambda>m. \<not> mr_disabled m) (map snd (rg_members reg))))"

definition relay_endpoint_of :: "registry \<Rightarrow> string \<times> member_cfg \<Rightarrow> relay_endpoint option" where
  "relay_endpoint_of reg = (\<lambda>(name, m).
     case reg_by_name reg name of
       None \<Rightarrow> None
     | Some rec \<Rightarrow>
         if mr_disabled rec \<or> mr_role rec \<noteq> Relay then None
         else
           let addr = (case mc_relay_addr m of
                 Some c \<Rightarrow> if \<not> starts_with ''auto:'' c then Some c else mr_relay_addr rec
               | None \<Rightarrow> mr_relay_addr rec)
           in case (mr_cert_fp rec, addr) of
                (Some fp, Some a) \<Rightarrow> Some \<lparr>re_relay_id = mr_node_id rec, re_name = name, re_addr = a, re_cert_fp = fp\<rparr>
              | _ \<Rightarrow> None)"

definition relay_endpoints :: "network_config \<Rightarrow> registry \<Rightarrow> relay_endpoint list" where
  "relay_endpoints cfg reg = sort_key re_relay_id (List.map_filter (relay_endpoint_of reg) (nc_relays cfg))"

definition mtu_step :: "node_id \<times> u16 \<Rightarrow> u16 \<times> string \<Rightarrow> u16 \<times> string" where
  "mtu_step = (\<lambda>(node, reported) (best, who).
     if reported > 0 \<and> reported < best then (reported, CHR ''#'' # show_uint (uint node)) else (best, who))"

definition dir_network_mtu :: "directory \<Rightarrow> u16 \<Rightarrow> network_mtu" where
  "dir_network_mtu d ceil =
     (let (best, who) = fold mtu_step (sort (dr_reported_mtu d)) (ceil, ''config'')
      in \<lparr>nm_mtu = max best MIN_TUNNEL_MTU, nm_limited_by = who\<rparr>)"

definition view_of ::
    "ipnet \<Rightarrow> network_config \<Rightarrow> registry \<Rightarrow> leases \<Rightarrow> key_info list \<Rightarrow> directory \<Rightarrow> snapshot" where
  "view_of I cfg reg l keys d =
     snapshot_normalize \<lparr>sn_gen = dr_gen d,
       sn_members = map (member_view I d l) (filter (\<lambda>(_, rec). \<not> mr_disabled rec) (rg_members reg)),
       sn_attachments = attachment_view reg l,
       sn_relays = relay_endpoints cfg reg,
       sn_mtu = dir_network_mtu d (st_mtu (nc_settings cfg)),
       sn_keys = keys,
       sn_reserved_prefixes = reserved_view cfg reg\<rparr>"

section \<open>Publishing\<close>

text \<open>\<open>push_back\<close>, then drop from the front until at most \<open>RING\<close> deltas are left.\<close>

definition ring_push :: "delta \<Rightarrow> delta list \<Rightarrow> delta list" where
  "ring_push dl ring = drop (length ring + 1 - RING) (ring @ [dl])"

definition publish_view :: "(snapshot \<Rightarrow> bytes) \<Rightarrow> snapshot \<Rightarrow> u64 \<Rightarrow> directory \<Rightarrow> delta option \<times> directory" where
  "publish_view enc view now_ms d =
     (if view = dr_published d then (None, d)
      else
        let newer = view\<lparr>sn_gen := max (dr_gen d + 1) now_ms\<rparr>;
            dl = diff (dr_published d) newer
        in (Some dl, d\<lparr>dr_gen := sn_gen newer, dr_published := newer, dr_published_digest := digest enc newer,
                      dr_ring := ring_push dl (dr_ring d)\<rparr>))"

definition recompute ::
    "ipnet \<Rightarrow> (snapshot \<Rightarrow> bytes) \<Rightarrow> network_config \<Rightarrow> registry \<Rightarrow> leases \<Rightarrow> key_info list \<Rightarrow> nat \<Rightarrow> u64
      \<Rightarrow> directory \<Rightarrow> delta option \<times> directory" where
  "recompute I enc cfg reg l keys now now_ms d =
     (let d = dir_resolve_owners I reg l now d
      in publish_view enc (view_of I cfg reg l keys d) now_ms d)"

fun contiguous :: "u64 \<Rightarrow> delta list \<Rightarrow> u64 option" where
  "contiguous expect [] = Some expect"
| "contiguous expect (d # ds) = (if dl_base_gen d \<noteq> expect then None else contiguous (dl_gen d) ds)"

definition deltas_since :: "directory \<Rightarrow> u64 \<Rightarrow> delta list option" where
  "deltas_since d have_gen =
     (if have_gen = dr_gen d then Some []
      else case dropWhile (\<lambda>dl. dl_base_gen dl \<noteq> have_gen) (dr_ring d) of
        [] \<Rightarrow> None
      | chain \<Rightarrow> if contiguous have_gen chain = Some (dr_gen d) then Some chain else None)"

section \<open>Traffic\<close>

definition keep_link ::
    "(node_id \<Rightarrow> bool) \<Rightarrow> nat \<Rightarrow> link_traffic \<Rightarrow> node_id list \<times> link_traffic list \<Rightarrow> node_id list \<times> link_traffic list" where
  "keep_link known max_links lt = (\<lambda>(seen, kept).
     if length seen < max_links \<and> known (lt_peer_id lt) \<and> lt_peer_id lt \<notin> set seen
     then (lt_peer_id lt # seen, kept @ [lt]) else (seen, kept))"

definition dir_prune_traffic :: "nat \<Rightarrow> directory \<Rightarrow> directory" where
  "dir_prune_traffic now d = d\<lparr>dr_traffic := filter (\<lambda>(_, s). now - ts_at s \<le> TRAFFIC_RETENTION_SECS) (dr_traffic d)\<rparr>"

definition dir_record_traffic ::
    "node_id \<Rightarrow> traffic_report \<Rightarrow> nat \<Rightarrow> (node_id \<Rightarrow> bool) \<Rightarrow> nat \<Rightarrow> directory \<Rightarrow> directory" where
  "dir_record_traffic relay report now known max_links d =
     (let report = report\<lparr>tr_links := snd (fold (keep_link known max_links) (tr_links report) ([], []))\<rparr>;
          (prev, prev_at) = (case map_of (dr_traffic d) relay of
              Some s \<Rightarrow> (Some (fold (\<lambda>lt. hm_insert (lt_peer_id lt) (lt_tx_bytes lt, lt_rx_bytes lt))
                                (tr_links (ts_report s)) []), ts_at s)
            | None \<Rightarrow> (None, now))
      in dir_prune_traffic now (d\<lparr>dr_traffic := hm_insert relay
           \<lparr>ts_at = now, ts_report = report, ts_prev_at = prev_at, ts_prev = prev\<rparr> (dr_traffic d)\<rparr>))"

section \<open>Histories\<close>

text \<open>
  A run of the directory with the list of the views it has published, the first being the empty view
  of the start. Between recomputations the other fields may change in any way: heartbeats and operator
  actions write the reported MTUs, the readiness of exits and the traffic table. A recomputation at
  the last 64-bit generation is left out: generations follow the clock in milliseconds.
\<close>

inductive dir_run :: "ipnet \<Rightarrow> (snapshot \<Rightarrow> bytes) \<Rightarrow> directory \<Rightarrow> snapshot list \<Rightarrow> bool" for I enc where
  start: "dir_run I enc (directory_new enc g hold) [snapshot_default\<lparr>sn_gen := g\<rparr>]"
| quiet: "dir_run I enc d h \<Longrightarrow> dr_gen d \<noteq> - 1 \<Longrightarrow> recompute I enc cfg reg l keys now now_ms d = (None, d')
    \<Longrightarrow> dir_run I enc d' h"
| published: "dir_run I enc d h \<Longrightarrow> dr_gen d \<noteq> - 1 \<Longrightarrow> recompute I enc cfg reg l keys now now_ms d = (Some dl, d')
    \<Longrightarrow> dir_run I enc d' (h @ [dr_published d'])"
| other: "dir_run I enc d h \<Longrightarrow> dir_run I enc (d\<lparr>dr_hold_down_secs := hold, dr_reachability := reach,
    dr_reported_mtu := mtu, dr_traffic := traffic, dr_exit_readiness := ready\<rparr>) h"

definition dir_inv :: "(snapshot \<Rightarrow> bytes) \<Rightarrow> directory \<Rightarrow> snapshot list \<Rightarrow> bool" where
  "dir_inv enc d h \<longleftrightarrow> h \<noteq> [] \<and> last h = dr_published d \<and> sn_gen (dr_published d) = dr_gen d
     \<and> dr_published_digest d = digest enc (dr_published d)
     \<and> sorted_wrt (<) (map sn_gen h) \<and> (\<forall>x \<in> set h. canonical x)
     \<and> dr_ring d = drop (length h - 1 - RING) (consecutive diff h)"

lemma length_consecutive [simp]: "length (consecutive f h) = length h - 1"
  by (induction f h rule: consecutive.induct) auto

lemma consecutive_snoc: "h \<noteq> [] \<Longrightarrow> consecutive f (h @ [x]) = consecutive f h @ [f (last h) x]"
  by (induction f h rule: consecutive.induct) auto

lemma consecutive_drop: "k < length h \<Longrightarrow> consecutive f (drop k h) = drop k (consecutive f h)"
proof (induction k arbitrary: h)
  case (Suc k)
  then obtain a b r where h: "h = a # b # r" by (cases h; cases "tl h") auto
  with Suc.IH [of "b # r"] Suc.prems show ?case by simp
qed simp

lemma contiguous_consecutive:
  "contiguous (sn_gen a) (consecutive diff (a # h)) = Some (sn_gen (last (a # h)))"
proof (induction h arbitrary: a)
  case (Cons b h)
  then show ?case by (simp add: diff_def Let_def)
qed simp

lemma base_gens: "map dl_base_gen (consecutive diff h) = map sn_gen (butlast h)"
proof (induction "diff" h rule: consecutive.induct)
  case (1 a b r)
  then show ?case by (simp add: diff_def Let_def)
qed auto

lemma dropWhile_skip:
  assumes "k < length xs" and "P (xs ! k) = False" and "\<And>j. j < k \<Longrightarrow> P (xs ! j)"
  shows "dropWhile P xs = drop k xs"
  using assms
proof (induction xs arbitrary: k)
  case (Cons x xs)
  show ?case
  proof (cases k)
    case 0
    with Cons.prems show ?thesis by simp
  next
    case (Suc j)
    have "P x" using Cons.prems(3) [of 0] Suc by simp
    moreover have "P (xs ! i)" if "i < j" for i using Cons.prems(3) [of "Suc i"] Suc that by simp
    then have "dropWhile P xs = drop j xs"
      using Cons.prems Suc by (intro Cons.IH) auto
    ultimately show ?thesis using Suc by simp
  qed
qed simp

section \<open>The invariant\<close>

lemma ring_push_consecutive:
  assumes "ring = drop (length h - 1 - RING) (consecutive diff h)" and "h \<noteq> []"
  shows "ring_push (diff (last h) x) ring = drop (length (h @ [x]) - 1 - RING) (consecutive diff (h @ [x]))"
proof -
  obtain n where n: "length h = Suc n" using assms(2) by (cases h) auto
  have "length ring = n - (n - RING)" using assms(1) n by simp
  moreover have "n - RING + (Suc n - (RING + (n - RING))) = Suc n - RING" by arith
  ultimately show ?thesis
    using assms n by (simp add: ring_push_def consecutive_snoc drop_drop ac_simps)
qed

lemma dir_inv_new: "dir_inv enc (directory_new enc g hold) [snapshot_default\<lparr>sn_gen := g\<rparr>]"
  by (simp add: dir_inv_def directory_new_def canonical_def snapshot_default_def Let_def)

lemma dir_inv_other:
  "dir_inv enc d h \<Longrightarrow> dr_gen d' = dr_gen d \<Longrightarrow> dr_published d' = dr_published d \<Longrightarrow>
     dr_published_digest d' = dr_published_digest d \<Longrightarrow> dr_ring d' = dr_ring d \<Longrightarrow> dir_inv enc d' h"
  by (simp add: dir_inv_def)

lemma resolve_owners_fields [simp]:
  "dr_gen (dir_resolve_owners I reg l now d) = dr_gen d"
  "dr_published (dir_resolve_owners I reg l now d) = dr_published d"
  "dr_published_digest (dir_resolve_owners I reg l now d) = dr_published_digest d"
  "dr_ring (dir_resolve_owners I reg l now d) = dr_ring d"
  "dr_hold_down_secs (dir_resolve_owners I reg l now d) = dr_hold_down_secs d"
  "dr_reported_mtu (dir_resolve_owners I reg l now d) = dr_reported_mtu d"
  "dr_exit_readiness (dir_resolve_owners I reg l now d) = dr_exit_readiness d"
  by (simp_all add: dir_resolve_owners_def)

lemma canonical_view_of [simp]: "canonical (view_of I cfg reg l keys d)"
  by (simp add: view_of_def)

lemma gen_view_of [simp]: "sn_gen (view_of I cfg reg l keys d) = dr_gen d"
  by (simp add: view_of_def)

lemma canonical_set_gen [simp]: "canonical (s\<lparr>sn_gen := g\<rparr>) = canonical s"
  by (simp add: canonical_def)

lemma gen_grows: "g \<noteq> - 1 \<Longrightarrow> g < max (g + 1) (m :: u64)"
  using word_less_succ [of g] by (simp add: less_max_iff_disj)

lemma publish_view_cases:
  assumes "publish_view enc view now_ms d = (r, d')"
  obtains (same) "view = dr_published d" "r = None" "d' = d"
  | (moved) newer where "view \<noteq> dr_published d" "newer = view\<lparr>sn_gen := max (dr_gen d + 1) now_ms\<rparr>"
      "r = Some (diff (dr_published d) newer)"
      "d' = d\<lparr>dr_gen := sn_gen newer, dr_published := newer, dr_published_digest := digest enc newer,
              dr_ring := ring_push (diff (dr_published d) newer) (dr_ring d)\<rparr>"
  using assms by (auto simp: publish_view_def Let_def split: if_splits)

lemma dir_inv_publish:
  assumes "dir_inv enc d h" and "dr_gen d \<noteq> - 1" and "canonical view" and "publish_view enc view now_ms d = (r, d')"
  shows "dir_inv enc d' (if r = None then h else h @ [dr_published d'])"
  using assms(4)
proof (cases rule: publish_view_cases)
  case same
  with assms(1) show ?thesis by simp
next
  case (moved newer)
  have "sn_gen x < sn_gen newer" if "x \<in> set h" for x
  proof -
    have "sn_gen x \<le> sn_gen (last h)"
      using assms(1) that by (auto simp: dir_inv_def in_set_conv_nth last_conv_nth sorted_wrt_iff_nth_less)
        (metis Suc_pred length_greater_0_conv less_Suc_eq order.order_iff_strict)
    also have "\<dots> < sn_gen newer"
      using assms(1,2) moved(2) gen_grows by (simp add: dir_inv_def)
    finally show ?thesis .
  qed
  moreover have "last h = dr_published d" "h \<noteq> []" using assms(1) by (simp_all add: dir_inv_def)
  ultimately show ?thesis
    using assms(1,3) moved ring_push_consecutive [of "dr_ring d" h newer]
    by (simp add: dir_inv_def sorted_wrt_append)
qed

lemma dir_run_inv: "dir_run I enc d h \<Longrightarrow> dir_inv enc d h"
proof (induction rule: dir_run.induct)
  case (start g hold)
  show ?case by (rule dir_inv_new)
next
  case (quiet d h cfg reg l keys now now_ms d')
  let ?d = "dir_resolve_owners I reg l now d"
  have "dir_inv enc ?d h" by (rule dir_inv_other [OF quiet.IH]) simp_all
  from dir_inv_publish [OF this _ canonical_view_of, of _ _ _ _ _ _ now_ms None d'] quiet.hyps
  show ?case by (simp add: recompute_def Let_def)
next
  case (published d h cfg reg l keys now now_ms dl d')
  let ?d = "dir_resolve_owners I reg l now d"
  have "dir_inv enc ?d h" by (rule dir_inv_other [OF published.IH]) simp_all
  from dir_inv_publish [OF this _ canonical_view_of, of _ _ _ _ _ _ now_ms "Some dl" d'] published.hyps
  show ?case by (simp add: recompute_def Let_def)
next
  case (other d h)
  show ?case by (rule dir_inv_other [OF other.IH]) simp_all
qed

section \<open>Catching up by deltas\<close>

lemma base_gen_nth:
  assumes "j < length h - 1"
  shows "dl_base_gen (consecutive diff h ! j) = sn_gen (h ! j)"
proof -
  have "dl_base_gen (consecutive diff h ! j) = map dl_base_gen (consecutive diff h) ! j"
    using assms by simp
  then show ?thesis using assms by (simp add: base_gens nth_butlast)
qed

lemma gens_distinct:
  "sorted_wrt (<) (map sn_gen h) \<Longrightarrow> i < length h \<Longrightarrow> j < length h \<Longrightarrow> sn_gen (h ! i) = sn_gen (h ! j) \<longleftrightarrow> i = j"
  by (metis length_map linorder_neqE_nat nth_map order_less_irrefl sorted_wrt_iff_nth_less)

lemma ring_from:
  assumes "dir_inv enc d h" and "k < length h - 1"
  shows "dropWhile (\<lambda>dl. dl_base_gen dl \<noteq> sn_gen (h ! k)) (dr_ring d) =
    (if length h - 1 - RING \<le> k then drop k (consecutive diff h) else [])"
proof -
  let ?m = "length h - 1 - RING" and ?C = "consecutive diff h"
  have ring: "dr_ring d = drop ?m ?C" and srt: "sorted_wrt (<) (map sn_gen h)"
    using assms(1) by (simp_all add: dir_inv_def)
  have at: "dl_base_gen (drop ?m ?C ! j) = sn_gen (h ! k) \<longleftrightarrow> ?m + j = k"
    if "j < length (drop ?m ?C)" for j
    using that assms(2) base_gen_nth [of "?m + j" h] gens_distinct [OF srt, of "?m + j" k] by simp
  show ?thesis
  proof (cases "?m \<le> k")
    case True
    have "dropWhile (\<lambda>dl. dl_base_gen dl \<noteq> sn_gen (h ! k)) (drop ?m ?C) = drop (k - ?m) (drop ?m ?C)"
    proof (rule dropWhile_skip)
      show len: "k - ?m < length (drop ?m ?C)" using assms(2) True by simp
      show "(dl_base_gen (drop ?m ?C ! (k - ?m)) \<noteq> sn_gen (h ! k)) = False"
        using at [OF len] True by simp
      show "dl_base_gen (drop ?m ?C ! j) \<noteq> sn_gen (h ! k)" if "j < k - ?m" for j
        using at [of j] that len by simp
    qed
    with True ring show ?thesis by simp
  next
    case False
    then have "dl_base_gen (drop ?m ?C ! j) \<noteq> sn_gen (h ! k)" if "j < length (drop ?m ?C)" for j
      using at [OF that] by simp
    then have "\<forall>dl \<in> set (drop ?m ?C). dl_base_gen dl \<noteq> sn_gen (h ! k)" by (metis in_set_conv_nth)
    with False ring show ?thesis by simp
  qed
qed

lemma deltas_since_known:
  assumes "dir_inv enc d h" and "k < length h"
  shows "deltas_since d (sn_gen (h ! k)) =
    (if length h \<le> k + RING + 1 then Some (consecutive diff (drop k h)) else None)"
proof -
  have srt: "sorted_wrt (<) (map sn_gen h)" and last: "last h = dr_published d" "h \<noteq> []"
      and gen: "sn_gen (dr_published d) = dr_gen d"
    using assms(1) by (simp_all add: dir_inv_def)
  have here: "sn_gen (h ! k) = dr_gen d \<longleftrightarrow> k = length h - 1"
    using gens_distinct [OF srt assms(2), of "length h - 1"] last gen assms(2)
    by (simp add: last_conv_nth)
  show ?thesis
  proof (cases "k = length h - 1")
    case True
    then have "drop k h = [last h]" using last(2) assms(2)
      by (metis Cons_nth_drop_Suc Suc_diff_1 drop_all last_conv_nth length_greater_0_conv order_refl)
    with True here show ?thesis by (simp add: deltas_since_def)
  next
    case False
    then have k: "k < length h - 1" using assms(2) by simp
    let ?chain = "drop k (consecutive diff h)"
    obtain c cs where chain: "?chain = c # cs" using k by (cases ?chain) simp_all
    have "contiguous (sn_gen (h ! k)) ?chain = Some (sn_gen (last (drop k h)))"
      using contiguous_consecutive [of "h ! k" "drop (Suc k) h"] assms(2)
      by (simp add: Cons_nth_drop_Suc consecutive_drop)
    then have cont: "contiguous (sn_gen (h ! k)) ?chain = Some (dr_gen d)"
      using assms(2) last(1) gen by simp
    have span: "length h - 1 - RING \<le> k \<longleftrightarrow> length h \<le> k + RING + 1" by arith
    show ?thesis
      using False here cont chain ring_from [OF assms(1) k] consecutive_drop [OF assms(2), of diff] span
      by (simp add: deltas_since_def)
  qed
qed

lemma catch_up_known:
  assumes "dir_inv enc d h" and "k < length h"
  shows "apply_all snapshot_apply (h ! k) (consecutive diff (drop k h)) = Inr (dr_published d)"
proof -
  have drop: "drop k h = h ! k # drop (Suc k) h" using assms(2) by (simp add: Cons_nth_drop_Suc)
  have "sorted_wrt (<) (map sn_gen (drop k h))"
    using assms(1) by (simp add: dir_inv_def sorted_wrt_drop flip: drop_map)
  moreover have "\<forall>x \<in> set (drop k h). canonical x"
    using assms(1) by (auto simp: dir_inv_def dest: in_set_dropD)
  ultimately have "apply_all snapshot_apply (h ! k) (consecutive diff (drop k h)) = Inr (last (drop k h))"
    unfolding drop by (rule snap.catch_up_from_head)
  then show ?thesis using assms by (simp add: dir_inv_def)
qed

section \<open>What is published\<close>

lemma view_of_moved:
  "view_of I cfg reg l keys (d\<lparr>dr_gen := g, dr_published := p, dr_published_digest := dg, dr_ring := r\<rparr>)
     = (view_of I cfg reg l keys d)\<lparr>sn_gen := g\<rparr>"
proof -
  have "member_view I (d\<lparr>dr_gen := g, dr_published := p, dr_published_digest := dg, dr_ring := r\<rparr>) l
      = member_view I d l"
    by (simp add: member_view_def fun_eq_iff)
  moreover have "dir_network_mtu (d\<lparr>dr_gen := g, dr_published := p, dr_published_digest := dg, dr_ring := r\<rparr>) c
      = dir_network_mtu d c" for c
    by (simp add: dir_network_mtu_def)
  ultimately show ?thesis by (simp add: view_of_def flip: normalize_set_gen)
qed

lemma recompute_view:
  assumes "sn_gen (dr_published d) = dr_gen d" and "dr_gen d \<noteq> - 1" and "canonical (dr_published d)"
    and "recompute I enc cfg reg l keys now now_ms d = (r, d')"
  shows "dr_published d' = view_of I cfg reg l keys d'"
    and "r = None \<Longrightarrow> dr_published d' = dr_published d \<and> dr_gen d' = dr_gen d"
    and "r = Some dl \<Longrightarrow> dr_gen d < dr_gen d' \<and> now_ms \<le> dr_gen d'
      \<and> snapshot_apply (dr_published d) dl = Inr (dr_published d')"
proof -
  let ?d = "dir_resolve_owners I reg l now d"
  have run: "publish_view enc (view_of I cfg reg l keys ?d) now_ms ?d = (r, d')"
    using assms(4) by (simp add: recompute_def Let_def)
  have "dr_published d' = view_of I cfg reg l keys d'
    \<and> (r = None \<longrightarrow> dr_published d' = dr_published d \<and> dr_gen d' = dr_gen d)
    \<and> (\<forall>dl. r = Some dl \<longrightarrow> dr_gen d < dr_gen d' \<and> now_ms \<le> dr_gen d'
        \<and> snapshot_apply (dr_published d) dl = Inr (dr_published d'))"
    using run
  proof (cases rule: publish_view_cases)
    case same
    then show ?thesis by simp
  next
    case (moved newer)
    have lt: "dr_gen d < sn_gen newer" "now_ms \<le> sn_gen newer"
      using moved(2) gen_grows [OF assms(2)] by simp_all
    have "canonical newer" using moved(2) by simp
    with snapshot_diff_apply [OF assms(3) this] lt assms(1) moved show ?thesis
      by (simp add: view_of_moved)
  qed
  then show "dr_published d' = view_of I cfg reg l keys d'"
    and "r = None \<Longrightarrow> dr_published d' = dr_published d \<and> dr_gen d' = dr_gen d"
    and "r = Some dl \<Longrightarrow> dr_gen d < dr_gen d' \<and> now_ms \<le> dr_gen d'
      \<and> snapshot_apply (dr_published d) dl = Inr (dr_published d')"
    by blast+
qed

section \<open>Owners\<close>

text \<open>The registrations of enabled members, in the order the registry visits them.\<close>

definition registrations :: "registry \<Rightarrow> (node_id \<times> route_reg) list" where
  "registrations reg = concat (map (\<lambda>(i, rec). if mr_disabled rec then [] else map (Pair i) (mr_routes rec))
     (rg_members reg))"

definition regs_for :: "ipnet \<Rightarrow> registry \<Rightarrow> string \<Rightarrow> (node_id \<times> nat) list" where
  "regs_for I reg key = map (\<lambda>(i, r). (i, rr_first_granted_unix r))
     (filter (\<lambda>(i, r). ipn_to_string I (rr_cidr r) = key) (registrations reg))"

lemma fold_registrations:
  "fold (\<lambda>(i, rec) m. if mr_disabled rec then m else fold (f i) (mr_routes rec) m) ms acc
   = fold (\<lambda>(i, r). f i r) (concat (map (\<lambda>(i, rec). if mr_disabled rec then [] else map (Pair i) (mr_routes rec)) ms)) acc"
  by (induction ms arbitrary: acc) (auto simp: fold_map comp_def)

text \<open>A table of registrations by printed prefix that lists exactly \<open>f k\<close> under each key.\<close>

definition lists_regs ::
    "ipnet \<Rightarrow> (string \<Rightarrow> (node_id \<times> nat) list) \<Rightarrow> (string, ip_net \<times> (node_id \<times> nat) list) btree \<Rightarrow> bool" where
  "lists_regs I f m \<longleftrightarrow> bt_wf m
     \<and> (\<forall>k. case map_of m k of None \<Rightarrow> f k = [] | Some (c, regs) \<Rightarrow> ipn_to_string I c = k \<and> regs = f k \<and> regs \<noteq> [])"

lemma lists_regsD:
  assumes "lists_regs I f m"
  shows "map_of m k = None \<Longrightarrow> f k = []"
    "map_of m k = Some (c, regs) \<Longrightarrow> ipn_to_string I c = k \<and> regs = f k \<and> regs \<noteq> []"
proof -
  have "case map_of m k of None \<Rightarrow> f k = [] | Some (c, regs) \<Rightarrow> ipn_to_string I c = k \<and> regs = f k \<and> regs \<noteq> []"
    using assms unfolding lists_regs_def by blast
  then show "map_of m k = None \<Longrightarrow> f k = []"
    "map_of m k = Some (c, regs) \<Longrightarrow> ipn_to_string I c = k \<and> regs = f k \<and> regs \<noteq> []"
    by auto
qed

lemma by_cidr_push_eq:
  assumes "lists_regs I f m"
  shows "\<exists>c. ipn_to_string I c = ipn_to_string I (rr_cidr r)
    \<and> by_cidr_push I i r m = bt_insert (ipn_to_string I (rr_cidr r))
        (c, f (ipn_to_string I (rr_cidr r)) @ [(i, rr_first_granted_unix r)]) m"
proof (cases "map_of m (ipn_to_string I (rr_cidr r))")
  case None
  show ?thesis
    by (intro exI [of _ "rr_cidr r"]) (simp add: by_cidr_push_def None lists_regsD(1) [OF assms None])
next
  case (Some e)
  obtain c regs where e: "e = (c, regs)" by (cases e) auto
  note D = lists_regsD(2) [OF assms Some [unfolded e]]
  have "by_cidr_push I i r m = bt_insert (ipn_to_string I (rr_cidr r)) (c, regs @ [(i, rr_first_granted_unix r)]) m"
    by (simp add: by_cidr_push_def Some e)
  then show ?thesis using D by (intro exI [of _ c] conjI) (blast, simp only:)
qed

lemma lists_regs_insert:
  assumes "lists_regs I f m" and "ipn_to_string I c = key"
  shows "lists_regs I (\<lambda>k. f k @ (if key = k then [x] else [])) (bt_insert key (c, f key @ [x]) m)"
proof -
  have "case map_of (bt_insert key (c, f key @ [x]) m) k of
      None \<Rightarrow> f k @ (if key = k then [x] else []) = []
    | Some (c', regs) \<Rightarrow> ipn_to_string I c' = k \<and> regs = f k @ (if key = k then [x] else []) \<and> regs \<noteq> []" for k
  proof (cases "key = k")
    case True
    with assms(2) show ?thesis by simp
  next
    case False
    then have "map_of (bt_insert key (c, f key @ [x]) m) k = map_of m k" by simp
    with False assms(1) show ?thesis unfolding lists_regs_def by (simp only: if_False append_Nil2)
  qed
  moreover have "bt_wf m" using assms(1) by (simp only: lists_regs_def)
  ultimately show ?thesis unfolding lists_regs_def by (blast intro: bt_wf_insert)
qed

lemma lists_regs_push:
  assumes "lists_regs I f m"
  shows "lists_regs I (\<lambda>k. f k @ (if ipn_to_string I (rr_cidr r) = k then [(i, rr_first_granted_unix r)] else []))
    (by_cidr_push I i r m)"
proof -
  obtain c where c: "ipn_to_string I c = ipn_to_string I (rr_cidr r)"
      "by_cidr_push I i r m = bt_insert (ipn_to_string I (rr_cidr r))
         (c, f (ipn_to_string I (rr_cidr r)) @ [(i, rr_first_granted_unix r)]) m"
    using by_cidr_push_eq [OF assms] by blast
  show ?thesis unfolding c(2) by (rule lists_regs_insert [OF assms c(1)])
qed

lemma lists_regs_fold:
  "lists_regs I f m \<Longrightarrow> lists_regs I (\<lambda>k. f k @ map (\<lambda>(i, r). (i, rr_first_granted_unix r))
     (filter (\<lambda>(i, r). ipn_to_string I (rr_cidr r) = k) ps)) (fold (\<lambda>(i, r). by_cidr_push I i r) ps m)"
proof (induction ps arbitrary: f m)
  case (Cons p ps)
  obtain i r where p: "p = (i, r)" by (cases p) auto
  let ?g = "\<lambda>k ps. map (\<lambda>(i, r). (i, rr_first_granted_unix r)) (filter (\<lambda>(i, r). ipn_to_string I (rr_cidr r) = k) ps)"
  have "(f k @ (if ipn_to_string I (rr_cidr r) = k then [(i, rr_first_granted_unix r)] else [])) @ ?g k ps
      = f k @ ?g k (p # ps)" for k
    by (simp add: p)
  with Cons.IH [OF lists_regs_push [OF Cons.prems, of r i]] show ?case by (simp add: p)
qed simp

definition cidr_table :: "ipnet \<Rightarrow> registry \<Rightarrow> (string, ip_net \<times> (node_id \<times> nat) list) btree" where
  "cidr_table I reg = fold (\<lambda>(i, r). by_cidr_push I i r) (registrations reg) []"

lemma cidr_table_lists: "lists_regs I (regs_for I reg) (cidr_table I reg)"
proof -
  have "lists_regs I (\<lambda>k. []) []" by (simp add: lists_regs_def)
  from lists_regs_fold [OF this, of "registrations reg"] show ?thesis
    unfolding cidr_table_def regs_for_def append_Nil .
qed

abbreviation by_age :: "(node_id \<times> nat) list \<Rightarrow> (node_id \<times> nat) list" where
  "by_age \<equiv> sort_key (\<lambda>(n, t). (t, n))"

lemma resolve_owners_table:
  "mset (reg_resolve_owners I reg) = mset (map (\<lambda>(_, c, regs). (c, by_age regs)) (cidr_table I reg))"
  by (simp add: reg_resolve_owners_def cidr_table_def registrations_def fold_registrations Let_def)

lemma cidr_table_wf: "bt_wf (cidr_table I reg)"
  using cidr_table_lists [of I reg] by (simp only: lists_regs_def)

lemma table_entry:
  assumes "(k, c, regs) \<in> set (cidr_table I reg)"
  shows "ipn_to_string I c = k \<and> regs = regs_for I reg k"
proof -
  have "map_of (cidr_table I reg) k = Some (c, regs)"
    by (rule bt_member_iff [OF cidr_table_wf, THEN iffD1, OF assms])
  from lists_regsD(2) [OF cidr_table_lists this] show ?thesis by blast
qed

lemma resolve_owners_entry:
  assumes "(c, regs) \<in> set (reg_resolve_owners I reg)"
  shows "(ipn_to_string I c, c, regs_for I reg (ipn_to_string I c)) \<in> set (cidr_table I reg)"
proof -
  have "(c, regs) \<in> set (map (\<lambda>(_, c, regs). (c, by_age regs)) (cidr_table I reg))"
    using assms mset_eq_setD [OF resolve_owners_table] by blast
  then obtain k rs where "(k, c, rs) \<in> set (cidr_table I reg)" by auto
  with table_entry [OF this] show ?thesis by simp
qed

lemma resolve_owners_complete:
  assumes "regs_for I reg k \<noteq> []"
  shows "\<exists>c. ipn_to_string I c = k \<and> (c, by_age (regs_for I reg k)) \<in> set (reg_resolve_owners I reg)"
proof -
  obtain c regs where e: "map_of (cidr_table I reg) k = Some (c, regs)"
    using lists_regsD(1) [OF cidr_table_lists] assms by (cases "map_of (cidr_table I reg) k") force+
  note D = lists_regsD(2) [OF cidr_table_lists e]
  have "(c, by_age regs) \<in> set (map (\<lambda>(_, c, regs). (c, by_age regs)) (cidr_table I reg))"
    using map_of_SomeD [OF e] by force
  then have "(c, by_age regs) \<in> set (reg_resolve_owners I reg)"
    using mset_eq_setD [OF resolve_owners_table] by blast
  with D show ?thesis by blast
qed

lemma resolve_owners_distinct:
  "distinct (map (\<lambda>(c, _). ipn_to_string I c) (reg_resolve_owners I reg))"
proof -
  have "map (\<lambda>(c, _). ipn_to_string I c) (map (\<lambda>(_, c, regs). (c, by_age regs)) (cidr_table I reg))
      = map fst (cidr_table I reg)"
    using table_entry by (auto simp: case_prod_beta intro!: map_cong)
  moreover have "mset (map (\<lambda>(c, _). ipn_to_string I c) (reg_resolve_owners I reg))
      = mset (map (\<lambda>(c, _). ipn_to_string I c) (map (\<lambda>(_, c, regs). (c, by_age regs)) (cidr_table I reg)))"
    unfolding mset_map [of _ "reg_resolve_owners I reg"] mset_map [of _ "map _ _"] resolve_owners_table ..
  ultimately show ?thesis using bt_wf_distinct [OF cidr_table_wf] mset_eq_imp_distinct_iff by metis
qed

lemma owner_fold_other:
  "\<forall>(c, _) \<in> set xs. ipn_to_string I c \<noteq> key \<Longrightarrow> map_of (fold (owner_step I l hold now owners) xs acc) key = map_of acc key"
  by (induction xs arbitrary: acc) (auto simp: owner_step_def Let_def split: option.split)

lemma owner_fold_entry:
  assumes "(c, regs) \<in> set xs" and "distinct (map (\<lambda>(c, _). ipn_to_string I c) xs)"
    and "map_of acc (ipn_to_string I c) = None"
  shows "map_of (fold (owner_step I l hold now owners) xs acc) (ipn_to_string I c) =
    choose_owner l hold now (map_of owners (ipn_to_string I c)) (best_live l regs)"
  using assms
proof (induction xs arbitrary: acc)
  case (Cons x xs)
  obtain c' regs' where x: "x = (c', regs')" by (cases x) auto
  show ?case
  proof (cases "x = (c, regs)")
    case True
    have "\<forall>(c'', _) \<in> set xs. ipn_to_string I c'' \<noteq> ipn_to_string I c"
      using Cons.prems(2) True by (auto simp: image_iff)
    from owner_fold_other [OF this] True Cons.prems(3) show ?thesis
      by (simp add: owner_step_def Let_def split: option.split)
  next
    case False
    then have mem: "(c, regs) \<in> set xs" using Cons.prems(1) by auto
    then have "ipn_to_string I c' \<noteq> ipn_to_string I c"
      using Cons.prems(2) x by (force simp: image_iff)
    then have "map_of (owner_step I l hold now owners x acc) (ipn_to_string I c) = None"
      using Cons.prems(3) x by (simp add: owner_step_def Let_def split: option.split)
    with Cons.IH [OF mem _ this] Cons.prems(2) show ?thesis by simp
  qed
qed simp

lemma owners_lookup:
  "map_of (dr_owners (dir_resolve_owners I reg l now d)) key =
     choose_owner l (dr_hold_down_secs d) now (map_of (dr_owners d) key) (best_live l (by_age (regs_for I reg key)))"
proof (cases "regs_for I reg key = []")
  case True
  have "ipn_to_string I c \<noteq> key" if "(c, regs) \<in> set (reg_resolve_owners I reg)" for c regs
  proof
    assume k: "ipn_to_string I c = key"
    with resolve_owners_entry [OF that] have e: "(key, c, regs_for I reg key) \<in> set (cidr_table I reg)" by simp
    from lists_regsD(2) [OF cidr_table_lists bt_member_iff [OF cidr_table_wf, THEN iffD1, OF e]] True
    show False by simp
  qed
  then have "\<forall>(c, _) \<in> set (reg_resolve_owners I reg). ipn_to_string I c \<noteq> key" by auto
  from owner_fold_other [OF this] True show ?thesis
    by (simp add: dir_resolve_owners_def best_live_def choose_owner_def split: option.split)
next
  case False
  then obtain c where c: "ipn_to_string I c = key" "(c, by_age (regs_for I reg key)) \<in> set (reg_resolve_owners I reg)"
    using resolve_owners_complete by blast
  from owner_fold_entry [OF c(2) resolve_owners_distinct, of "[]"] c(1) show ?thesis
    by (simp add: dir_resolve_owners_def)
qed

text \<open>The members that may own a prefix: enabled, registered for it, and online.\<close>

definition live_registrant :: "ipnet \<Rightarrow> registry \<Rightarrow> leases \<Rightarrow> string \<Rightarrow> node_id \<Rightarrow> nat \<Rightarrow> bool" where
  "live_registrant I reg l key n t \<longleftrightarrow> leases_is_online l n \<and>
     (\<exists>m r. (n, m) \<in> set (rg_members reg) \<and> \<not> mr_disabled m \<and> r \<in> set (mr_routes m)
        \<and> ipn_to_string I (rr_cidr r) = key \<and> rr_first_granted_unix r = t)"

lemma set_regs_for:
  "(n, t) \<in> set (regs_for I reg key) \<and> leases_is_online l n \<longleftrightarrow> live_registrant I reg l key n t"
  by (auto simp: regs_for_def registrations_def live_registrant_def image_iff split: if_splits)

lemma best_live_Some:
  assumes "best_live l (by_age regs) = Some n"
  shows "\<exists>t. (n, t) \<in> set regs \<and> leases_is_online l n
    \<and> (\<forall>(n', t') \<in> set regs. leases_is_online l n' \<longrightarrow> (t, n) \<le> (t', n'))"
proof -
  let ?live = "filter (\<lambda>(n, _). leases_is_online l n) (by_age regs)"
  obtain t rest where lv: "?live = (n, t) # rest"
    using assms by (auto simp: best_live_def split: list.splits)
  have "sorted (map (\<lambda>(n, t). (t, n)) ?live)" by (rule sorted_filter) simp
  then have least: "(t, n) \<le> (t', n')" if "(n', t') \<in> set ?live" for n' t'
    using that unfolding lv by (cases "(n', t') = (n, t)") force+
  have "(n, t) \<in> set ?live" using lv by simp
  with least show ?thesis by auto
qed

lemma best_live_None:
  "best_live l (by_age regs) = None \<longleftrightarrow> (\<forall>(n, t) \<in> set regs. \<not> leases_is_online l n)"
proof -
  have "best_live l (by_age regs) = None \<longleftrightarrow> filter (\<lambda>(n, _). leases_is_online l n) (by_age regs) = []"
    by (auto simp: best_live_def split: list.splits)
  then show ?thesis by (simp add: filter_empty_conv case_prod_beta)
qed

lemma best_registrant:
  assumes "best_live l (by_age (regs_for I reg key)) = Some n"
  shows "\<exists>t. live_registrant I reg l key n t \<and> (\<forall>n' t'. live_registrant I reg l key n' t' \<longrightarrow> (t, n) \<le> (t', n'))"
  using best_live_Some [OF assms] unfolding set_regs_for [symmetric] by blast

lemma no_registrant:
  "best_live l (by_age (regs_for I reg key)) = None \<longleftrightarrow> (\<nexists>n t. live_registrant I reg l key n t)"
  unfolding best_live_None set_regs_for [symmetric] by blast

lemma choose_owner_cases:
  "choose_owner l hold now current None = None"
  "(\<And>cur. current = Some cur \<Longrightarrow> \<not> leases_is_online l cur) \<Longrightarrow> choose_owner l hold now current (Some b) = Some b"
  "choose_owner l hold now (Some cur) (Some b) = Some n \<Longrightarrow> n \<noteq> cur \<Longrightarrow> leases_is_online l cur \<Longrightarrow>
     n = b \<and> hold \<le> now - unwrap_or 0 (leases_online_since l b) div 1000"
  "\<exists>n. choose_owner l hold now current (Some b) = Some n \<and> (n = b \<or> current = Some n \<and> leases_is_online l n)"
  by (auto simp: choose_owner_def unwrap_or_def Let_def split: option.splits if_splits)

section \<open>The network MTU\<close>

lemma mtu_fold:
  assumes "fold mtu_step xs (b, w) = (b', w')"
  shows "b' \<le> b \<and> (b' = b \<or> b' \<in> snd ` set xs) \<and> (\<forall>(n, m) \<in> set xs. 0 < m \<longrightarrow> b' \<le> m)"
  using assms
proof (induction xs arbitrary: b w)
  case (Cons x xs)
  obtain n m where x: "x = (n, m)" by (cases x) auto
  obtain b1 w1 where s: "mtu_step x (b, w) = (b1, w1)" by fastforce
  have b1: "b1 \<le> b" "b1 = b \<or> b1 = m" "0 < m \<longrightarrow> b1 \<le> m"
    using s by (auto simp: x mtu_step_def split: if_splits)
  from Cons.IH [of b1 w1] Cons.prems s have
    "b' \<le> b1 \<and> (b' = b1 \<or> b' \<in> snd ` set xs) \<and> (\<forall>(n, m) \<in> set xs. 0 < m \<longrightarrow> b' \<le> m)" by simp
  with b1 show ?case by (auto simp: x)
qed simp

lemma network_mtu_spec:
  "MIN_TUNNEL_MTU \<le> nm_mtu (dir_network_mtu d ceil)"
  "nm_mtu (dir_network_mtu d ceil) \<le> max ceil MIN_TUNNEL_MTU"
  "(n, m) \<in> set (dr_reported_mtu d) \<Longrightarrow> 0 < m \<Longrightarrow> nm_mtu (dir_network_mtu d ceil) \<le> max m MIN_TUNNEL_MTU"
  "nm_mtu (dir_network_mtu d ceil) \<in> {ceil, MIN_TUNNEL_MTU} \<union> snd ` set (dr_reported_mtu d)"
proof -
  obtain b w where f: "fold mtu_step (sort (dr_reported_mtu d)) (ceil, ''config'') = (b, w)" by fastforce
  have mtu: "nm_mtu (dir_network_mtu d ceil) = max b MIN_TUNNEL_MTU" by (simp add: dir_network_mtu_def f)
  note F = mtu_fold [OF f, unfolded set_sort]
  show "MIN_TUNNEL_MTU \<le> nm_mtu (dir_network_mtu d ceil)" by (simp add: mtu)
  show "nm_mtu (dir_network_mtu d ceil) \<le> max ceil MIN_TUNNEL_MTU" using F by (auto simp: mtu le_max_iff_disj)
  show "nm_mtu (dir_network_mtu d ceil) \<le> max m MIN_TUNNEL_MTU" if "(n, m) \<in> set (dr_reported_mtu d)" "0 < m"
    using F that by (auto simp: mtu le_max_iff_disj)
  show "nm_mtu (dir_network_mtu d ceil) \<in> {ceil, MIN_TUNNEL_MTU} \<union> snd ` set (dr_reported_mtu d)"
    using F by (auto simp: mtu max_def)
qed

lemma quantize_mtu_bounds:
  "MIN_TUNNEL_MTU \<le> quantize_mtu r c"
  "MIN_TUNNEL_MTU \<le> c \<Longrightarrow> quantize_mtu r c \<le> c"
  "MIN_TUNNEL_MTU \<le> r \<Longrightarrow> quantize_mtu r c \<le> r"
proof -
  have q: "v - v mod MTU_QUANTUM \<le> v" for v :: u16
    by (simp add: word_le_nat_alt unat_sub unat_mod word_le_nat_alt)
  show "MIN_TUNNEL_MTU \<le> quantize_mtu r c" by (simp add: quantize_mtu_def Let_def)
  show "quantize_mtu r c \<le> c" if "MIN_TUNNEL_MTU \<le> c"
    using that q [of "min r c"] by (auto simp: quantize_mtu_def Let_def min_def intro: order.trans)
  show "quantize_mtu r c \<le> r" if "MIN_TUNNEL_MTU \<le> r"
    using that q [of "min r c"] by (auto simp: quantize_mtu_def Let_def min_def not_le intro: order.trans)
qed

section \<open>Traffic reports\<close>

lemma keep_link_if:
  "keep_link known m x (seen, kept) =
     (if length seen < m \<and> known (lt_peer_id x) \<and> lt_peer_id x \<notin> set seen
      then (lt_peer_id x # seen, kept @ [x]) else (seen, kept))"
  by (simp add: keep_link_def)

lemma keep_links:
  assumes "fold (keep_link known m) ls (seen, kept) = (seen', kept')"
    and "seen = rev (map lt_peer_id kept)" and "distinct seen" and "length seen \<le> m"
    and "\<forall>k \<in> set kept. known (lt_peer_id k)"
  shows "distinct (map lt_peer_id kept') \<and> length kept' \<le> m \<and> (\<forall>k \<in> set kept'. known (lt_peer_id k))
    \<and> set kept' \<subseteq> set kept \<union> set ls"
  using assms
proof (induction ls arbitrary: seen kept)
  case (Cons x xs)
  show ?case
  proof (cases "length seen < m \<and> known (lt_peer_id x) \<and> lt_peer_id x \<notin> set seen")
    case True
    have "fold (keep_link known m) xs (lt_peer_id x # seen, kept @ [x]) = (seen', kept')"
      using Cons.prems(1) unfolding fold_Cons o_apply keep_link_if if_P [OF True] .
    from Cons.IH [OF this] Cons.prems True show ?thesis by auto
  next
    case False
    have "fold (keep_link known m) xs (seen, kept) = (seen', kept')"
      using Cons.prems(1) unfolding fold_Cons o_apply keep_link_if if_not_P [OF False] .
    from Cons.IH [OF this Cons.prems(2-5)] show ?thesis by auto
  qed
qed simp

lemma dir_record_traffic_links:
  assumes "hm_wf (dr_traffic d)" and "map_of (dr_traffic (dir_record_traffic relay report now known m d)) relay = Some s"
  shows "ts_at s = now \<and> distinct (map lt_peer_id (tr_links (ts_report s))) \<and> length (tr_links (ts_report s)) \<le> m
    \<and> (\<forall>k \<in> set (tr_links (ts_report s)). known (lt_peer_id k) \<and> k \<in> set (tr_links report))"
proof -
  obtain seen kept where k: "fold (keep_link known m) (tr_links report) ([], []) = (seen, kept)" by fastforce
  obtain pr pa where "map_of (dr_traffic (dir_record_traffic relay report now known m d)) relay
      = Some \<lparr>ts_at = now, ts_report = report\<lparr>tr_links := kept\<rparr>, ts_prev_at = pa, ts_prev = pr\<rparr>"
    using assms(1) by (cases "map_of (dr_traffic d) relay")
      (simp_all add: dir_record_traffic_def dir_prune_traffic_def k Let_def map_of_filter_distinct)
  with assms(2) have "s = \<lparr>ts_at = now, ts_report = report\<lparr>tr_links := kept\<rparr>, ts_prev_at = pa, ts_prev = pr\<rparr>" by simp
  with keep_links [OF k] show ?thesis by auto
qed

section \<open>Properties\<close>

text \<open>
  Two relays that may route one LAN, each with the times of its grants. Both are online, and the
  second owns the prefix.
\<close>

definition example_lan :: ip_net where "example_lan = V4 0xac100000 16"

definition example_start :: directory where "example_start = directory_new (\<lambda>_. []) 5 60"

definition example_config :: network_config where
  "example_config = \<lparr>nc_network_id = ''n'', nc_cidrs = [V4 0x0A000000 24], nc_settings = settings_default,
     nc_relays = [(''a'', member_cfg_default), (''b'', member_cfg_default)], nc_clients = []\<rparr>"

definition example_relays :: "nat list \<Rightarrow> nat list \<Rightarrow> registry" where
  "example_relays ta tb = (registry_new ''u'')\<lparr>rg_next_node_id := 3, rg_members :=
     [(1, (new_record 1 ''a'' Relay 0)\<lparr>mr_routes := map (\<lambda>t. \<lparr>rr_cidr = example_lan, rr_first_granted_unix = t\<rparr>) ta\<rparr>),
      (2, (new_record 2 ''b'' Relay 0)\<lparr>mr_routes := map (\<lambda>t. \<lparr>rr_cidr = example_lan, rr_first_granted_unix = t\<rparr>) tb\<rparr>)]\<rparr>"

definition example_online :: leases where
  "example_online = leases_default\<lparr>ls_last_seen := [(1, 30), (2, 30)], ls_online_since := [(1, 20), (2, 10)]\<rparr>"

definition example_dir :: directory where
  "example_dir = (directory_new (\<lambda>_. []) 5 60)\<lparr>dr_owners := [(ipn_to_string ipnet_std example_lan, 2)]\<rparr>"


abbreviation example_next :: "delta option \<times> directory" where
  "example_next \<equiv> recompute ipnet_std (\<lambda>_. []) example_config (example_relays [1] [2]) leases_default [] 30 1000 example_start"

lemma example_recompute: "map_option dl_gen (fst example_next) = Some 1000"
  by code_simp

lemma example_published: "\<exists>dl d'. example_next = (Some dl, d') \<and> dl_gen dl = 1000"
  using example_recompute by (cases example_next) auto

lemma example_start_run: "dir_run ipnet_std (\<lambda>_. []) example_start [snapshot_default\<lparr>sn_gen := 5\<rparr>]" "dr_gen example_start \<noteq> - 1"
  unfolding example_start_def by (rule dir_run.start) (simp add: directory_new_def Let_def)


text \<open>
  Catching up. A member that holds the view published at any generation is served the deltas
  since, if at most 512 views were published after it, and refused otherwise; the deltas it is served
  take it to the current view, one delta per view it missed.
\<close>

theorem deltas_since_catch_up:
  assumes "dir_run I enc d h" and "k < length h"
  shows "if length h \<le> k + 512 + 1
    then \<exists>ds. deltas_since d (sn_gen (h ! k)) = Some ds \<and> length ds = length h - 1 - k
      \<and> apply_all snapshot_apply (h ! k) ds = Inr (dr_published d)
    else deltas_since d (sn_gen (h ! k)) = None"
  using deltas_since_known [OF dir_run_inv [OF assms(1)] assms(2)]
    catch_up_known [OF dir_run_inv [OF assms(1)] assms(2)] assms(2)
  by (simp add: RING_def)

theorem deltas_since_catch_up_witness:
  "\<exists>d ds. dr_gen d \<noteq> 5 \<and> deltas_since d 5 = Some ds \<and> length ds = 1
    \<and> apply_all snapshot_apply (snapshot_default\<lparr>sn_gen := 5\<rparr>) ds = Inr (dr_published d)"
proof -
  obtain dl d' where run: "example_next = (Some dl, d')" using example_published by blast
  have r: "dir_run ipnet_std (\<lambda>_. []) d' ([snapshot_default\<lparr>sn_gen := 5\<rparr>] @ [dr_published d'])"
    by (rule dir_run.published [OF example_start_run run])
  have "dr_gen d' \<noteq> 5"
    using dir_run_inv [OF r] by (auto simp: dir_inv_def)
  with deltas_since_catch_up [OF r, of 0] show ?thesis by auto
qed

text \<open>
  C11. Ownership of routed prefixes. A prefix has an owner exactly when some enabled registrant of it
  is online, and an owner is online. With no living owner, the living registrant of the oldest grant
  takes over at once. A living owner is displaced only by that registrant, once it has been online for
  the hold-down time.
\<close>

theorem owners_live:
  "(map_of (dr_owners (dir_resolve_owners I reg l now d)) key \<noteq> None \<longleftrightarrow> (\<exists>n t. live_registrant I reg l key n t))
    \<and> (\<forall>n. map_of (dr_owners (dir_resolve_owners I reg l now d)) key = Some n \<longrightarrow> leases_is_online l n
        \<and> (map_of (dr_owners d) key = Some n
           \<or> (\<exists>t. live_registrant I reg l key n t
                \<and> (\<forall>n' t'. live_registrant I reg l key n' t' \<longrightarrow> (t, n) \<le> (t', n')))
             \<and> (\<forall>cur. map_of (dr_owners d) key = Some cur \<longrightarrow> \<not> leases_is_online l cur
                 \<or> dr_hold_down_secs d \<le> now - unwrap_or 0 (leases_online_since l n) div 1000)))"
proof (cases "best_live l (by_age (regs_for I reg key))")
  case None
  with no_registrant [of l I reg key] show ?thesis
    by (simp add: owners_lookup choose_owner_cases(1))
next
  case (Some b)
  note best = best_registrant [OF Some]
  let ?cur = "map_of (dr_owners d) key" and ?hold = "dr_hold_down_secs d"
  obtain n where n: "choose_owner l ?hold now ?cur (Some b) = Some n" "n = b \<or> ?cur = Some n \<and> leases_is_online l n"
    using choose_owner_cases(4) by blast
  have own: "map_of (dr_owners (dir_resolve_owners I reg l now d)) key = Some n" using n(1) by (simp add: owners_lookup Some)
  have on: "leases_is_online l n" using n(2) best by (auto simp: live_registrant_def)
  have hold: "\<not> leases_is_online l cur \<or> ?hold \<le> now - unwrap_or 0 (leases_online_since l n) div 1000"
    if "?cur = Some cur" "n \<noteq> cur" for cur
    using choose_owner_cases(3) [of l ?hold now cur b n] n(1) that by auto
  have "?cur = Some n \<or> (\<exists>t. live_registrant I reg l key n t
        \<and> (\<forall>n' t'. live_registrant I reg l key n' t' \<longrightarrow> (t, n) \<le> (t', n')))
      \<and> (\<forall>cur. ?cur = Some cur \<longrightarrow> \<not> leases_is_online l cur
          \<or> ?hold \<le> now - unwrap_or 0 (leases_online_since l n) div 1000)"
    using n(2) best hold by blast
  with own on best show ?thesis by auto
qed

lemma example_owner:
  "map_of (dr_owners (dir_resolve_owners ipnet_std (example_relays [1] [2]) example_online 30 example_dir))
     (ipn_to_string ipnet_std example_lan) = Some 2"
  by code_simp

theorem owners_live_witness:
  "map_of (dr_owners (dir_resolve_owners ipnet_std (example_relays [1] [2]) example_online 30 example_dir))
     (ipn_to_string ipnet_std example_lan) = Some 2
   \<and> (\<exists>n t. live_registrant ipnet_std (example_relays [1] [2]) example_online (ipn_to_string ipnet_std example_lan) n t)"
  using owners_live [of ipnet_std "example_relays [1] [2]" example_online 30 example_dir
      "ipn_to_string ipnet_std example_lan"] example_owner
  by auto

section \<open>An owner that gave up its prefix\<close>

text \<open>
  The hold-down looks at whether the current owner is online, not at whether it still registers the
  prefix: here the second relay no longer does, the first one does and is online, and the prefix stays
  with the second until the first has been online for the hold-down time.
\<close>

lemma departed_owner_kept:
  "map_of (dr_owners (dir_resolve_owners ipnet_std (example_relays [1] []) example_online 30 example_dir))
     (ipn_to_string ipnet_std example_lan) = Some 2
   \<and> regs_for ipnet_std (example_relays [1] []) (ipn_to_string ipnet_std example_lan) = [(1, 1)]"
  by (rule conjI; code_simp)

end
