(* ===== verification/Nq_Coord.thy ===== *)
theory Nq_Coord
  imports Nq_Ipam Nq_Directory Nq_Credential
begin

text \<open>
  The coordinator's state of one network and its control plane (\<open>crates/nqvpn-coord/src/state.rs\<close>,
  \<open>control.rs\<close>): the join transaction, publishing, commits and their rollback, control sessions with
  their bounded push queues, heartbeats, catch-up, credential checks and the liveness sweep. Every
  operation runs under the network's lock, so it is one step on the state.

  The clock, the packages for prefixes, tokens and encodings, and the text form of an address are
  arguments. The database is its two rows of this network and whether writes and reads succeed now.
\<close>

section \<open>Parameters\<close>

record ('sk, 'vk) world =
  w_ipnet :: ipnet
  w_enc :: "snapshot \<Rightarrow> bytes"
  w_jose :: "('sk, 'vk) jose"
  w_verifying_key :: "'sk \<Rightarrow> 'vk"
  w_key_text :: "'sk \<Rightarrow> string"
  w_valid_pubkey :: "string \<Rightarrow> bool"
  w_parse_ip :: "string \<Rightarrow> ip_addr option"
  w_show_ip :: "ip_addr \<Rightarrow> string"

record clock =
  ck_unix :: nat
  ck_ms :: nat

record 'sk stored_key =
  sk_kid :: string
  sk_state :: string
  sk_secret :: 'sk

definition keyring_active :: "'sk stored_key list \<Rightarrow> (string \<times> 'sk) option" where
  "keyring_active ks = map_option (\<lambda>k. (sk_kid k, sk_secret k)) (find (\<lambda>k. sk_state k = ''active'') ks)"

definition key_infos :: "('sk, 'vk) world \<Rightarrow> 'sk stored_key list \<Rightarrow> key_info list" where
  "key_infos W ks = map (\<lambda>k. \<lparr>ki_kid = sk_kid k, ki_key = w_key_text W (sk_secret k), ki_state = sk_state k\<rparr>) ks"

definition verifying_keys :: "('sk, 'vk) world \<Rightarrow> 'sk stored_key list \<Rightarrow> (string \<times> 'vk) list" where
  "verifying_keys W ks = map (\<lambda>k. (sk_kid k, w_verifying_key W (sk_secret k))) ks"

section \<open>State\<close>

definition ISS :: string where "ISS = ''nqvpn-coord''"
definition PUBLISH_DEBOUNCE_MS :: nat where "PUBLISH_DEBOUNCE_MS = 150"
definition PUSH_QUEUE :: nat where "PUSH_QUEUE = 256"

definition CLOSE_TIMEOUT :: u32 where "CLOSE_TIMEOUT = 1"
definition CLOSE_SUPERSEDED :: u32 where "CLOSE_SUPERSEDED = 2"
definition CLOSE_EVICTED :: u32 where "CLOSE_EVICTED = 4"
definition CLOSE_OVERFLOW :: u32 where "CLOSE_OVERFLOW = 5"
definition CLOSE_EXPIRED :: u32 where "CLOSE_EXPIRED = 6"

datatype push = PDelta delta | PSnapshot snapshot | PRaw bytes | PClose string

text \<open>
  A control session. \<open>cs_pushed\<close> is everything its queue has accepted, oldest first; the last
  \<open>cs_queued\<close> of these wait for the writer task. \<open>cs_writer\<close>: that task still receives. \<open>cs_close\<close> is
  the code the connection was closed with, the first one given.
\<close>

record coord_session =
  cs_id :: u64
  cs_node_id :: node_id
  cs_role :: role
  cs_exp :: u64
  cs_login_gen :: u64
  cs_synced :: bool
  cs_pushed :: "push list"
  cs_queued :: nat
  cs_writer :: bool
  cs_close :: "u32 option"
  cs_remote :: string

record db =
  db_cfg :: "network_config option"
  db_registry :: "registry option"
  db_save_ok :: bool
  db_load_ok :: bool

text \<open>\<open>ns_closed\<close> collects the sessions taken out of the table, with the code their connection has.\<close>

record net_state =
  ns_cfg :: network_config
  ns_registry :: registry
  ns_directory :: directory
  ns_leases :: leases
  ns_sessions :: "(node_id, coord_session) hmap"
  ns_started_at :: nat
  ns_deleted :: bool
  ns_last_publish_ms :: nat
  ns_flush_scheduled :: bool
  ns_db :: db
  ns_events :: nat
  ns_closed :: "coord_session list"

definition net_state_new :: "('sk, 'vk) world \<Rightarrow> network_config \<Rightarrow> registry \<Rightarrow> db \<Rightarrow> clock \<Rightarrow> net_state" where
  "net_state_new W cfg reg db ck =
     \<lparr>ns_cfg = cfg, ns_registry = reg,
      ns_directory = directory_new (w_enc W) (initial_gen reg (of_nat (ck_ms ck))) (st_hold_down_secs (nc_settings cfg)),
      ns_leases = leases_default, ns_sessions = [], ns_started_at = ck_unix ck, ns_deleted = False,
      ns_last_publish_ms = 0, ns_flush_scheduled = False, ns_db = db, ns_events = 0, ns_closed = []\<rparr>"

definition in_grace :: "net_state \<Rightarrow> nat \<Rightarrow> bool" where
  "in_grace ns now \<longleftrightarrow> now < sat_add64 (ns_started_at ns) (st_restart_grace_secs (nc_settings (ns_cfg ns)))"

section \<open>Sessions\<close>

definition conn_close :: "u32 \<Rightarrow> coord_session \<Rightarrow> coord_session" where
  "conn_close code s = (if cs_close s = None then s\<lparr>cs_close := Some code\<rparr> else s)"

text \<open>\<open>mpsc::Sender::try_send\<close>: fails when the queue is full or its receiver is gone.\<close>

definition push_send :: "push \<Rightarrow> coord_session \<Rightarrow> coord_session option" where
  "push_send p s =
     (if cs_queued s < PUSH_QUEUE \<and> cs_writer s
      then Some (s\<lparr>cs_pushed := cs_pushed s @ [p], cs_queued := cs_queued s + 1\<rparr>) else None)"

definition push_ignore :: "push \<Rightarrow> coord_session \<Rightarrow> coord_session" where
  "push_ignore p s = (case push_send p s of Some s' \<Rightarrow> s' | None \<Rightarrow> s)"

definition overflow :: "coord_session \<Rightarrow> coord_session" where
  "overflow s = conn_close CLOSE_OVERFLOW (s\<lparr>cs_synced := False\<rparr>)"

fun push_deltas :: "delta list \<Rightarrow> coord_session \<Rightarrow> coord_session" where
  "push_deltas [] s = s\<lparr>cs_synced := True\<rparr>"
| "push_deltas (d # ds) s =
     (case push_send (PDelta d) s of Some s' \<Rightarrow> push_deltas ds s' | None \<Rightarrow> overflow s)"

definition session_catch_up :: "directory \<Rightarrow> u64 \<Rightarrow> coord_session \<Rightarrow> coord_session" where
  "session_catch_up d have_gen s =
     (case deltas_since d have_gen of
        Some chain \<Rightarrow> push_deltas chain s
      | None \<Rightarrow>
          (case push_send (PSnapshot (dr_published d)) s of
             Some s' \<Rightarrow> s'\<lparr>cs_synced := True\<rparr>
           | None \<Rightarrow> overflow s))"

definition upd_session :: "node_id \<Rightarrow> (coord_session \<Rightarrow> coord_session) \<Rightarrow> net_state \<Rightarrow> net_state" where
  "upd_session node f ns =
     (case map_of (ns_sessions ns) node of
        Some s \<Rightarrow> ns\<lparr>ns_sessions := hm_insert node (f s) (ns_sessions ns)\<rparr>
      | None \<Rightarrow> ns)"

definition catch_up :: "node_id \<Rightarrow> u64 \<Rightarrow> net_state \<Rightarrow> net_state" where
  "catch_up node have_gen ns = upd_session node (session_catch_up (ns_directory ns) have_gen) ns"

definition session_broadcast :: "delta \<Rightarrow> coord_session \<Rightarrow> coord_session" where
  "session_broadcast d s =
     (if \<not> cs_synced s then s
      else case push_send (PDelta d) s of Some s' \<Rightarrow> s' | None \<Rightarrow> overflow s)"

definition broadcast_delta :: "delta \<Rightarrow> net_state \<Rightarrow> net_state" where
  "broadcast_delta d ns = ns\<lparr>ns_sessions := map (\<lambda>(n, s). (n, session_broadcast d s)) (ns_sessions ns)\<rparr>"

definition close_session_with :: "node_id \<Rightarrow> u32 \<Rightarrow> string \<Rightarrow> net_state \<Rightarrow> net_state" where
  "close_session_with node code reason ns =
     (case map_of (ns_sessions ns) node of
        Some s \<Rightarrow> ns\<lparr>ns_sessions := hm_remove node (ns_sessions ns),
                     ns_closed := conn_close code (push_ignore (PClose reason) s) # ns_closed ns\<rparr>
      | None \<Rightarrow> ns)"

definition close_session :: "node_id \<Rightarrow> string \<Rightarrow> net_state \<Rightarrow> net_state" where
  "close_session node reason = close_session_with node CLOSE_EVICTED reason"

definition reconfigure :: "node_id \<Rightarrow> string \<Rightarrow> net_state \<Rightarrow> net_state" where
  "reconfigure node why = close_session_with node CLOSE_RECONFIGURED why"

definition reconfigure_all :: "string \<Rightarrow> net_state \<Rightarrow> net_state" where
  "reconfigure_all why ns = fold (\<lambda>node. reconfigure node why) (map fst (ns_sessions ns)) ns"

section \<open>Publishing and committing\<close>

text \<open>A registry row refers to the network's row, which has to be there.\<close>

definition can_save_registry :: "db \<Rightarrow> bool" where
  "can_save_registry d \<longleftrightarrow> db_save_ok d \<and> db_cfg d \<noteq> None"

definition save_registry :: "net_state \<Rightarrow> bool \<times> net_state" where
  "save_registry ns =
     (if can_save_registry (ns_db ns) then (True, ns\<lparr>ns_db := (ns_db ns)\<lparr>db_registry := Some (ns_registry ns)\<rparr>\<rparr>)
      else (False, ns))"

definition notify :: "net_state \<Rightarrow> net_state" where
  "notify ns = ns\<lparr>ns_events := ns_events ns + 1\<rparr>"

definition publish :: "('sk, 'vk) world \<Rightarrow> key_info list \<Rightarrow> clock \<Rightarrow> net_state \<Rightarrow> net_state" where
  "publish W keys ck ns =
     (let ns = ns\<lparr>ns_last_publish_ms := ck_ms ck\<rparr> in
      case recompute (w_ipnet W) (w_enc W) (ns_cfg ns) (ns_registry ns) (ns_leases ns) keys (ck_unix ck)
             (of_nat (ck_ms ck)) (ns_directory ns) of
        (None, d) \<Rightarrow> ns\<lparr>ns_directory := d\<rparr>
      | (Some dl, d) \<Rightarrow>
          let (fresh, reg) = note_gen (dr_gen d) (ns_registry ns);
              ns = ns\<lparr>ns_directory := d, ns_registry := reg\<rparr>;
              ns = (if fresh then snd (save_registry ns) else ns)
          in notify (broadcast_delta dl ns))"

text \<open>\<open>Some\<close> delay: the caller has to publish after it.\<close>

definition publish_soon ::
    "('sk, 'vk) world \<Rightarrow> key_info list \<Rightarrow> clock \<Rightarrow> net_state \<Rightarrow> nat option \<times> net_state" where
  "publish_soon W keys ck ns =
     (let since = ck_ms ck - ns_last_publish_ms ns in
      if since \<ge> PUBLISH_DEBOUNCE_MS then (None, publish W keys ck ns)
      else if ns_flush_scheduled ns then (None, ns)
      else (Some (PUBLISH_DEBOUNCE_MS - since), ns\<lparr>ns_flush_scheduled := True\<rparr>))"

text \<open>The timer of a deferred publish.\<close>

definition flush_due :: "('sk, 'vk) world \<Rightarrow> key_info list \<Rightarrow> clock \<Rightarrow> net_state \<Rightarrow> net_state" where
  "flush_due W keys ck ns = publish W keys ck (ns\<lparr>ns_flush_scheduled := False\<rparr>)"

definition commit :: "net_state \<Rightarrow> (api_error + unit) \<times> net_state" where
  "commit ns =
     (case save_registry ns of
        (True, ns) \<Rightarrow> (Inr (), ns)
      | (False, ns) \<Rightarrow>
          (Inl api_internal,
           if db_load_ok (ns_db ns)
           then (case db_registry (ns_db ns) of Some reg \<Rightarrow> ns\<lparr>ns_registry := reg\<rparr> | None \<Rightarrow> ns)
           else ns))"

definition save_config :: "net_state \<Rightarrow> (api_error + unit) \<times> net_state" where
  "save_config ns =
     (if db_save_ok (ns_db ns) then (Inr (), ns\<lparr>ns_db := (ns_db ns)\<lparr>db_cfg := Some (ns_cfg ns)\<rparr>\<rparr>)
      else (Inl api_internal, ns))"

section \<open>The join transaction\<close>

record join_request =
  jq_secret :: string
  jq_pubkey :: string
  jq_cert_fingerprint :: string

record join_response =
  jr_credential :: string
  jr_network_id :: string
  jr_role :: role
  jr_network_uuid :: string
  jr_signing_keys :: "key_info list"
  jr_node_id :: node_id
  jr_name :: string
  jr_login_gen :: u64
  jr_ip4 :: "u32 option"
  jr_subnet4 :: "ip_net option"
  jr_ip6 :: "u128 option"
  jr_subnet6 :: "ip_net option"
  jr_granted_cidrs :: "ip_net list"
  jr_relay_addr :: "string option"
  jr_preferred_relay :: "string option"
  jr_max_session_mbps :: u32
  jr_relays :: "relay_endpoint list"
  jr_mtu :: u16
  jr_keepalive_secs :: u16
  jr_transport :: string
  jr_lanes :: u8
  jr_control_port :: u16
  jr_heartbeat_secs :: u16

definition is_hexdigit :: "char \<Rightarrow> bool" where
  "is_hexdigit c \<longleftrightarrow> is_digit c \<or> (CHR ''a'' \<le> c \<and> c \<le> CHR ''f'') \<or> (CHR ''A'' \<le> c \<and> c \<le> CHR ''F'')"

definition valid_fingerprint :: "string \<Rightarrow> bool" where
  "valid_fingerprint fp =
     (case strip_prefix ''sha256:'' fp of Some h \<Rightarrow> length h = 64 \<and> list_all is_hexdigit h | None \<Rightarrow> False)"

definition effective_relay_addr :: "('sk, 'vk) world \<Rightarrow> string \<Rightarrow> string \<Rightarrow> string" where
  "effective_relay_addr W configured peer_ip =
     (case strip_prefix ''auto:'' configured of
        Some port \<Rightarrow>
          (case map_option to_canonical (w_parse_ip W peer_ip) of
             Some (A6 a) \<Rightarrow> ''['' @ w_show_ip W (A6 a) @ '']:'' @ port
           | Some (A4 a) \<Rightarrow> w_show_ip W (A4 a) @ '':'' @ port
           | None \<Rightarrow> peer_ip @ '':'' @ port)
      | None \<Rightarrow> configured)"

definition checked_relay_addr ::
    "('sk, 'vk) world \<Rightarrow> string \<Rightarrow> string \<Rightarrow> string \<Rightarrow> network_config \<Rightarrow> api_error + string" where
  "checked_relay_addr W name configured peer_ip cfg =
     res_bind
       (if starts_with ''auto:'' configured then
          (case w_parse_ip W peer_ip of
             None \<Rightarrow> Inl bad_request
           | Some ip \<Rightarrow>
               (case check_relay_ip (w_ipnet W) name (to_canonical ip) cfg of
                  Inl _ \<Rightarrow> Inl bad_request | Inr _ \<Rightarrow> Inr ()))
        else Inr ())
       (\<lambda>_. Inr (effective_relay_addr W configured peer_ip))"

definition join_relay_addr ::
    "('sk, 'vk) world \<Rightarrow> network_config \<Rightarrow> string \<Rightarrow> member_cfg \<Rightarrow> role \<Rightarrow> string \<Rightarrow> api_error + string option" where
  "join_relay_addr W cfg name m r peer_ip =
     (if r = Relay then
        (case mc_relay_addr m of
           None \<Rightarrow> Inl bad_request
         | Some c \<Rightarrow> res_bind (checked_relay_addr W name c peer_ip cfg) (\<lambda>a. Inr (Some a)))
      else Inr None)"

text \<open>The member as configured now, if the secret presented is still its own.\<close>

definition member_now :: "network_config \<Rightarrow> string \<Rightarrow> string \<Rightarrow> (member_cfg \<times> role) option" where
  "member_now cfg name presented =
     (case member_by_name cfg name of
        None \<Rightarrow> None
      | Some (m, r) \<Rightarrow>
          (case mc_secret m of
             Some s \<Rightarrow> if constant_time_eq (str_trim s) presented then Some (m, r) else None
           | None \<Rightarrow> None))"

definition join_addresses ::
    "('sk, 'vk) world \<Rightarrow> net_state \<Rightarrow> string \<Rightarrow> member_cfg \<Rightarrow> nat \<Rightarrow> api_error + granted \<times> registry" where
  "join_addresses W ns name m now =
     (if unwrap_or True (mc_want_vpn_ip m)
      then allocate_for_join (w_ipnet W) (ns_cfg ns) (ns_registry ns) (ns_leases ns) (\<not> in_grace ns now) now name
             (mc_preferred_ip4 m) (mc_preferred_ip6 m)
      else Inr (\<lparr>gr_ip4 = None, gr_ip6 = None\<rparr>, ns_registry ns))"

definition declared_routes :: "ipnet \<Rightarrow> role \<Rightarrow> member_cfg \<Rightarrow> ip_net list" where
  "declared_routes I r m =
     (if r = Relay then map (ipn_trunc I) (mc_local_cidrs m) else [])
     @ (if r = Relay \<and> mc_internet_gateway m = Some True then [V4 0 0, V6 0 0] else [])"

text \<open>Registrations that stay declared keep their age; new ones start now.\<close>

definition granted_routes :: "nat \<Rightarrow> ip_net list \<Rightarrow> route_reg list \<Rightarrow> route_reg list" where
  "granted_routes now declared old =
     fold (\<lambda>c rs. if c \<in> set (map rr_cidr rs) then rs else rs @ [\<lparr>rr_cidr = c, rr_first_granted_unix = now\<rparr>])
       declared (filter (\<lambda>r. rr_cidr r \<in> set declared) old)"

text \<open>Another machine: keys were recorded before, and this join presents different ones.\<close>

definition is_replaced :: "member_record option \<Rightarrow> join_request \<Rightarrow> bool" where
  "is_replaced existing req =
     (case existing of
        Some r \<Rightarrow> mr_pubkey r \<noteq> None
          \<and> (mr_pubkey r \<noteq> Some (jq_pubkey req) \<or> mr_cert_fp r \<noteq> Some (jq_cert_fingerprint req))
      | None \<Rightarrow> False)"

definition join_record ::
    "bool \<Rightarrow> nat \<Rightarrow> join_request \<Rightarrow> granted \<Rightarrow> route_reg list \<Rightarrow> string option \<Rightarrow> string \<Rightarrow> member_record \<Rightarrow> member_record" where
  "join_record replaced now req g routes relay_addr peer_ip rec =
     (let rec = (if replaced then rec\<lparr>mr_login_gen := mr_login_gen rec + 1, mr_replaced_unix := Some now,
            mr_replaced_from := mr_last_join_from rec\<rparr> else rec)
      in rec\<lparr>mr_pubkey := Some (jq_pubkey req), mr_cert_fp := Some (jq_cert_fingerprint req),
             mr_ip4 := gr_ip4 g, mr_ip6 := gr_ip6 g, mr_routes := routes, mr_relay_addr := relay_addr,
             mr_last_join_unix := Some now, mr_last_join_from := Some peer_ip\<rparr>)"

definition join_prefixes :: "ipnet \<Rightarrow> granted \<Rightarrow> route_reg list \<Rightarrow> string list" where
  "join_prefixes I g routes =
     case_option [] (\<lambda>a. [ipn_to_string I (V4 a 32)]) (gr_ip4 g)
     @ case_option [] (\<lambda>a. [ipn_to_string I (V6 a 128)]) (gr_ip6 g)
     @ map (\<lambda>r. ipn_to_string I (rr_cidr r)) routes"

definition join_claims ::
    "('sk, 'vk) world \<Rightarrow> net_state \<Rightarrow> string \<Rightarrow> role \<Rightarrow> join_request \<Rightarrow> member_record \<Rightarrow> granted \<Rightarrow> route_reg list \<Rightarrow> nat \<Rightarrow> claims" where
  "join_claims W ns name r req rec g routes now =
     \<lparr>cl_iss = ISS, cl_aud = AUD, cl_network_id = nc_network_id (ns_cfg ns),
      cl_network_uuid = rg_network_uuid (ns_registry ns), cl_node_id = mr_node_id rec, cl_sub = name, cl_role = r,
      cl_pubkey = jq_pubkey req, cl_cert_fp = jq_cert_fingerprint req,
      cl_prefixes = join_prefixes (w_ipnet W) g routes, cl_login_gen = mr_login_gen rec,
      cl_iat = of_nat now,
      cl_exp = of_nat (sat_add64 now (sat_mul64 (st_credential_ttl_mins (nc_settings (ns_cfg ns))) 60))\<rparr>"

definition subnet_of :: "ipnet \<Rightarrow> network_config \<Rightarrow> ip_addr option \<Rightarrow> ip_net option" where
  "subnet_of I cfg ip = Option.bind ip (\<lambda>a. find (\<lambda>c. ipn_contains I c a) (nc_cidrs cfg))"

definition build_response ::
    "('sk, 'vk) world \<Rightarrow> net_state \<Rightarrow> string \<Rightarrow> role \<Rightarrow> member_cfg \<Rightarrow> join_request \<Rightarrow> member_record \<Rightarrow> granted \<Rightarrow> route_reg list
      \<Rightarrow> string option \<Rightarrow> nat \<Rightarrow> key_info list \<Rightarrow> string \<Rightarrow> 'sk \<Rightarrow> u16 \<Rightarrow> join_response" where
  "build_response W ns name r m req rec g routes relay_addr now keys kid key port =
     \<lparr>jr_credential = cred_sign (w_jose W) (join_claims W ns name r req rec g routes now) kid key,
      jr_network_id = nc_network_id (ns_cfg ns), jr_role = r,
      jr_network_uuid = rg_network_uuid (ns_registry ns), jr_signing_keys = keys,
      jr_node_id = mr_node_id rec, jr_name = name, jr_login_gen = mr_login_gen rec,
      jr_ip4 = gr_ip4 g, jr_subnet4 = subnet_of (w_ipnet W) (ns_cfg ns) (map_option A4 (gr_ip4 g)),
      jr_ip6 = gr_ip6 g, jr_subnet6 = subnet_of (w_ipnet W) (ns_cfg ns) (map_option A6 (gr_ip6 g)),
      jr_granted_cidrs = map rr_cidr routes, jr_relay_addr = relay_addr,
      jr_preferred_relay = mc_preferred_relay m,
      jr_max_session_mbps = unwrap_or (st_max_session_mbps (nc_settings (ns_cfg ns))) (mc_max_session_mbps m),
      jr_relays = relay_endpoints (ns_cfg ns) (ns_registry ns),
      jr_mtu = st_mtu (nc_settings (ns_cfg ns)), jr_keepalive_secs = st_heartbeat_secs (nc_settings (ns_cfg ns)),
      jr_transport = st_transport (nc_settings (ns_cfg ns)), jr_lanes = st_lanes (nc_settings (ns_cfg ns)),
      jr_control_port = port, jr_heartbeat_secs = st_heartbeat_secs (nc_settings (ns_cfg ns))\<rparr>"

text \<open>
  Everything after the new record is stored: the commit, the eviction of the instance that was
  replaced, the publish and the response.
\<close>

definition join_finish ::
    "('sk, 'vk) world \<Rightarrow> 'sk stored_key list \<Rightarrow> u16 \<Rightarrow> clock \<Rightarrow> string \<Rightarrow> role \<Rightarrow> member_cfg \<Rightarrow> join_request \<Rightarrow> granted
      \<Rightarrow> route_reg list \<Rightarrow> string option \<Rightarrow> bool \<Rightarrow> member_record \<Rightarrow> net_state \<Rightarrow> (api_error + join_response) \<times> net_state" where
  "join_finish W ks port ck name r m req g routes relay_addr replaced rec ns =
     (case commit ns of
        (Inl e, ns) \<Rightarrow> (Inl e, ns)
      | (Inr _, ns) \<Rightarrow>
          let stale = (case map_of (ns_sessions ns) (mr_node_id rec) of
                Some s \<Rightarrow> cs_login_gen s < mr_login_gen rec | None \<Rightarrow> False);
              ns = (if replaced \<and> stale
                then close_session_with (mr_node_id rec) CLOSE_REPLACED
      (''replaced by a newer join as '' @ name @ '' from '' @ unwrap_or [] (mr_last_join_from rec)) ns else ns);
              keys = key_infos W ks;
              ns = publish W keys ck ns
          in (case keyring_active ks of
                None \<Rightarrow> (Inl Panicked, ns)
              | Some (kid, key) \<Rightarrow>
                  (Inr (build_response W ns name r m req rec g routes relay_addr (ck_unix ck) keys kid key port), ns)))"

definition join_member ::
    "('sk, 'vk) world \<Rightarrow> 'sk stored_key list \<Rightarrow> u16 \<Rightarrow> clock \<Rightarrow> string \<Rightarrow> role \<Rightarrow> member_cfg \<Rightarrow> join_request \<Rightarrow> string
      \<Rightarrow> net_state \<Rightarrow> (api_error + join_response) \<times> net_state" where
  "join_member W ks port ck name r m req peer_ip ns =
     (case join_relay_addr W (ns_cfg ns) name m r peer_ip of
        Inl e \<Rightarrow> (Inl e, ns)
      | Inr relay_addr \<Rightarrow>
          if (case reg_by_name (ns_registry ns) name of Some rec \<Rightarrow> mr_disabled rec | None \<Rightarrow> False)
          then (Inl client_disabled, ns)
          else (case join_addresses W ns name m (ck_unix ck) of
             Inl e \<Rightarrow> (Inl e, ns)
           | Inr (g, reg) \<Rightarrow>
               let existing = reg_by_name (ns_registry ns) name;
                   routes = granted_routes (ck_unix ck) (declared_routes (w_ipnet W) r m)
                     (case existing of Some rec \<Rightarrow> mr_routes rec | None \<Rightarrow> []);
                   replaced = is_replaced existing req;
                   upd = join_record replaced (ck_unix ck) req g routes relay_addr peer_ip
               in join_finish W ks port ck name r m req g routes relay_addr replaced
                    (upd (record_for reg name r (ck_unix ck)))
                    (ns\<lparr>ns_registry := member_by_name_mut name r (ck_unix ck) upd reg\<rparr>)))"

definition join_locked ::
    "('sk, 'vk) world \<Rightarrow> 'sk stored_key list \<Rightarrow> u16 \<Rightarrow> clock \<Rightarrow> string \<Rightarrow> join_request \<Rightarrow> string
      \<Rightarrow> net_state \<Rightarrow> (api_error + join_response) \<times> net_state" where
  "join_locked W ks port ck name req peer_ip ns =
     (if ns_deleted ns then (Inl bad_credentials, ns)
      else case member_now (ns_cfg ns) name (str_trim (jq_secret req)) of
        None \<Rightarrow> (Inl bad_credentials, ns)
      | Some (m, r) \<Rightarrow> join_member W ks port ck name r m req peer_ip ns)"

section \<open>Control sessions\<close>

datatype control_error = Deleted | NotFromRelay | IdentityMismatch | CredentialRefused

text \<open>One turn of a session's writer task: it takes the oldest waiting push, and stops after a close.\<close>

definition writer_turn :: "coord_session \<Rightarrow> coord_session" where
  "writer_turn s =
     (if cs_writer s \<and> 0 < cs_queued s \<and> cs_queued s \<le> length (cs_pushed s) then
        s\<lparr>cs_queued := cs_queued s - 1,
          cs_writer := (case cs_pushed s ! (length (cs_pushed s) - cs_queued s) of PClose _ \<Rightarrow> False | _ \<Rightarrow> True)\<rparr>
      else s)"

text \<open>
  A session is registered once its \<open>Hello\<close> verified: it replaces an older one of the same node, which
  is closed, marks the node alive, publishes, and is caught up unless the network is still collecting.
  The result is the generation of the acknowledgement.
\<close>

definition new_session :: "u64 \<Rightarrow> claims \<Rightarrow> string \<Rightarrow> coord_session" where
  "new_session i cl remote = \<lparr>cs_id = i, cs_node_id = cl_node_id cl, cs_role = cl_role cl, cs_exp = cl_exp cl,
     cs_login_gen = cl_login_gen cl, cs_synced = False, cs_pushed = [], cs_queued = 0, cs_writer = True,
     cs_close = None, cs_remote = remote\<rparr>"

definition register_session ::
    "('sk, 'vk) world \<Rightarrow> key_info list \<Rightarrow> clock \<Rightarrow> u64 \<Rightarrow> claims \<Rightarrow> u64 \<Rightarrow> string \<Rightarrow> net_state
      \<Rightarrow> (control_error + u64) \<times> net_state" where
  "register_session W keys ck i cl have_gen remote ns =
     (if ns_deleted ns then (Inl Deleted, ns)
      else let node = cl_node_id cl;
          superseded = map_of (ns_sessions ns) node;
          ns = ns\<lparr>ns_sessions := hm_insert node (new_session i cl remote) (ns_sessions ns)\<rparr>;
          ns = ns\<lparr>ns_leases := snd (leases_seen node (ck_ms ck) (ns_leases ns))\<rparr>;
          ns = publish W keys ck ns;
          gen = dr_gen (ns_directory ns);
          ns = (if in_grace ns (ck_unix ck) then ns else catch_up node have_gen ns);
          ns = (case superseded of
              Some old \<Rightarrow> ns\<lparr>ns_closed := conn_close CLOSE_SUPERSEDED (push_ignore (PClose ''superseded'') old) # ns_closed ns\<rparr>
            | None \<Rightarrow> ns)
      in (Inr gen, ns))"

text \<open>The end of a session's task, which acts only if the session is still the node's own.\<close>

definition teardown ::
    "('sk, 'vk) world \<Rightarrow> key_info list \<Rightarrow> clock \<Rightarrow> node_id \<Rightarrow> u64 \<Rightarrow> net_state \<Rightarrow> net_state" where
  "teardown W keys ck node i ns =
     (if ns_deleted ns then ns
      else if map_option cs_id (map_of (ns_sessions ns) node) = Some i then
        let ns = ns\<lparr>ns_sessions := hm_remove node (ns_sessions ns), ns_leases := leases_offline node (ns_leases ns),
              ns_directory := (ns_directory ns)\<lparr>dr_reported_mtu := hm_remove node (dr_reported_mtu (ns_directory ns)),
                dr_exit_readiness := hm_remove node (dr_exit_readiness (ns_directory ns))\<rparr>\<rparr>
        in publish W keys ck ns
      else ns)"

definition heartbeat_mtu :: "node_id \<Rightarrow> u16 \<Rightarrow> net_state \<Rightarrow> bool \<times> net_state" where
  "heartbeat_mtu node usable ns =
     (if usable > 0 then
        let q = quantize_mtu usable (st_mtu (nc_settings (ns_cfg ns)));
            d = ns_directory ns
        in (map_of (dr_reported_mtu d) node \<noteq> Some q,
            ns\<lparr>ns_directory := d\<lparr>dr_reported_mtu := hm_insert node q (dr_reported_mtu d)\<rparr>\<rparr>)
      else (False, ns))"

definition heartbeat_traffic :: "node_id \<Rightarrow> role \<Rightarrow> nat \<Rightarrow> traffic_report option \<Rightarrow> net_state \<Rightarrow> net_state" where
  "heartbeat_traffic node r now t ns =
     (case t of
        Some rep \<Rightarrow>
          if r = Relay then
            ns\<lparr>ns_directory := dir_record_traffic node rep now (\<lambda>n. map_of (rg_members (ns_registry ns)) n \<noteq> None)
                 (length (rg_members (ns_registry ns))) (ns_directory ns)\<rparr>
          else ns
      | None \<Rightarrow> ns)"

definition heartbeat_facts ::
    "('sk, 'vk) world \<Rightarrow> key_info list \<Rightarrow> clock \<Rightarrow> node_id \<Rightarrow> role \<Rightarrow> heartbeat \<Rightarrow> net_state \<Rightarrow> net_state" where
  "heartbeat_facts W keys ck node r hb ns =
     (let is_client = (\<lambda>n. case map_of (rg_members (ns_registry ns)) n of Some m \<Rightarrow> mr_role m = Client | None \<Rightarrow> False);
          (changed, l) = leases_heartbeat node r hb (ck_ms ck) is_client (length (rg_members (ns_registry ns))) (ns_leases ns);
          ns = ns\<lparr>ns_leases := l\<rparr>;
          (mtu_changed, ns) = heartbeat_mtu node (hb_usable_mtu hb) ns;
          ns = heartbeat_traffic node r (ck_unix ck) (hb_traffic hb) ns
      in if changed \<or> mtu_changed then snd (publish_soon W keys ck ns) else ns)"

text \<open>A member that reports another generation, or another content of this one, is caught up.\<close>

definition on_heartbeat ::
    "('sk, 'vk) world \<Rightarrow> key_info list \<Rightarrow> clock \<Rightarrow> node_id \<Rightarrow> role \<Rightarrow> heartbeat \<Rightarrow> net_state
      \<Rightarrow> (control_error + unit) \<times> net_state" where
  "on_heartbeat W keys ck node r hb ns =
     (if ns_deleted ns then (Inl Deleted, ns)
      else let ns = heartbeat_facts W keys ck node r hb ns
      in (Inr (),
          if in_grace ns (ck_unix ck) then ns
          else if hb_gen hb \<noteq> dr_gen (ns_directory ns) then catch_up node (hb_gen hb) ns
          else if hb_digest hb \<noteq> dr_published_digest (ns_directory ns) then catch_up node 0 ns
          else ns))"

definition on_exit_readiness ::
    "('sk, 'vk) world \<Rightarrow> key_info list \<Rightarrow> clock \<Rightarrow> node_id \<Rightarrow> role \<Rightarrow> exit_readiness \<Rightarrow> net_state
      \<Rightarrow> (control_error + unit) \<times> net_state" where
  "on_exit_readiness W keys ck node r er ns =
     (if r \<noteq> Relay then (Inl NotFromRelay, ns)
      else if ns_deleted ns then (Inl Deleted, ns)
      else
        let d = ns_directory ns; old = map_of (dr_exit_readiness d) node;
            ns = ns\<lparr>ns_directory := d\<lparr>dr_exit_readiness := hm_insert node er (dr_exit_readiness d)\<rparr>\<rparr>
        in (Inr (), if old \<noteq> Some er then snd (publish_soon W keys ck ns) else ns))"

definition on_resync :: "clock \<Rightarrow> node_id \<Rightarrow> u64 \<Rightarrow> net_state \<Rightarrow> (control_error + unit) \<times> net_state" where
  "on_resync ck node have_gen ns =
     (if ns_deleted ns then (Inl Deleted, ns)
      else (Inr (), if in_grace ns (ck_unix ck) then ns else catch_up node have_gen ns))"

section \<open>Credentials\<close>

datatype verify_credential_error =
    MalformedCredential | UnknownNetwork string | NetworkDeleted | Rejected cred_error | UnknownNode
  | RecordMismatch | NodeDisabled | ReplacedInstance | FingerprintMismatch

text \<open>\<open>nets\<close>: the networks served, by id.\<close>

definition verify_credential ::
    "('sk, 'vk) world \<Rightarrow> 'sk stored_key list \<Rightarrow> (string, net_state) hmap \<Rightarrow> string \<Rightarrow> string \<Rightarrow> nat
      \<Rightarrow> verify_credential_error + claims \<times> string" where
  "verify_credential W ks nets token presented_fp now =
     (case peek_network (w_jose W) token of
        None \<Rightarrow> Inl MalformedCredential
      | Some net_id \<Rightarrow>
        (case map_of nets net_id of
           None \<Rightarrow> Inl (UnknownNetwork net_id)
         | Some ns \<Rightarrow>
             if ns_deleted ns then Inl NetworkDeleted
             else
               let i = (case peek_node_id (w_jose W) token of Some i \<Rightarrow> i | None \<Rightarrow> 0);
                   rec = map_of (rg_members (ns_registry ns)) i
               in case cred_verify (w_jose W) token (verifying_keys W ks)
                      \<lparr>ex_iss = ISS, ex_network_id = net_id, ex_network_uuid = rg_network_uuid (ns_registry ns)\<rparr>
                      (of_nat now) of
                    Inl e \<Rightarrow> Inl (Rejected e)
                  | Inr cl \<Rightarrow>
                      (case rec of
                         None \<Rightarrow> Inl UnknownNode
                       | Some rec \<Rightarrow>
                           if mr_node_id rec \<noteq> cl_node_id cl then Inl RecordMismatch
                           else if mr_disabled rec then Inl NodeDisabled
                           else if cl_login_gen cl < mr_login_gen rec then Inl ReplacedInstance
                           else if cl_cert_fp cl \<noteq> presented_fp then Inl FingerprintMismatch
                           else Inr (cl, net_id))))"

text \<open>A \<open>Refresh\<close> on a session of \<open>network_id\<close>, once its credential was looked at.\<close>

definition on_refresh ::
    "clock \<Rightarrow> string \<Rightarrow> node_id \<Rightarrow> role \<Rightarrow> string \<Rightarrow> verify_credential_error + claims \<times> string \<Rightarrow> net_state
      \<Rightarrow> (control_error + unit) \<times> net_state" where
  "on_refresh ck network_id node r fp verdict ns =
     (case verdict of
        Inl _ \<Rightarrow> (Inl CredentialRefused, ns)
      | Inr (cl, net_id) \<Rightarrow>
          if net_id \<noteq> network_id \<or> cl_node_id cl \<noteq> node \<or> cl_role cl \<noteq> r \<or> cl_cert_fp cl \<noteq> fp
          then (Inl IdentityMismatch, ns)
          else if ns_deleted ns then (Inl Deleted, ns)
          else
            let ns = upd_session node (\<lambda>s. s\<lparr>cs_exp := cl_exp cl, cs_login_gen := cl_login_gen cl\<rparr>) ns
            in (Inr (), ns\<lparr>ns_leases := snd (leases_seen node (ck_ms ck) (ns_leases ns))\<rparr>))"

section \<open>The liveness sweep\<close>

definition sweep_gone :: "node_id \<Rightarrow> net_state \<Rightarrow> net_state" where
  "sweep_gone node ns =
     (let d = ns_directory ns;
          ns = ns\<lparr>ns_directory := d\<lparr>dr_reported_mtu := hm_remove node (dr_reported_mtu d)\<rparr>\<rparr>
      in close_session_with node CLOSE_TIMEOUT ''keepalive timeout'' ns)"

definition sweep_expired :: "nat \<Rightarrow> net_state \<Rightarrow> node_id list" where
  "sweep_expired now ns = map cs_node_id (filter (\<lambda>s. cs_exp s \<le> of_nat now) (map snd (ns_sessions ns)))"

definition liveness_sweep :: "('sk, 'vk) world \<Rightarrow> key_info list \<Rightarrow> clock \<Rightarrow> net_state \<Rightarrow> net_state" where
  "liveness_sweep W keys ck ns =
     (let ns = ns\<lparr>ns_directory := dir_prune_traffic (ck_unix ck) (ns_directory ns)\<rparr>;
          (gone, l) = leases_expire (ck_ms ck) (liveness_window_secs (nc_settings (ns_cfg ns)) * 1000) (ns_leases ns);
          ns = fold sweep_gone gone (ns\<lparr>ns_leases := l\<rparr>);
          ns = fold (\<lambda>node. close_session_with node CLOSE_EXPIRED ''credential expired'') (sweep_expired (ck_unix ck) ns) ns
      in publish W keys ck ns)"

section \<open>The coordinator\<close>

record 'sk app_state =
  ap_nets :: "(string, net_state) hmap"
  ap_keyring :: "'sk stored_key list"
  ap_control_port :: u16

definition app_nets :: "'sk app_state \<Rightarrow> (string \<times> net_state) list" where
  "app_nets a = sort_key fst (ap_nets a)"

text \<open>The first member, in the order of networks and members, whose secret is the one presented.\<close>

definition resolve_secret :: "'sk app_state \<Rightarrow> string \<Rightarrow> (string \<times> string \<times> role \<times> member_cfg) option" where
  "resolve_secret a secret =
     (let secret = str_trim secret in
      if \<not> plausible_secret secret then None
      else fold (\<lambda>(network_id, ns) found.
             fold (\<lambda>(name, m, r) found.
               case mc_secret m of
                 Some s \<Rightarrow> if constant_time_eq (str_trim s) secret \<and> found = None
                           then Some (network_id, name, r, m) else found
               | None \<Rightarrow> found) (cfg_members (ns_cfg ns)) found) (app_nets a) None)"

text \<open>The join, once the source is within its rate.\<close>

definition join_app ::
    "('sk, 'vk) world \<Rightarrow> clock \<Rightarrow> join_request \<Rightarrow> string \<Rightarrow> 'sk app_state \<Rightarrow> (api_error + join_response) \<times> 'sk app_state" where
  "join_app W ck req peer_ip a =
     (case resolve_secret a (str_trim (jq_secret req)) of
        None \<Rightarrow> (Inl bad_credentials, a)
      | Some (network_id, name, _, _) \<Rightarrow>
          if \<not> w_valid_pubkey W (jq_pubkey req) then (Inl bad_request, a)
          else if \<not> valid_fingerprint (jq_cert_fingerprint req) then (Inl bad_request, a)
          else case map_of (ap_nets a) network_id of
            None \<Rightarrow> (Inl bad_credentials, a)
          | Some ns \<Rightarrow>
              let (res, ns) = join_locked W (ap_keyring a) (ap_control_port a) ck name req peer_ip ns
              in (res, a\<lparr>ap_nets := hm_insert network_id ns (ap_nets a)\<rparr>))"

section \<open>Publishing and committing, by case\<close>

lemma map_of_map_snd: "map_of (map (\<lambda>(n, s). (n, f s)) xs) n = map_option f (map_of xs n)"
  by (induction xs) auto

lemma publish_cases:
  obtains (same) d where "recompute (w_ipnet W) (w_enc W) (ns_cfg ns) (ns_registry ns) (ns_leases ns) keys
      (ck_unix ck) (of_nat (ck_ms ck)) (ns_directory ns) = (None, d)"
      "ns_directory (publish W keys ck ns) = d" "ns_sessions (publish W keys ck ns) = ns_sessions ns"
  | (moved) d dl where "recompute (w_ipnet W) (w_enc W) (ns_cfg ns) (ns_registry ns) (ns_leases ns) keys
      (ck_unix ck) (of_nat (ck_ms ck)) (ns_directory ns) = (Some dl, d)"
      "ns_directory (publish W keys ck ns) = d"
      "ns_sessions (publish W keys ck ns) = map (\<lambda>(n, s). (n, session_broadcast dl s)) (ns_sessions ns)"
proof -
  let ?r = "recompute (w_ipnet W) (w_enc W) (ns_cfg ns) (ns_registry ns) (ns_leases ns) keys
      (ck_unix ck) (of_nat (ck_ms ck)) (ns_directory ns)"
  show thesis
  proof (cases ?r)
    case (Pair r d)
    show thesis
    proof (cases r)
      case None
      with Pair show thesis by (intro same [of d]) (simp_all add: publish_def Let_def)
    next
      case (Some dl)
      with Pair show thesis
        by (intro moved [of dl d])
          (simp_all add: publish_def Let_def broadcast_delta_def notify_def save_registry_def split: prod.split)
    qed
  qed
qed

lemma publish_fields [simp]:
  "rg_members (ns_registry (publish W keys ck ns)) = rg_members (ns_registry ns)"
  "rg_next_node_id (ns_registry (publish W keys ck ns)) = rg_next_node_id (ns_registry ns)"
  "rg_network_uuid (ns_registry (publish W keys ck ns)) = rg_network_uuid (ns_registry ns)"
  "ns_started_at (publish W keys ck ns) = ns_started_at ns" "ns_leases (publish W keys ck ns) = ns_leases ns"
  "ns_cfg (publish W keys ck ns) = ns_cfg ns" "ns_deleted (publish W keys ck ns) = ns_deleted ns"
  by (simp_all add: publish_def Let_def broadcast_delta_def notify_def save_registry_def note_gen_def
      split: prod.split option.split)

lemma publish_db:
  "db_registry (ns_db (publish W keys ck ns)) = db_registry (ns_db ns)
     \<or> db_registry (ns_db (publish W keys ck ns)) = Some (ns_registry (publish W keys ck ns))"
  by (simp add: publish_def Let_def broadcast_delta_def notify_def save_registry_def note_gen_def
      split: prod.split option.split)

lemma publish_sessions:
  assumes "map_of (ns_sessions (publish W keys ck ns)) n = Some s'"
  shows "\<exists>s. map_of (ns_sessions ns) n = Some s \<and> cs_login_gen s' = cs_login_gen s"
proof -
  have g: "cs_login_gen (session_broadcast d s) = cs_login_gen s" for d s
    by (simp add: session_broadcast_def push_send_def overflow_def conn_close_def split: option.split)
  show ?thesis
    by (rule publish_cases [of W ns keys ck]) (use assms g in \<open>auto simp: map_of_map_snd\<close>)
qed

lemma commit_Inr:
  "commit a = (Inr u, b) \<Longrightarrow> b = a\<lparr>ns_db := (ns_db a)\<lparr>db_registry := Some (ns_registry a)\<rparr>\<rparr>"
  by (auto simp: commit_def save_registry_def split: if_splits option.splits)

section \<open>An example\<close>

text \<open>
  A network of one address range with a client \<open>a\<close> and its secret, and packages that sign and encode
  just what the example needs.
\<close>

definition example_enc :: "snapshot \<Rightarrow> bytes" where "example_enc s = []"
definition example_b64 :: "bytes \<Rightarrow> string" where
  "example_b64 bs = map (\<lambda>x. if x = 1 then CHR ''a'' else if x = 2 then CHR ''b'' else CHR ''c'') bs"
definition example_unb64 :: "string \<Rightarrow> bytes option" where
  "example_unb64 s = Some (map (\<lambda>c. if c = CHR ''a'' then 1 else if c = CHR ''b'' then 2 else 3) s)"

definition example_claims :: claims where
  "example_claims = \<lparr>cl_iss = ISS, cl_aud = AUD, cl_network_id = ''n'', cl_network_uuid = ''u'', cl_node_id = 1,
     cl_sub = ''a'', cl_role = Client, cl_pubkey = ''k'', cl_cert_fp = ''f'',
     cl_prefixes = join_prefixes ipnet_std \<lparr>gr_ip4 = Some 0x0A000001, gr_ip6 = None\<rparr> [],
     cl_login_gen = 0, cl_iat = 50, cl_exp = of_nat (sat_add64 50 (sat_mul64 (st_credential_ttl_mins settings_default) 60))\<rparr>"

definition example_header_vec :: "cred_header \<Rightarrow> bytes" where "example_header_vec h = [1]"
definition example_header :: "bytes \<Rightarrow> cred_header option" where "example_header b = Some (sign_header ''k1'')"
definition example_claims_vec :: "claims \<Rightarrow> bytes" where "example_claims_vec cl = [2]"
definition example_claims_of :: "bytes \<Rightarrow> claims option" where "example_claims_of b = Some example_claims"
definition example_sign :: "unit \<Rightarrow> string \<Rightarrow> bytes" where "example_sign k m = replicate 64 3"
definition example_verify :: "nat \<Rightarrow> string \<Rightarrow> bytes \<Rightarrow> bool" where
  "example_verify k m b \<longleftrightarrow> m = ''a.b'' \<and> b = replicate 64 3"
definition example_u64 :: "bytes \<Rightarrow> string \<Rightarrow> u64 option" where "example_u64 b f = Some 1"
definition example_str :: "bytes \<Rightarrow> string \<Rightarrow> string option" where "example_str b f = Some ''n''"
definition example_vk :: "unit \<Rightarrow> nat" where "example_vk k = 1"
definition example_key_text :: "unit \<Rightarrow> string" where "example_key_text k = ''t''"
definition example_valid :: "string \<Rightarrow> bool" where "example_valid s \<longleftrightarrow> s \<noteq> []"
definition example_ip :: "string \<Rightarrow> ip_addr option" where "example_ip s = Some (A4 9)"
definition example_ip_text :: "ip_addr \<Rightarrow> string" where "example_ip_text a = ''9''"

definition example_world :: "(unit, nat) world" where
  "example_world = \<lparr>w_ipnet = ipnet_std, w_enc = example_enc,
     w_jose = \<lparr>b64_encode = example_b64, b64_decode = example_unb64, header_to_vec = example_header_vec,
       header_from_slice = example_header, claims_to_vec = example_claims_vec, claims_from_slice = example_claims_of,
       ed_sign = example_sign, ed_verify_strict = example_verify, json_u64 = example_u64, json_str = example_str\<rparr>,
     w_verifying_key = example_vk, w_key_text = example_key_text, w_valid_pubkey = example_valid,
     w_parse_ip = example_ip, w_show_ip = example_ip_text\<rparr>"

definition example_client :: network_config where
  "example_client = \<lparr>nc_network_id = ''n'', nc_cidrs = [V4 0x0A000000 30], nc_settings = settings_default,
     nc_relays = [], nc_clients = [(''a'', member_cfg_default\<lparr>mc_secret := Some ''s''\<rparr>)]\<rparr>"

definition example_db :: db where
  "example_db = \<lparr>db_cfg = Some example_client, db_registry = None, db_save_ok = True, db_load_ok = True\<rparr>"

definition example_net :: net_state where
  "example_net = net_state_new example_world example_client (registry_new ''u'') example_db \<lparr>ck_unix = 5, ck_ms = 50\<rparr>"

end
