(* ===== verification/Nq_Join.thy ===== *)
theory Nq_Join
  imports Nq_Coord
begin

text \<open>
  What the join transaction (\<open>state.rs\<close>) and the check of a credential (\<open>control.rs\<close>) promise
  together: a member is told only what is already durable, addresses stay held once, the credential it
  gets opens a session, and an instance that was replaced gets neither a session nor keeps one.
\<close>

section \<open>The stages of a join that succeeds\<close>

lemma join_finish_Inr:
  assumes "join_finish W ks port ck name r m req g routes relay_addr replaced rec a = (Inr resp, ns')"
  obtains kid key where "keyring_active ks = Some (kid, key)"
    "rg_members (ns_registry ns') = rg_members (ns_registry a)"
    "rg_next_node_id (ns_registry ns') = rg_next_node_id (ns_registry a)"
    "rg_network_uuid (ns_registry ns') = rg_network_uuid (ns_registry a)"
    "ns_cfg ns' = ns_cfg a" "ns_deleted ns' = ns_deleted a"
    "\<exists>d. db_registry (ns_db ns') = Some d \<and> rg_members d = rg_members (ns_registry ns')"
    "resp = build_response W ns' name r m req rec g routes relay_addr (ck_unix ck) (key_infos W ks) kid key port"
    "\<forall>s. replaced \<longrightarrow> map_of (ns_sessions ns') (mr_node_id rec) = Some s \<longrightarrow> \<not> cs_login_gen s < mr_login_gen rec"
proof -
  obtain e b where c: "commit a = (e, b)" by (rule prod.exhaust)
  with assms obtain u where e: "e = Inr u" by (cases e) (simp_all add: join_finish_def)
  let ?stale = "case map_of (ns_sessions b) (mr_node_id rec) of
      Some s \<Rightarrow> cs_login_gen s < mr_login_gen rec | None \<Rightarrow> False"
  let ?d = "if replaced \<and> ?stale
    then close_session_with (mr_node_id rec) CLOSE_REPLACED
      (''replaced by a newer join as '' @ name @ '' from '' @ unwrap_or [] (mr_last_join_from rec)) b else b"
  let ?p = "publish W (key_infos W ks) ck ?d"
  have "join_finish W ks port ck name r m req g routes relay_addr replaced rec a =
      (case keyring_active ks of None \<Rightarrow> (Inl Panicked, ?p)
       | Some (kid, key) \<Rightarrow>
           (Inr (build_response W ?p name r m req rec g routes relay_addr (ck_unix ck) (key_infos W ks) kid key port), ?p))"
    by (simp only: join_finish_def c e prod.case sum.case Let_def)
  with assms obtain kid key where k: "keyring_active ks = Some (kid, key)" "ns' = ?p"
      "resp = build_response W ?p name r m req rec g routes relay_addr (ck_unix ck) (key_infos W ks) kid key port"
    by (cases "keyring_active ks") auto
  have d: "ns_registry ?d = ns_registry a" "ns_db ?d = (ns_db a)\<lparr>db_registry := Some (ns_registry a)\<rparr>"
      "ns_cfg ?d = ns_cfg a" "ns_deleted ?d = ns_deleted a"
    using commit_Inr [OF c [unfolded e]] by (simp_all add: close_session_with_def split: option.split)
  note p = publish_fields [of W "key_infos W ks" ck ?d, unfolded d]
  have dur: "\<exists>d. db_registry (ns_db ns') = Some d \<and> rg_members d = rg_members (ns_registry ns')"
    unfolding k(2) using p(1) publish_db [of W "key_infos W ks" ck ?d, unfolded d] by auto
  have gone: "\<not> cs_login_gen s < mr_login_gen rec"
    if rp: "replaced" and at: "map_of (ns_sessions ns') (mr_node_id rec) = Some s" for s
  proof
    assume lt: "cs_login_gen s < mr_login_gen rec"
    obtain t where t: "map_of (ns_sessions ?d) (mr_node_id rec) = Some t" "cs_login_gen s = cs_login_gen t"
      using publish_sessions at unfolding k(2) by blast
    show False
    proof (cases ?stale)
      case True
      then obtain x where "map_of (ns_sessions b) (mr_node_id rec) = Some x" by (auto split: option.splits)
      with t(1) True rp show False by (simp add: close_session_with_def delete_conv')
    next
      case False
      with t lt show False by (simp split: option.splits if_splits)
    qed
  qed
  show thesis
    using that [OF k(1)] p(1,2,3,6,7) dur k(3) gone unfolding k(2) by blast
qed

lemma join_locked_Inr:
  assumes "join_locked W ks port ck name req peer_ip ns = (Inr resp, ns')"
  obtains m r g reg routes relay_addr where "\<not> ns_deleted ns"
    "member_now (ns_cfg ns) name (str_trim (jq_secret req)) = Some (m, r)"
    "\<forall>rec. reg_by_name (ns_registry ns) name = Some rec \<longrightarrow> \<not> mr_disabled rec"
    "join_addresses W ns name m (ck_unix ck) = Inr (g, reg)"
    "join_finish W ks port ck name r m req g routes relay_addr (is_replaced (reg_by_name (ns_registry ns) name) req)
       (join_record (is_replaced (reg_by_name (ns_registry ns) name) req) (ck_unix ck) req g routes relay_addr peer_ip
          (record_for reg name r (ck_unix ck)))
       (ns\<lparr>ns_registry := member_by_name_mut name r (ck_unix ck)
          (join_record (is_replaced (reg_by_name (ns_registry ns) name) req) (ck_unix ck) req g routes relay_addr peer_ip) reg\<rparr>)
     = (Inr resp, ns')"
proof -
  from assms have nd: "\<not> ns_deleted ns" by (auto simp: join_locked_def split: if_splits)
  with assms obtain m r where mr: "member_now (ns_cfg ns) name (str_trim (jq_secret req)) = Some (m, r)"
      and jm: "join_member W ks port ck name r m req peer_ip ns = (Inr resp, ns')"
    by (auto simp: join_locked_def split: option.splits)
  from jm obtain relay_addr where ra: "join_relay_addr W (ns_cfg ns) name m r peer_ip = Inr relay_addr"
    by (cases "join_relay_addr W (ns_cfg ns) name m r peer_ip") (simp_all add: join_member_def)
  have en: "\<forall>rec. reg_by_name (ns_registry ns) name = Some rec \<longrightarrow> \<not> mr_disabled rec"
    using jm ra by (auto simp: join_member_def)
  have dis: "(case reg_by_name (ns_registry ns) name of Some rec \<Rightarrow> mr_disabled rec | None \<Rightarrow> False) = False"
    using en by (simp split: option.split)
  from jm ra dis obtain g reg where ja: "join_addresses W ns name m (ck_unix ck) = Inr (g, reg)"
    by (cases "join_addresses W ns name m (ck_unix ck)") (auto simp: join_member_def)
  from jm show thesis
    unfolding join_member_def ra sum.case dis if_False ja prod.case Let_def by (rule that [OF nd mr en ja])
qed

section \<open>Addresses and the record\<close>

lemma join_addresses_cases:
  assumes "join_addresses W ns name m now = Inr (g, reg)"
  obtains (none) "gr_ip4 g = None" "gr_ip6 g = None" "reg = ns_registry ns"
    | (some) reclaim where "allocate_inner (w_ipnet W) (ns_cfg ns) (ns_registry ns) reclaim now name (mc_preferred_ip4 m)
        (mc_preferred_ip6 m) = Inr (g, reg)"
proof (cases "unwrap_or True (mc_want_vpn_ip m)")
  case True
  with assms show thesis by (intro some) (simp add: join_addresses_def allocate_for_join_def)
next
  case False
  with assms show thesis by (intro none) (auto simp: join_addresses_def)
qed

lemma spares_named:
  assumes "spares cfg reclaim now name reg reg'" and "map_of (rg_members reg) i = Some rec" and "mr_name rec = name"
  shows "map_of (rg_members reg') i = Some rec"
proof -
  obtain m' where "map_of (rg_members reg') i = Some m'" "m' = rec \<or> reclaimed cfg reclaim now name i rec m'"
    using assms(1,2) unfolding spares_def by blast
  with assms(3) show ?thesis by (auto simp: reclaimed_def abandoned_def)
qed

lemma join_addresses_ok:
  assumes "reg_wf (ns_registry ns)" and "held_once mr_ip4 (ns_registry ns)"
    and "held_once mr_ip6 (ns_registry ns)" and "join_addresses W ns name m now = Inr (g, reg)"
  shows "shrinks (ns_registry ns) reg
    \<and> (\<forall>i rec. map_of (rg_members (ns_registry ns)) i = Some rec \<longrightarrow> mr_name rec = name
        \<longrightarrow> map_of (rg_members reg) i = Some rec)
    \<and> (\<forall>a. gr_ip4 g = Some a \<longrightarrow> free_for mr_ip4 name reg a)
    \<and> (\<forall>a. gr_ip6 g = Some a \<longrightarrow> free_for mr_ip6 name reg a)"
proof (cases rule: join_addresses_cases [OF assms(4)])
  case 1
  with assms(1) show ?thesis by (simp add: shrinks_refl)
next
  case (2 reclaim)
  note ok = allocate_ok [OF assms(1-3) 2, unfolded grant_ok_def]
  then have "spares (ns_cfg ns) reclaim now name (ns_registry ns) reg" by blast
  with ok spares_named show ?thesis by blast
qed

lemma join_addresses_inside:
  assumes "ipnet_ok (w_ipnet W)" and "join_addresses W ns name m now = Inr (g, reg)"
  shows "\<forall>a. gr_ip4 g = Some a \<longrightarrow> in_tunnel (w_ipnet W) (ns_cfg ns) (A4 a)"
    and "\<forall>a. gr_ip6 g = Some a \<longrightarrow> in_tunnel (w_ipnet W) (ns_cfg ns) (A6 a)"
  using join_addresses_cases [OF assms(2)] allocate_inside [OF assms(1)] by (metis option.distinct(1))+

lemma join_record_fields [simp]:
  "mr_name (join_record replaced now req g routes relay_addr peer_ip rec) = mr_name rec"
  "mr_node_id (join_record replaced now req g routes relay_addr peer_ip rec) = mr_node_id rec"
  "mr_disabled (join_record replaced now req g routes relay_addr peer_ip rec) = mr_disabled rec"
  "mr_ip4 (join_record replaced now req g routes relay_addr peer_ip rec) = gr_ip4 g"
  "mr_ip6 (join_record replaced now req g routes relay_addr peer_ip rec) = gr_ip6 g"
  "mr_pubkey (join_record replaced now req g routes relay_addr peer_ip rec) = Some (jq_pubkey req)"
  "mr_cert_fp (join_record replaced now req g routes relay_addr peer_ip rec) = Some (jq_cert_fingerprint req)"
  "mr_routes (join_record replaced now req g routes relay_addr peer_ip rec) = routes"
  "mr_login_gen (join_record replaced now req g routes relay_addr peer_ip rec) =
     (if replaced then mr_login_gen rec + 1 else mr_login_gen rec)"
  by (simp_all add: join_record_def Let_def)

text \<open>The record a join works on is the one there was before it, addresses aside.\<close>

lemma join_record_for:
  assumes "reg_wf (ns_registry ns)" and "shrinks (ns_registry ns) reg"
    and "\<forall>i rec. map_of (rg_members (ns_registry ns)) i = Some rec \<longrightarrow> mr_name rec = name
      \<longrightarrow> map_of (rg_members reg) i = Some rec"
  shows "reg_by_name (ns_registry ns) name = Some rec \<Longrightarrow> record_for reg name r now = rec\<lparr>mr_role := r\<rparr>"
    and "reg_by_name (ns_registry ns) name = None \<Longrightarrow> rg_next_node_id (ns_registry ns) \<noteq> - 1
      \<Longrightarrow> record_for reg name r now = new_record (id_for_name reg name) name r now"
proof -
  have wf: "reg_wf reg" and next_id: "rg_next_node_id reg = rg_next_node_id (ns_registry ns)"
    using assms(2) by (simp_all add: shrinks_def)
  show "record_for reg name r now = rec\<lparr>mr_role := r\<rparr>" if "reg_by_name (ns_registry ns) name = Some rec"
  proof -
    have "map_of (rg_members reg) (mr_node_id rec) = Some rec" "mr_name rec = name"
      using reg_by_nameD [OF assms(1) that] assms(3) by simp_all
    then have "reg_by_name reg name = Some rec" using reg_by_name_iff [OF wf] by simp
    then have "map_of (rg_members reg) (id_for_name reg name) = Some rec"
      using id_for_name_known reg_by_nameD(1) [OF wf] by simp
    moreover have "rec\<lparr>mr_name := name, mr_role := r\<rparr> = rec\<lparr>mr_role := r\<rparr>"
      using \<open>mr_name rec = name\<close> by (cases rec) simp
    ultimately show ?thesis by (simp only: record_for_def option.case)
  qed
  show "record_for reg name r now = new_record (id_for_name reg name) name r now"
    if none: "reg_by_name (ns_registry ns) name = None" "rg_next_node_id (ns_registry ns) \<noteq> - 1"
  proof (cases "map_of (rg_members reg) (id_for_name reg name)")
    case None
    then show ?thesis by (simp add: record_for_def new_record_def)
  next
    case (Some x)
    then have "reg_by_name reg name = Some x" using id_for_name_held [OF wf] none(2) next_id by simp
    then have "map_of (rg_members reg) (mr_node_id x) = Some x" "mr_name x = name" using reg_by_nameD [OF wf] by simp_all
    then obtain y where "map_of (rg_members (ns_registry ns)) (mr_node_id x) = Some y" "mr_name y = name"
      using assms(2) unfolding shrinks_def keeps_or_drops_def by metis
    with none(1) reg_by_name_None [OF assms(1)] show ?thesis by blast
  qed
qed

section \<open>What a join that succeeds leaves behind\<close>

lemma reg_wf_members:
  "rg_members reg' = rg_members reg \<Longrightarrow> rg_next_node_id reg' = rg_next_node_id reg \<Longrightarrow> reg_wf reg \<Longrightarrow> reg_wf reg'"
  by (simp add: reg_wf_def)

lemma held_once_members: "rg_members reg' = rg_members reg \<Longrightarrow> held_once address reg \<Longrightarrow> held_once address reg'"
  by (simp add: held_once_def)

lemma join_stored:
  assumes "reg_wf reg" and "rg_next_node_id reg \<noteq> - 1" and "held_once mr_ip4 reg" and "held_once mr_ip6 reg"
    and "\<forall>a. gr_ip4 g = Some a \<longrightarrow> free_for mr_ip4 name reg a" and "\<forall>a. gr_ip6 g = Some a \<longrightarrow> free_for mr_ip6 name reg a"
    and "upd = join_record replaced now req g routes relay_addr peer_ip"
    and "reg' = member_by_name_mut name r now upd reg" and "rec = upd (record_for reg name r now)"
  shows "reg_wf reg'" "held_once mr_ip4 reg'" "held_once mr_ip6 reg'" "map_of (rg_members reg') (mr_node_id rec) = Some rec"
proof -
  show "reg_wf reg'" unfolding assms(8) by (rule reg_wf_member_by_name [OF assms(1,2)]) (simp_all add: assms(7))
  show "held_once mr_ip4 reg'" unfolding assms(8) using assms(5)
    by (intro held_once_store [OF assms(1-3)]) (simp add: assms(7))
  show "held_once mr_ip6 reg'" unfolding assms(8) using assms(6)
    by (intro held_once_store [OF assms(1,2,4)]) (simp add: assms(7))
  have "mr_node_id rec = id_for_name reg name" using record_for_id [OF assms(1)] by (simp add: assms(7,9))
  then show "map_of (rg_members reg') (mr_node_id rec) = Some rec"
    unfolding assms(8) member_by_name_mut_eq using reg_wfD(1) [OF assms(1)] by (simp add: assms(9))
qed

lemma join_core:
  assumes "reg_wf (ns_registry ns)" and "rg_next_node_id (ns_registry ns) \<noteq> - 1"
    and "held_once mr_ip4 (ns_registry ns)" and "held_once mr_ip6 (ns_registry ns)"
    and "join_locked W ks port ck name req peer_ip ns = (Inr resp, ns')"
  obtains m r g reg routes relay_addr kid key rec where "\<not> ns_deleted ns'" "ns_cfg ns' = ns_cfg ns"
    "join_addresses W ns name m (ck_unix ck) = Inr (g, reg)"
    "reg_wf (ns_registry ns')" "held_once mr_ip4 (ns_registry ns')" "held_once mr_ip6 (ns_registry ns')"
    "\<exists>d. db_registry (ns_db ns') = Some d \<and> rg_members d = rg_members (ns_registry ns')"
    "map_of (rg_members (ns_registry ns')) (mr_node_id rec) = Some rec"
    "rec = join_record (is_replaced (reg_by_name (ns_registry ns) name) req) (ck_unix ck) req g routes relay_addr
       peer_ip (record_for reg name r (ck_unix ck))"
    "mr_name rec = name" "\<not> mr_disabled rec"
    "\<forall>old. reg_by_name (ns_registry ns) name = Some old \<longrightarrow> record_for reg name r (ck_unix ck) = old\<lparr>mr_role := r\<rparr>"
    "keyring_active ks = Some (kid, key)"
    "resp = build_response W ns' name r m req rec g routes relay_addr (ck_unix ck) (key_infos W ks) kid key port"
    "\<forall>s. is_replaced (reg_by_name (ns_registry ns) name) req
       \<longrightarrow> map_of (ns_sessions ns') (mr_node_id rec) = Some s \<longrightarrow> \<not> cs_login_gen s < mr_login_gen rec"
proof -
  let ?rp = "is_replaced (reg_by_name (ns_registry ns) name) req"
  obtain m r g reg routes relay_addr where nd: "\<not> ns_deleted ns"
    and en: "\<forall>rec. reg_by_name (ns_registry ns) name = Some rec \<longrightarrow> \<not> mr_disabled rec"
    and ja: "join_addresses W ns name m (ck_unix ck) = Inr (g, reg)"
    and fin: "join_finish W ks port ck name r m req g routes relay_addr ?rp
       (join_record ?rp (ck_unix ck) req g routes relay_addr peer_ip (record_for reg name r (ck_unix ck)))
       (ns\<lparr>ns_registry := member_by_name_mut name r (ck_unix ck)
          (join_record ?rp (ck_unix ck) req g routes relay_addr peer_ip) reg\<rparr>) = (Inr resp, ns')"
    by (rule join_locked_Inr [OF assms(5)]) blast
  define upd where "upd = join_record ?rp (ck_unix ck) req g routes relay_addr peer_ip"
  define rec where "rec = upd (record_for reg name r (ck_unix ck))"
  define reg1 where "reg1 = member_by_name_mut name r (ck_unix ck) upd reg"
  note ok = join_addresses_ok [OF assms(1,3,4) ja]
  have wf: "reg_wf reg" and nx: "rg_next_node_id reg \<noteq> - 1" and sh: "shrinks (ns_registry ns) reg"
    and held: "held_once mr_ip4 reg" "held_once mr_ip6 reg"
    using ok assms(2) held_once_shrinks [OF assms(3) drops_only_ips(1)] held_once_shrinks [OF assms(4) drops_only_ips(2)]
    by (simp_all add: shrinks_def)
  note old = join_record_for [OF assms(1) sh]
  have keep: "\<forall>i rec. map_of (rg_members (ns_registry ns)) i = Some rec \<longrightarrow> mr_name rec = name
      \<longrightarrow> map_of (rg_members reg) i = Some rec" using ok by blast
  note st = join_stored [OF wf nx held _ _ upd_def reg1_def rec_def]
  have wf1: "reg_wf reg1" and h4: "held_once mr_ip4 reg1" and h6: "held_once mr_ip6 reg1"
    and at: "map_of (rg_members reg1) (mr_node_id rec) = Some rec"
    using st ok by blast+
  have dis: "\<not> mr_disabled rec"
    using en old(1) [OF keep] old(2) [OF keep _ assms(2)]
    by (cases "reg_by_name (ns_registry ns) name") (simp_all add: rec_def upd_def new_record_def)
  from fin obtain kid key where f: "keyring_active ks = Some (kid, key)"
    "rg_members (ns_registry ns') = rg_members reg1" "rg_next_node_id (ns_registry ns') = rg_next_node_id reg1"
    "ns_cfg ns' = ns_cfg ns" "ns_deleted ns' = ns_deleted ns"
    "\<exists>d. db_registry (ns_db ns') = Some d \<and> rg_members d = rg_members (ns_registry ns')"
    "resp = build_response W ns' name r m req rec g routes relay_addr (ck_unix ck) (key_infos W ks) kid key port"
    "\<forall>s. ?rp \<longrightarrow> map_of (ns_sessions ns') (mr_node_id rec) = Some s \<longrightarrow> \<not> cs_login_gen s < mr_login_gen rec"
    unfolding reg1_def rec_def upd_def by (elim join_finish_Inr) simp
  show thesis
  proof (rule that [OF _ f(4) ja _ _ _ f(6) _ _ _ dis _ f(1) f(7) f(8)])
    show "\<not> ns_deleted ns'" using f(5) nd by simp
    show "reg_wf (ns_registry ns')" by (rule reg_wf_members [OF f(2,3) wf1])
    show "held_once mr_ip4 (ns_registry ns')" by (rule held_once_members [OF f(2) h4])
    show "held_once mr_ip6 (ns_registry ns')" by (rule held_once_members [OF f(2) h6])
    show "map_of (rg_members (ns_registry ns')) (mr_node_id rec) = Some rec" using f(2) at by simp
    show "rec = join_record ?rp (ck_unix ck) req g routes relay_addr peer_ip (record_for reg name r (ck_unix ck))"
      by (simp add: rec_def upd_def)
    show "mr_name rec = name" by (simp add: rec_def upd_def)
    show "\<forall>old. reg_by_name (ns_registry ns) name = Some old \<longrightarrow> record_for reg name r (ck_unix ck) = old\<lparr>mr_role := r\<rparr>"
      using old(1) [OF keep] by blast
  qed
qed

text \<open>When a join succeeds.\<close>

lemma join_succeeds:
  fixes ck :: clock and peer_ip :: string and W :: "('sk, 'vk) world"
  assumes "\<not> ns_deleted ns" and "member_now (ns_cfg ns) name (str_trim (jq_secret req)) = Some (m, r)"
    and "join_relay_addr W (ns_cfg ns) name m r peer_ip = Inr relay_addr"
    and "\<forall>rec. reg_by_name (ns_registry ns) name = Some rec \<longrightarrow> \<not> mr_disabled rec"
    and "join_addresses W ns name m (ck_unix ck) = Inr (g, reg)"
    and "can_save_registry (ns_db ns)" and "keyring_active ks = Some (kid, key)"
    and "existing = reg_by_name (ns_registry ns) name"
    and "routes = granted_routes (ck_unix ck) (declared_routes (w_ipnet W) r m)
      (case existing of Some rec \<Rightarrow> mr_routes rec | None \<Rightarrow> [])"
    and "rec = join_record (is_replaced existing req) (ck_unix ck) req g routes relay_addr peer_ip
      (record_for reg name r (ck_unix ck))"
  shows "\<exists>ns'. join_locked W ks port ck name req peer_ip ns =
      (Inr (build_response W ns' name r m req rec g routes relay_addr (ck_unix ck) (key_infos W ks) kid key port), ns')
    \<and> ns_cfg ns' = ns_cfg ns \<and> rg_network_uuid (ns_registry ns') = rg_network_uuid reg"
proof -
  let ?upd = "join_record (is_replaced existing req) (ck_unix ck) req g routes relay_addr peer_ip"
  let ?a = "ns\<lparr>ns_registry := member_by_name_mut name r (ck_unix ck) ?upd reg\<rparr>"
  let ?fin = "join_finish W ks port ck name r m req g routes relay_addr (is_replaced existing req) rec ?a"
  have dis: "(case existing of Some rec \<Rightarrow> mr_disabled rec | None \<Rightarrow> False) = False"
    using assms(4,8) by (simp split: option.split)
  have run: "join_locked W ks port ck name req peer_ip ns = ?fin"
    using assms(1) unfolding join_locked_def assms(2) option.case prod.case join_member_def assms(3) sum.case
      assms(8) [symmetric] dis if_False assms(5) Let_def assms(9) [symmetric] assms(10) by simp
  have "\<exists>resp ns'. ?fin = (Inr resp, ns')"
    using assms(6,7) by (simp add: join_finish_def commit_def save_registry_def Let_def)
  then obtain resp ns' where fin: "?fin = (Inr resp, ns')" by blast
  show ?thesis
  proof (cases rule: join_finish_Inr [OF fin])
    case (1 kid' key')
    with run fin assms(7) show ?thesis by (simp add: member_by_name_mut_eq)
  qed
qed

section \<open>Credentials\<close>

text \<open>The claims of the credential in an answer, read from the answer.\<close>

definition issued :: "('sk, 'vk) world \<Rightarrow> network_config \<Rightarrow> join_request \<Rightarrow> nat \<Rightarrow> join_response \<Rightarrow> claims" where
  "issued W cfg req now resp =
     \<lparr>cl_iss = ISS, cl_aud = AUD, cl_network_id = jr_network_id resp, cl_network_uuid = jr_network_uuid resp,
      cl_node_id = jr_node_id resp, cl_sub = jr_name resp, cl_role = jr_role resp, cl_pubkey = jq_pubkey req,
      cl_cert_fp = jq_cert_fingerprint req,
      cl_prefixes = join_prefixes (w_ipnet W) \<lparr>gr_ip4 = jr_ip4 resp, gr_ip6 = jr_ip6 resp\<rparr>
        (map (\<lambda>c. \<lparr>rr_cidr = c, rr_first_granted_unix = 0\<rparr>) (jr_granted_cidrs resp)),
      cl_login_gen = jr_login_gen resp, cl_iat = of_nat now,
      cl_exp = of_nat (sat_add64 now (sat_mul64 (st_credential_ttl_mins (nc_settings cfg)) 60))\<rparr>"

lemma issued_response:
  "issued W (ns_cfg ns) req now (build_response W ns name r m req rec g routes relay_addr now keys kid key port)
     = join_claims W ns name r req rec g routes now"
  by (simp add: issued_def build_response_def join_claims_def join_prefixes_def comp_def)

lemma active_key_verifies:
  assumes "distinct (map sk_kid ks)" and "keyring_active ks = Some (kid, key)"
  shows "find (\<lambda>kk. fst kk = kid) (verifying_keys W ks) = Some (kid, w_verifying_key W key)"
  using assms
proof (induction ks)
  case (Cons k ks)
  show ?case
  proof (cases "sk_state k = ''active''")
    case True
    with Cons.prems(2) show ?thesis by (simp add: keyring_active_def verifying_keys_def)
  next
    case False
    with Cons.prems have act: "keyring_active ks = Some (kid, key)" by (simp add: keyring_active_def)
    then obtain x where "x \<in> set ks" "sk_kid x = kid"
      using find_SomeD by (fastforce simp: keyring_active_def)
    with Cons.prems(1) have "sk_kid k \<noteq> kid" by auto
    with Cons.IH act Cons.prems(1) show ?thesis by (simp add: verifying_keys_def)
  qed
qed (simp add: keyring_active_def)

text \<open>The two claims that are read before the signature is checked.\<close>

definition peek_ok :: "('sk, 'vk) jose \<Rightarrow> claims \<Rightarrow> bool" where
  "peek_ok J cl \<longleftrightarrow> json_str J (claims_to_vec J cl) ''network_id'' = Some (cl_network_id cl)
     \<and> json_u64 J (claims_to_vec J cl) ''node_id'' = Some (ucast (cl_node_id cl))"

lemma peek_signed:
  assumes "jose_ok J cl kid sk vk" and "peek_ok J cl"
  shows "peek_network J (cred_sign J cl kid sk) = Some (cl_network_id cl)"
    "peek_node_id J (cred_sign J cl kid sk) = Some (cl_node_id cl)"
proof -
  have json: "peek_json J (cred_sign J cl kid sk) = Some (claims_to_vec J cl)"
    using assms(1) by (simp add: peek_json_def split_cred_sign) (simp add: jose_ok_def)
  have "unat (ucast (cl_node_id cl) :: u64) < 2 ^ 32"
    using unsigned_less [of "cl_node_id cl", where ?'a = nat] 
    by (simp add: unsigned_ucast_eq take_bit_nat_eq_self)
  moreover have "ucast (ucast (cl_node_id cl) :: u64) = cl_node_id cl"
    by (rule bit_word_eqI) (simp add: bit_unsigned_iff)
  ultimately show "peek_node_id J (cred_sign J cl kid sk) = Some (cl_node_id cl)"
    using json assms(2) by (simp add: peek_node_id_def peek_ok_def)
  show "peek_network J (cred_sign J cl kid sk) = Some (cl_network_id cl)"
    using json assms(2) by (simp add: peek_network_def peek_ok_def)
qed

lemma join_credential_verifies:
  assumes "reg_wf (ns_registry ns)" and "rg_next_node_id (ns_registry ns) \<noteq> - 1"
    and "held_once mr_ip4 (ns_registry ns)" and "held_once mr_ip6 (ns_registry ns)"
    and "join_locked W ks port ck name req peer_ip ns = (Inr resp, ns')"
    and "cl = issued W (ns_cfg ns) req (ck_unix ck) resp"
    and "distinct (map sk_kid ks)" and "keyring_active ks = Some (kid, key)"
    and "jose_ok (w_jose W) cl kid key (w_verifying_key W key)" and "peek_ok (w_jose W) cl"
    and "map_of nets (jr_network_id resp) = Some ns'"
    and "of_nat now < word_sat_add (cl_exp cl) LEEWAY_SECS" and "cl_iat cl \<le> word_sat_add (of_nat now) LEEWAY_SECS"
  shows "verify_credential W ks nets (jr_credential resp) (jq_cert_fingerprint req) now = Inr (cl, jr_network_id resp)"
proof (cases rule: join_core [OF assms(1-5)])
  case (1 m r g reg routes relay_addr kid' key' rec)
  have k: "kid' = kid" "key' = key" using 1(13) assms(8) by simp_all
  have cl: "cl = join_claims W ns' name r req rec g routes (ck_unix ck)"
    unfolding assms(6) 1(14) 1(2) [symmetric] by (rule issued_response)
  have resp: "jr_credential resp = cred_sign (w_jose W) cl kid key" "jr_network_id resp = cl_network_id cl"
    unfolding cl 1(14) k by (simp_all add: build_response_def join_claims_def)
  have f: "cl_node_id cl = mr_node_id rec" "cl_login_gen cl = mr_login_gen rec" "cl_cert_fp cl = jq_cert_fingerprint req"
      "cl_aud cl = AUD" "cl_iss cl = ISS" "cl_network_uuid cl = rg_network_uuid (ns_registry ns')"
    unfolding cl by (simp_all add: join_claims_def)
  note v = cred_verify_sign [OF assms(9) active_key_verifies [OF assms(7,8)]]
  have "check_claims \<lparr>ex_iss = ISS, ex_network_id = cl_network_id cl,
      ex_network_uuid = rg_network_uuid (ns_registry ns')\<rparr> (of_nat now) cl = Inr cl"
    unfolding check_claims_Inr using assms(12,13) f by simp
  with v peek_signed [OF assms(9,10)] assms(11) 1(1,8,11) f show ?thesis
    unfolding resp by (simp add: verify_credential_def Let_def)
qed

text \<open>What an accepted credential means.\<close>

lemma verify_credential_Inr:
  assumes "verify_credential W ks nets token fp now = Inr (cl, net_id)"
  obtains ns i rec where "map_of nets net_id = Some ns" "\<not> ns_deleted ns"
    "cred_verify (w_jose W) token (verifying_keys W ks)
       \<lparr>ex_iss = ISS, ex_network_id = net_id, ex_network_uuid = rg_network_uuid (ns_registry ns)\<rparr> (of_nat now) = Inr cl"
    "map_of (rg_members (ns_registry ns)) i = Some rec" "mr_node_id rec = cl_node_id cl" "\<not> mr_disabled rec"
    "mr_login_gen rec \<le> cl_login_gen cl" "cl_cert_fp cl = fp"
proof -
  from assms obtain n ns where n: "peek_network (w_jose W) token = Some n" "map_of nets n = Some ns" "\<not> ns_deleted ns"
    by (auto simp: verify_credential_def split: option.splits if_splits)
  define i where "i = (case peek_node_id (w_jose W) token of Some i \<Rightarrow> i | None \<Rightarrow> 0)"
  let ?v = "cred_verify (w_jose W) token (verifying_keys W ks)
       \<lparr>ex_iss = ISS, ex_network_id = n, ex_network_uuid = rg_network_uuid (ns_registry ns)\<rparr> (of_nat now)"
  have run: "(case ?v of Inl e \<Rightarrow> Inl (Rejected e)
      | Inr cl \<Rightarrow> (case map_of (rg_members (ns_registry ns)) i of None \<Rightarrow> Inl UnknownNode
         | Some rec \<Rightarrow> if mr_node_id rec \<noteq> cl_node_id cl then Inl RecordMismatch
             else if mr_disabled rec then Inl NodeDisabled
             else if cl_login_gen cl < mr_login_gen rec then Inl ReplacedInstance
             else if cl_cert_fp cl \<noteq> fp then Inl FingerprintMismatch else Inr (cl, n))) = Inr (cl, net_id)"
    using assms n unfolding i_def by (simp add: verify_credential_def Let_def)
  then obtain c rec where c: "?v = Inr c" "map_of (rg_members (ns_registry ns)) i = Some rec"
    by (cases ?v; cases "map_of (rg_members (ns_registry ns)) i") simp_all
  with run n show thesis by (intro that [of ns i rec]) (auto simp: not_less split: if_splits)
qed

section \<open>Properties\<close>

text \<open>
  C3. What a join answers is already durable. A successful answer names a record of the registry that
  carries the member's name, is enabled, holds the keys just presented and the login generation,
  addresses and routes of the answer, and the database holds the same record.
\<close>

theorem join_durable:
  assumes "reg_wf (ns_registry ns)" and "rg_next_node_id (ns_registry ns) \<noteq> - 1"
    and "held_once mr_ip4 (ns_registry ns)" and "held_once mr_ip6 (ns_registry ns)"
    and "join_locked W ks port ck name req peer_ip ns = (Inr resp, ns')"
  shows "\<exists>rec durable. map_of (rg_members (ns_registry ns')) (jr_node_id resp) = Some rec
    \<and> mr_name rec = name \<and> \<not> mr_disabled rec
    \<and> mr_pubkey rec = Some (jq_pubkey req) \<and> mr_cert_fp rec = Some (jq_cert_fingerprint req)
    \<and> mr_login_gen rec = jr_login_gen resp \<and> mr_ip4 rec = jr_ip4 resp \<and> mr_ip6 rec = jr_ip6 resp
    \<and> map rr_cidr (mr_routes rec) = jr_granted_cidrs resp
    \<and> db_registry (ns_db ns') = Some durable \<and> map_of (rg_members durable) (jr_node_id resp) = Some rec"
proof (cases rule: join_core [OF assms])
  case (1 m r g reg routes relay_addr kid key rec)
  from 1(7) obtain d where d: "db_registry (ns_db ns') = Some d" "rg_members d = rg_members (ns_registry ns')" by blast
  have resp: "jr_node_id resp = mr_node_id rec" "jr_login_gen resp = mr_login_gen rec" "jr_ip4 resp = gr_ip4 g"
      "jr_ip6 resp = gr_ip6 g" "jr_granted_cidrs resp = map rr_cidr routes"
    unfolding 1(14) by (simp_all add: build_response_def)
  have rec: "mr_pubkey rec = Some (jq_pubkey req)" "mr_cert_fp rec = Some (jq_cert_fingerprint req)"
      "mr_ip4 rec = gr_ip4 g" "mr_ip6 rec = gr_ip6 g" "mr_routes rec = routes"
    unfolding 1(9) by simp_all
  show ?thesis unfolding resp using 1(8,10,11) d rec by auto
qed

abbreviation example_keys :: "unit stored_key list" where
  "example_keys \<equiv> [\<lparr>sk_kid = ''k1'', sk_state = ''active'', sk_secret = ()\<rparr>]"

abbreviation example_request :: join_request where
  "example_request \<equiv> \<lparr>jq_secret = ''s'', jq_pubkey = ''k'', jq_cert_fingerprint = ''f''\<rparr>"

abbreviation example_join :: "(api_error + join_response) \<times> net_state" where
  "example_join \<equiv> join_locked example_world example_keys 7 \<lparr>ck_unix = 50, ck_ms = 500\<rparr> ''a'' example_request ''p'' example_net"

lemma example_net_ok:
  "reg_wf (ns_registry example_net)" "rg_next_node_id (ns_registry example_net) \<noteq> - 1"
  "held_once mr_ip4 (ns_registry example_net)" "held_once mr_ip6 (ns_registry example_net)"
  by (simp_all add: example_net_def net_state_new_def reg_wf_def held_once_def registry_new_def)

lemma example_join_stages:
  "member_now (ns_cfg example_net) ''a'' ''s'' = Some (member_cfg_default\<lparr>mc_secret := Some ''s''\<rparr>, Client)"
  "reg_by_name (ns_registry example_net) ''a'' = None" "\<not> ns_deleted example_net" "can_save_registry (ns_db example_net)"
  "keyring_active example_keys = Some (''k1'', ())" "str_trim ''s'' = ''s''"
  "map_sum id (\<lambda>(g, reg). (g, rg_network_uuid reg, mr_node_id (record_for reg ''a'' Client 50),
       mr_login_gen (record_for reg ''a'' Client 50)))
     (join_addresses example_world example_net ''a'' (member_cfg_default\<lparr>mc_secret := Some ''s''\<rparr>) 50)
   = Inr (\<lparr>gr_ip4 = Some 0x0A000001, gr_ip6 = None\<rparr>, ''u'', 1, 0)"
  by code_simp+

lemma example_join_ok:
  "\<exists>resp ns'. example_join = (Inr resp, ns') \<and> jr_ip4 resp = Some 0x0A000001
    \<and> issued example_world (ns_cfg example_net) example_request 50 resp = example_claims"
proof -
  let ?m = "member_cfg_default\<lparr>mc_secret := Some ''s''\<rparr>" and ?g = "\<lparr>gr_ip4 = Some 0x0A000001, gr_ip6 = None\<rparr> :: granted"
  obtain reg where reg: "join_addresses example_world example_net ''a'' ?m 50 = Inr (?g, reg)"
      "rg_network_uuid reg = ''u''" "mr_node_id (record_for reg ''a'' Client 50) = 1"
      "mr_login_gen (record_for reg ''a'' Client 50) = 0"
    using example_join_stages(7) by (cases "join_addresses example_world example_net ''a'' ?m 50") auto
  define rec where "rec = join_record (is_replaced None example_request) 50 example_request ?g [] None ''p''
      (record_for reg ''a'' Client 50)"
  have "\<exists>ns'. example_join = (Inr (build_response example_world ns' ''a'' Client ?m example_request rec ?g [] None 50
       (key_infos example_world example_keys) ''k1'' () 7), ns')
    \<and> ns_cfg ns' = ns_cfg example_net \<and> rg_network_uuid (ns_registry ns') = rg_network_uuid reg"
    using join_succeeds [OF example_join_stages(3), of "''a''" example_request ?m Client example_world "''p''" None
        "\<lparr>ck_unix = 50, ck_ms = 500\<rparr>" ?g reg example_keys "''k1''" "()" None "[]" rec 7] example_join_stages(1-6) reg(1)
    by (simp add: join_relay_addr_def rec_def granted_routes_def declared_routes_def)
  then obtain ns' where ns': "example_join = (Inr (build_response example_world ns' ''a'' Client ?m example_request rec ?g []
       None 50 (key_infos example_world example_keys) ''k1'' () 7), ns')"
      "ns_cfg ns' = ns_cfg example_net" "rg_network_uuid (ns_registry ns') = ''u''"
    using reg(2) by auto
  have "join_claims example_world ns' ''a'' Client example_request rec ?g [] 50 = example_claims"
    using ns'(2,3) reg(3,4)
    by (simp add: join_claims_def example_claims_def rec_def is_replaced_def example_net_def net_state_new_def
        example_client_def example_world_def)
  then have "issued example_world (ns_cfg example_net) example_request 50
      (build_response example_world ns' ''a'' Client ?m example_request rec ?g [] None 50
        (key_infos example_world example_keys) ''k1'' () 7) = example_claims"
    unfolding ns'(2) [symmetric] issued_response .
  moreover have "jr_ip4 (build_response example_world ns' ''a'' Client ?m example_request rec ?g [] None 50
        (key_infos example_world example_keys) ''k1'' () 7) = Some 0x0A000001"
    by (simp add: build_response_def)
  ultimately show ?thesis using ns'(1) by blast
qed

theorem join_durable_witness:
  "\<exists>resp ns' rec durable. example_join = (Inr resp, ns') \<and> jr_ip4 resp = Some 0x0A000001
    \<and> db_registry (ns_db ns') = Some durable \<and> map_of (rg_members durable) (jr_node_id resp) = Some rec
    \<and> mr_ip4 rec = Some 0x0A000001"
proof -
  obtain resp ns' where j: "example_join = (Inr resp, ns')" "jr_ip4 resp = Some 0x0A000001" using example_join_ok by blast
  from join_durable [OF example_net_ok j(1)] j show ?thesis by auto
qed

text \<open>
  C12. A join keeps the registry sound: afterwards ids and names still belong to one member each, no
  address is held by two members, and the addresses given out lie in the network's ranges.
\<close>

theorem join_keeps_addresses_unique:
  assumes "ipnet_ok (w_ipnet W)" and "reg_wf (ns_registry ns)" and "rg_next_node_id (ns_registry ns) \<noteq> - 1"
    and "held_once mr_ip4 (ns_registry ns)" and "held_once mr_ip6 (ns_registry ns)"
    and "join_locked W ks port ck name req peer_ip ns = (Inr resp, ns')"
  shows "reg_wf (ns_registry ns') \<and> held_once mr_ip4 (ns_registry ns') \<and> held_once mr_ip6 (ns_registry ns')
    \<and> (\<forall>a. jr_ip4 resp = Some a \<longrightarrow> in_tunnel (w_ipnet W) (ns_cfg ns') (A4 a))
    \<and> (\<forall>a. jr_ip6 resp = Some a \<longrightarrow> in_tunnel (w_ipnet W) (ns_cfg ns') (A6 a))"
proof (cases rule: join_core [OF assms(2-6)])
  case (1 m r g reg routes relay_addr kid key rec)
  have "jr_ip4 resp = gr_ip4 g" "jr_ip6 resp = gr_ip6 g" unfolding 1(14) by (simp_all add: build_response_def)
  with 1(2,4-6) join_addresses_inside [OF assms(1) 1(3)] show ?thesis by simp
qed

theorem join_keeps_addresses_unique_witness:
  "\<exists>resp ns'. example_join = (Inr resp, ns') \<and> held_once mr_ip4 (ns_registry ns')
    \<and> in_tunnel ipnet_std (ns_cfg ns') (A4 0x0A000001)"
proof -
  obtain resp ns' where j: "example_join = (Inr resp, ns')" "jr_ip4 resp = Some 0x0A000001" using example_join_ok by blast
  have "ipnet_ok (w_ipnet example_world)" by (simp add: example_world_def ipnet_std_ok)
  from join_keeps_addresses_unique [OF this example_net_ok j(1)] j show ?thesis by (auto simp: example_world_def)
qed

text \<open>
  C10. The credential a join hands out opens a session: presented over a connection with the
  certificate the member joined with, while it is valid and the record stands as the join left it, it
  passes the whole check of the control plane and yields the claims of the answer.
\<close>

theorem join_credential_accepted:
  assumes "reg_wf (ns_registry ns)" and "rg_next_node_id (ns_registry ns) \<noteq> - 1"
    and "held_once mr_ip4 (ns_registry ns)" and "held_once mr_ip6 (ns_registry ns)"
    and "join_locked W ks port ck name req peer_ip ns = (Inr resp, ns')"
    and "cl = issued W (ns_cfg ns) req (ck_unix ck) resp"
    and "distinct (map sk_kid ks)" and "keyring_active ks = Some (kid, key)"
    and "jose_ok (w_jose W) cl kid key (w_verifying_key W key)" and "peek_ok (w_jose W) cl"
    and "map_of nets (jr_network_id resp) = Some ns'"
    and "of_nat now < word_sat_add (cl_exp cl) LEEWAY_SECS" and "cl_iat cl \<le> word_sat_add (of_nat now) LEEWAY_SECS"
  shows "verify_credential W ks nets (jr_credential resp) (jq_cert_fingerprint req) now = Inr (cl, jr_network_id resp)"
  using assms by (rule join_credential_verifies)

lemma example_issue_facts:
  "jose_ok (w_jose example_world) example_claims ''k1'' () (w_verifying_key example_world ())"
  "peek_ok (w_jose example_world) example_claims"
  "of_nat 60 < word_sat_add (cl_exp example_claims) LEEWAY_SECS"
  "cl_iat example_claims \<le> word_sat_add (of_nat 60) LEEWAY_SECS"
proof -
  show "jose_ok (w_jose example_world) example_claims ''k1'' () (w_verifying_key example_world ())"
    "peek_ok (w_jose example_world) example_claims"
    by (simp_all add: example_world_def jose_ok_def sign_input_def example_b64_def example_unb64_def
        example_header_vec_def example_header_def example_claims_vec_def example_claims_of_def example_sign_def
        example_verify_def peek_ok_def example_str_def example_u64_def example_claims_def)
qed (code_simp+)

lemma example_answer:
  "\<exists>resp ns'. example_join = (Inr resp, ns') \<and> jr_network_id resp = ''n''
    \<and> example_claims = issued example_world (ns_cfg example_net) example_request (ck_unix \<lparr>ck_unix = 50, ck_ms = 500\<rparr>) resp"
  using example_join_ok by (auto simp: issued_def example_claims_def)

theorem join_credential_accepted_witness:
  "\<exists>resp ns'. example_join = (Inr resp, ns')
    \<and> verify_credential example_world example_keys [(''n'', ns')] (jr_credential resp) ''f'' 60
      = Inr (example_claims, ''n'')"
proof -
  obtain resp ns' where j: "example_join = (Inr resp, ns')" "jr_network_id resp = ''n''"
      "example_claims = issued example_world (ns_cfg example_net) example_request (ck_unix \<lparr>ck_unix = 50, ck_ms = 500\<rparr>) resp"
    using example_answer by blast
  from join_credential_accepted [OF example_net_ok j(1,3) _ example_join_stages(5) example_issue_facts(1,2) _
      example_issue_facts(3,4), of "[(''n'', ns')]"] j(1,2)
  show ?thesis by auto
qed

lemma example_accepted:
  "\<exists>resp ns'. example_join = (Inr resp, ns')
    \<and> verify_credential example_world example_keys [(''n'', ns')] (jr_credential resp) ''f'' 60
      = Inr (example_claims, ''n'')"
proof -
  obtain resp ns' where j: "example_join = (Inr resp, ns')" "jr_network_id resp = ''n''"
      "example_claims = issued example_world (ns_cfg example_net) example_request (ck_unix \<lparr>ck_unix = 50, ck_ms = 500\<rparr>) resp"
    using example_answer by blast
  from join_credential_verifies [OF example_net_ok j(1,3) _ example_join_stages(5) example_issue_facts(1,2) _
      example_issue_facts(3,4), of "[(''n'', ns')]"] j(1,2)
  show ?thesis by auto
qed

text \<open>
  C13. Who gets a session. A credential that passes was signed by a key of the keyring for this network,
  names a member of the registry that is enabled and whose login generation it has not fallen behind,
  and was made out for the certificate of the connection it came over.
\<close>

theorem verify_credential_sound:
  assumes "verify_credential W ks nets token fp now = Inr (cl, net_id)"
    and "\<forall>ns. map_of nets net_id = Some ns \<longrightarrow> reg_wf (ns_registry ns)"
  shows "\<exists>ns rec key h p s b. map_of nets net_id = Some ns \<and> \<not> ns_deleted ns
    \<and> map_of (rg_members (ns_registry ns)) (cl_node_id cl) = Some rec \<and> \<not> mr_disabled rec
    \<and> mr_login_gen rec \<le> cl_login_gen cl \<and> cl_cert_fp cl = fp
    \<and> cl_network_id cl = net_id \<and> cl_network_uuid cl = rg_network_uuid (ns_registry ns)
    \<and> of_nat now < word_sat_add (cl_exp cl) LEEWAY_SECS
    \<and> split_on CHR ''.'' token = [h, p, s] \<and> key \<in> snd ` set (verifying_keys W ks)
    \<and> b64_decode (w_jose W) s = Some b \<and> ed_verify_strict (w_jose W) key (h @ ''.'' @ p) b"
proof (cases rule: verify_credential_Inr [OF assms(1)])
  case (1 ns i rec)
  have "reg_wf (ns_registry ns)" using assms(2) 1(1) by blast
  from reg_wfD(2) [OF this 1(4)] 1(5) have i: "i = cl_node_id cl" by simp
  obtain h p s key where v: "split_on CHR ''.'' token = [h, p, s]" "key \<in> snd ` set (verifying_keys W ks)"
    "\<exists>b. b64_decode (w_jose W) s = Some b \<and> ed_verify_strict (w_jose W) key (h @ ''.'' @ p) b"
    "check_claims \<lparr>ex_iss = ISS, ex_network_id = net_id, ex_network_uuid = rg_network_uuid (ns_registry ns)\<rparr>
       (of_nat now) cl = Inr cl"
    by (rule cred_verify_sound [OF 1(3)])
  from v(3) obtain b where b: "b64_decode (w_jose W) s = Some b" "ed_verify_strict (w_jose W) key (h @ ''.'' @ p) b" by blast
  have "of_nat now < word_sat_add (cl_exp cl) LEEWAY_SECS \<and> cl_network_id cl = net_id
      \<and> cl_network_uuid cl = rg_network_uuid (ns_registry ns)"
    using v(4) by (simp add: check_claims_Inr)
  with 1 v(1,2) b show ?thesis unfolding i by blast
qed

theorem verify_credential_sound_witness:
  "\<exists>resp ns' rec. example_join = (Inr resp, ns') \<and> map_of (rg_members (ns_registry ns')) 1 = Some rec
    \<and> \<not> mr_disabled rec \<and> mr_login_gen rec \<le> 0"
proof -
  obtain resp ns' where j: "example_join = (Inr resp, ns')"
      "verify_credential example_world example_keys [(''n'', ns')] (jr_credential resp) ''f'' 60 = Inr (example_claims, ''n'')"
    using example_accepted by blast
  have "reg_wf (ns_registry ns')" by (rule join_core [OF example_net_ok j(1)])
  with verify_credential_sound [OF j(2)] j(1) show ?thesis by (auto simp: example_claims_def)
qed

text \<open>
  C4. A newer join locks the older instance out. When a member that has joined before joins again with
  other keys, its login generation moves on by one, its session of an older generation is gone when the
  answer is given, and no credential of an older generation of this member is accepted any more.
\<close>

theorem replaced_instance_locked_out:
  assumes "reg_wf (ns_registry ns)" and "rg_next_node_id (ns_registry ns) \<noteq> - 1"
    and "held_once mr_ip4 (ns_registry ns)" and "held_once mr_ip6 (ns_registry ns)"
    and "join_locked W ks port ck name req peer_ip ns = (Inr resp, ns')"
    and "reg_by_name (ns_registry ns) name = Some old" and "mr_pubkey old \<noteq> None"
    and "mr_pubkey old \<noteq> Some (jq_pubkey req) \<or> mr_cert_fp old \<noteq> Some (jq_cert_fingerprint req)"
  shows "jr_node_id resp = mr_node_id old \<and> jr_login_gen resp = mr_login_gen old + 1
    \<and> (\<forall>s. map_of (ns_sessions ns') (jr_node_id resp) = Some s \<longrightarrow> jr_login_gen resp \<le> cs_login_gen s)
    \<and> (\<forall>ks nets token fp now cl net_id. verify_credential W ks nets token fp now = Inr (cl, net_id)
        \<longrightarrow> map_of nets net_id = Some ns' \<longrightarrow> cl_node_id cl = jr_node_id resp \<longrightarrow> jr_login_gen resp \<le> cl_login_gen cl)"
proof (cases rule: join_core [OF assms(1-5)])
  case (1 m r g reg routes relay_addr kid key rec)
  have rp: "is_replaced (reg_by_name (ns_registry ns) name) req" using assms(6-8) by (simp add: is_replaced_def)
  have resp: "jr_node_id resp = mr_node_id rec" "jr_login_gen resp = mr_login_gen rec"
    unfolding 1(14) by (simp_all add: build_response_def)
  have "record_for reg name r (ck_unix ck) = old\<lparr>mr_role := r\<rparr>" using 1(12) assms(6) by blast
  then have rec: "mr_node_id rec = mr_node_id old" "mr_login_gen rec = mr_login_gen old + 1"
    using rp unfolding 1(9) by simp_all
  have "mr_login_gen rec \<le> cl_login_gen cl"
    if v: "verify_credential W ks nets token fp now = Inr (cl, net_id)" "map_of nets net_id = Some ns'"
      "cl_node_id cl = mr_node_id rec" for ks nets token fp now cl net_id
  proof (cases rule: verify_credential_Inr [OF v(1)])
    case v1: (1 ns1 i rec1)
    then have "ns1 = ns'" using v(2) by simp
    with v1(4,5) reg_wfD(2) [OF 1(4)] v(3) have "map_of (rg_members (ns_registry ns')) (mr_node_id rec) = Some rec1" by metis
    with 1(8) v1(7) show ?thesis by simp
  qed
  with 1(15) rp rec show ?thesis unfolding resp by (simp add: not_less)
qed

definition example_joined :: net_state where
  "example_joined = example_net\<lparr>ns_registry := (registry_new ''u'')\<lparr>rg_next_node_id := 2,
     rg_members := [(1, (new_record 1 ''a'' Client 0)\<lparr>mr_pubkey := Some ''x'', mr_login_gen := 4\<rparr>)]\<rparr>\<rparr>"

lemma example_joined_ok:
  "reg_wf (ns_registry example_joined)" "rg_next_node_id (ns_registry example_joined) \<noteq> - 1"
  "held_once mr_ip4 (ns_registry example_joined)" "held_once mr_ip6 (ns_registry example_joined)"
  by (auto simp: example_joined_def reg_wf_def held_once_def registry_new_def new_record_def split: if_splits)

lemma example_rejoin:
  "\<exists>resp ns'. join_locked example_world example_keys 7 \<lparr>ck_unix = 50, ck_ms = 500\<rparr> ''a'' example_request ''p'' example_joined
     = (Inr resp, ns')"
proof -
  let ?m = "member_cfg_default\<lparr>mc_secret := Some ''s''\<rparr>"
  have stages: "member_now (ns_cfg example_joined) ''a'' (str_trim ''s'') = Some (?m, Client)"
      "\<not> ns_deleted example_joined" "can_save_registry (ns_db example_joined)"
      "map_option mr_disabled (reg_by_name (ns_registry example_joined) ''a'') = Some False"
      "case_sum (\<lambda>_. False) (\<lambda>_. True) (join_addresses example_world example_joined ''a'' ?m 50)"
    by code_simp+
  then obtain g reg where a: "join_addresses example_world example_joined ''a'' ?m 50 = Inr (g, reg)"
    by (cases "join_addresses example_world example_joined ''a'' ?m 50") auto
  have mn: "member_now (ns_cfg example_joined) ''a'' (str_trim (jq_secret example_request)) = Some (?m, Client)"
    using stages(1) by simp
  have ra: "join_relay_addr example_world (ns_cfg example_joined) ''a'' ?m Client ''p'' = Inr None"
    by (simp add: join_relay_addr_def)
  have dis: "\<forall>rec. reg_by_name (ns_registry example_joined) ''a'' = Some rec \<longrightarrow> \<not> mr_disabled rec"
    using stages(4) by auto
  have a': "join_addresses example_world example_joined ''a'' ?m (ck_unix \<lparr>ck_unix = 50, ck_ms = 500\<rparr>) = Inr (g, reg)"
    using a by simp
  from join_succeeds [OF stages(2) mn ra dis a' stages(3) example_join_stages(5) refl refl refl, of 7]
  show ?thesis by blast
qed

theorem replaced_instance_locked_out_witness:
  "\<exists>resp ns'. join_locked example_world example_keys 7 \<lparr>ck_unix = 50, ck_ms = 500\<rparr> ''a'' example_request ''p'' example_joined
     = (Inr resp, ns') \<and> jr_login_gen resp = 5"
proof -
  obtain resp ns' where j: "join_locked example_world example_keys 7 \<lparr>ck_unix = 50, ck_ms = 500\<rparr> ''a'' example_request ''p''
      example_joined = (Inr resp, ns')" using example_rejoin by blast
  obtain old where old: "reg_by_name (ns_registry example_joined) ''a'' = Some old" "mr_pubkey old = Some ''x''"
      "mr_login_gen old = 4"
    by (simp add: example_joined_def reg_by_name_def new_record_def)
  from replaced_instance_locked_out [OF example_joined_ok j old(1)] old(2,3) j show ?thesis by auto
qed



end
