(* ===== verification/Nq_Sync.thy ===== *)
theory Nq_Sync
  imports Nq_Coord Nq_Link
begin

text \<open>
  The coordinator's publishing (\<open>state.rs\<close>, \<open>control.rs\<close>) and the member's copy of the view
  (\<open>link.rs\<close>) put together: what a member holds once it has read everything its session was sent.
  Runs of one network are sequences of the coordinator's own operations; members say the truth about
  the generation they hold, read their pushes in order and may lag behind by any number of them.
\<close>

section \<open>A member reading its session\<close>

definition member_take :: "view \<Rightarrow> push \<Rightarrow> view" where
  "member_take v p =
     (case p of PDelta d \<Rightarrow> snd (view_apply v d) | PSnapshot s \<Rightarrow> snd (view_install v s) | _ \<Rightarrow> v)"

definition view_after :: "view \<Rightarrow> push list \<Rightarrow> snapshot" where
  "view_after v ps = vw_snap (foldl member_take v ps)"

section \<open>Runs\<close>

text \<open>
  The view a member held when it opened its session: one published since the coordinator started, or
  one of an earlier life of the coordinator, which is older than anything it publishes now.
\<close>

definition start_ok :: "snapshot \<Rightarrow> snapshot list \<Rightarrow> bool" where
  "start_ok s h \<longleftrightarrow> s \<in> set h \<or> sn_gen s \<notin> sn_gen ` set h \<and> sn_gen s < sn_gen (last h)"

text \<open>The views published so far, after an operation.\<close>

definition hist :: "snapshot list \<Rightarrow> net_state \<Rightarrow> snapshot list" where
  "hist h ns = (if last h = dr_published (ns_directory ns) then h else h @ [dr_published (ns_directory ns)])"

text \<open>A generation the member reported: that of its view after some of the pushes it was sent.\<close>

definition reported :: "(node_id \<Rightarrow> view) \<Rightarrow> net_state \<Rightarrow> node_id \<Rightarrow> u64 \<Rightarrow> bool" where
  "reported st ns node g \<longleftrightarrow>
     (\<forall>s. map_of (ns_sessions ns) node = Some s \<longrightarrow>
        (\<exists>n. g = sn_gen (view_after (st node) (take n (cs_pushed s)))))"

text \<open>
  \<open>sync_run W st h ns\<close>: \<open>ns\<close> is reachable, has published \<open>h\<close>, and the member behind the session of
  \<open>node\<close> held \<open>st node\<close> when it said hello. The last two rules are the environment: the writer tasks,
  and the operator and the rest of the coordinator writing anything but sessions and published views.
  Generations follow the clock in milliseconds, so that the last 64-bit one is left out.
\<close>

definition gen_room :: "net_state \<Rightarrow> bool" where
  "gen_room ns \<longleftrightarrow> dr_gen (ns_directory ns) \<noteq> - 1"

inductive sync_run :: "('sk, 'vk) world \<Rightarrow> (node_id \<Rightarrow> view) \<Rightarrow> snapshot list \<Rightarrow> net_state \<Rightarrow> bool" for W where
  start: "ns = net_state_new W cfg reg db ck \<Longrightarrow> sync_run W st [dr_published (ns_directory ns)] ns"
| register: "sync_run W st h ns \<Longrightarrow> gen_room ns \<Longrightarrow> \<not> ns_deleted ns \<Longrightarrow> start_ok (vw_snap v) h
    \<Longrightarrow> ns' = snd (register_session W keys ck i cl (view_gen v) remote ns)
    \<Longrightarrow> sync_run W (st(cl_node_id cl := v)) (hist h ns') ns'"
| heartbeat: "sync_run W st h ns \<Longrightarrow> gen_room ns \<Longrightarrow> reported st ns node (hb_gen hb)
    \<Longrightarrow> ns' = snd (on_heartbeat W keys ck node r hb ns) \<Longrightarrow> sync_run W st (hist h ns') ns'"
| resync: "sync_run W st h ns \<Longrightarrow> reported st ns node g
    \<Longrightarrow> ns' = snd (on_resync ck node g ns) \<Longrightarrow> sync_run W st h ns'"
| exit_readiness: "sync_run W st h ns \<Longrightarrow> gen_room ns
    \<Longrightarrow> ns' = snd (on_exit_readiness W keys ck node r er ns) \<Longrightarrow> sync_run W st (hist h ns') ns'"
| refresh: "sync_run W st h ns \<Longrightarrow> ns' = snd (on_refresh ck network_id node r fp verdict ns) \<Longrightarrow> sync_run W st h ns'"
| teardown: "sync_run W st h ns \<Longrightarrow> gen_room ns \<Longrightarrow> ns' = teardown W keys ck node i ns
    \<Longrightarrow> sync_run W st (hist h ns') ns'"
| sweep: "sync_run W st h ns \<Longrightarrow> gen_room ns \<Longrightarrow> ns' = liveness_sweep W keys ck ns \<Longrightarrow> sync_run W st (hist h ns') ns'"
| flush: "sync_run W st h ns \<Longrightarrow> gen_room ns \<Longrightarrow> ns' = flush_due W keys ck ns \<Longrightarrow> sync_run W st (hist h ns') ns'"
| join: "sync_run W st h ns \<Longrightarrow> gen_room ns \<Longrightarrow> ns' = snd (join_locked W ks port ck name req peer_ip ns)
    \<Longrightarrow> sync_run W st (hist h ns') ns'"
| close: "sync_run W st h ns \<Longrightarrow> sync_run W st h (close_session_with node code reason ns)"
| written: "sync_run W st h ns \<Longrightarrow> sync_run W st h (upd_session node writer_turn ns)"
| edit: "sync_run W st h ns \<Longrightarrow> ns_sessions ns' = ns_sessions ns
    \<Longrightarrow> ns_directory ns' = (ns_directory ns)\<lparr>dr_hold_down_secs := hold, dr_reachability := reach,
          dr_reported_mtu := mtu, dr_traffic := traffic, dr_exit_readiness := ready\<rparr> \<Longrightarrow> sync_run W st h ns'"

section \<open>What a member can hold\<close>

lemma view_after_Nil [simp]: "view_after v [] = vw_snap v"
  by (simp add: view_after_def)

definition take_snap :: "snapshot \<Rightarrow> push \<Rightarrow> snapshot" where
  "take_snap s p =
     (case p of PDelta d \<Rightarrow> (case snapshot_apply s d of Inr s' \<Rightarrow> s' | Inl _ \<Rightarrow> s)
      | PSnapshot x \<Rightarrow> if sn_gen x < sn_gen s then s else snapshot_normalize x | _ \<Rightarrow> s)"

lemma member_take_snap: "vw_snap (member_take v p) = take_snap (vw_snap v) p"
  by (simp add: member_take_def take_snap_def view_apply_def view_install_def view_poke_def Let_def
      split: push.split sum.split)

lemma view_after_snoc [simp]: "view_after v (ps @ [p]) = take_snap (view_after v ps) p"
  by (simp add: view_after_def member_take_snap)

definition hist_ok :: "snapshot list \<Rightarrow> bool" where
  "hist_ok h \<longleftrightarrow> h \<noteq> [] \<and> sorted_wrt (<) (map sn_gen h) \<and> (\<forall>x \<in> set h. canonical x)"

lemma dir_inv_hist: "dir_inv enc d h \<Longrightarrow> hist_ok h \<and> last h = dr_published d \<and> sn_gen (last h) = dr_gen d"
  by (simp add: dir_inv_def hist_ok_def)

definition push_of :: "snapshot list \<Rightarrow> push \<Rightarrow> bool" where
  "push_of h p = (case p of PDelta d \<Rightarrow> d \<in> set (consecutive diff h) | PSnapshot s \<Rightarrow> s \<in> set h | _ \<Rightarrow> True)"

lemma consecutive_nth: "Suc j < length h \<Longrightarrow> consecutive f h ! j = f (h ! j) (h ! Suc j)"
proof (induction f h arbitrary: j rule: consecutive.induct)
  case (1 f a b r)
  then show ?case by (cases j) auto
qed auto

lemma in_consecutive: "d \<in> set (consecutive f h) \<Longrightarrow> \<exists>j. Suc j < length h \<and> d = f (h ! j) (h ! Suc j)"
  by (metis consecutive_nth in_set_conv_nth length_consecutive less_diff_conv add.commute plus_1_eq_Suc)

lemma hist_gen_eq: "hist_ok h \<Longrightarrow> x \<in> set h \<Longrightarrow> y \<in> set h \<Longrightarrow> sn_gen x = sn_gen y \<Longrightarrow> x = y"
  unfolding hist_ok_def by (metis gens_distinct in_set_conv_nth)

lemma hist_gen_last: "hist_ok h \<Longrightarrow> x \<in> set h \<Longrightarrow> sn_gen x \<le> sn_gen (last h)"
  unfolding hist_ok_def by (induction h) (auto simp: less_imp_le)

lemma take_delta:
  assumes "hist_ok h" and "a \<in> set h" and "b \<in> set h" and "sn_gen a < sn_gen b"
    and "sn_gen s = sn_gen a \<Longrightarrow> s = a"
  shows "take_snap s (PDelta (diff a b)) = (if s = a then b else s)"
proof -
  have "canonical a" "canonical b" using assms by (simp_all add: hist_ok_def)
  then have ab: "snapshot_apply a (diff a b) = Inr b" using assms(4) by (rule snapshot_diff_apply)
  show ?thesis
  proof (cases "s = a")
    case True
    with ab show ?thesis by (simp add: take_snap_def)
  next
    case False
    with assms(5) have "sn_gen s \<noteq> sn_gen a" by blast
    then have "snapshot_apply s (diff a b) = Inl (GenerationGap (sn_gen a) (sn_gen s))" if "sn_gen s < sn_gen b"
      using that by (simp add: snapshot_apply_def diff_def Let_def)
    with False snapshot_apply_stale [of b s a] show ?thesis
      by (cases "sn_gen b \<le> sn_gen s") (simp_all add: take_snap_def not_le)
  qed
qed

lemma take_snap_known:
  assumes "hist_ok h" and "start_ok v0 h" and "push_of h p" and "v \<in> insert v0 (set h)"
  shows "take_snap v p \<in> insert v0 (set h) \<and> sn_gen v \<le> sn_gen (take_snap v p)"
proof (cases p)
  case (PDelta d)
  then obtain j where j: "Suc j < length h" "d = diff (h ! j) (h ! Suc j)"
    using assms(3) in_consecutive [of d diff h] by (auto simp: push_of_def)
  have mem: "h ! j \<in> set h" "h ! Suc j \<in> set h" using j by simp_all
  have lt: "sn_gen (h ! j) < sn_gen (h ! Suc j)"
    using assms(1) j sorted_wrt_nth_less [of "(<)" "map sn_gen h" j "Suc j"] by (simp add: hist_ok_def)
  have "v = h ! j" if "sn_gen v = sn_gen (h ! j)"
    using that assms(2,4) hist_gen_eq [OF assms(1) _ mem(1)] mem(1) by (auto simp: start_ok_def)
  then have "take_snap v p = (if v = h ! j then h ! Suc j else v)"
    unfolding PDelta j(2) by (rule take_delta [OF assms(1) mem lt])
  with mem lt assms(4) show ?thesis by (simp add: less_imp_le)
next
  case (PSnapshot x)
  then show ?thesis using assms by (auto simp: take_snap_def push_of_def hist_ok_def)
qed (use assms(4) in \<open>simp_all add: take_snap_def\<close>)

lemma view_after_known:
  assumes "hist_ok h" and "start_ok (vw_snap v) h" and "list_all (push_of h) ps"
  shows "view_after v ps \<in> insert (vw_snap v) (set h)"
    and "sn_gen (view_after v (take n ps)) \<le> sn_gen (view_after v ps)"
proof -
  have *: "view_after v ps \<in> insert (vw_snap v) (set h)
    \<and> sn_gen (view_after v (take n ps)) \<le> sn_gen (view_after v ps)"
    using assms(3)
  proof (induction ps rule: rev_induct)
    case (snoc p ps)
    then have IH: "view_after v ps \<in> insert (vw_snap v) (set h)"
        "sn_gen (view_after v (take n ps)) \<le> sn_gen (view_after v ps)" and p: "push_of h p"
      by simp_all
    from take_snap_known [OF assms(1,2) p IH(1)] IH(2) show ?case
      by (cases "n \<le> length ps") (auto simp: not_le)
  qed simp
  then show "view_after v ps \<in> insert (vw_snap v) (set h)"
    and "sn_gen (view_after v (take n ps)) \<le> sn_gen (view_after v ps)" by simp_all
qed

section \<open>One session\<close>

definition sess_inv :: "view \<Rightarrow> snapshot list \<Rightarrow> coord_session \<Rightarrow> bool" where
  "sess_inv v0 h s \<longleftrightarrow> start_ok (vw_snap v0) h \<and> list_all (push_of h) (cs_pushed s)
     \<and> (cs_synced s \<longrightarrow> view_after v0 (cs_pushed s) = last h)"

lemma start_ok_snoc:
  assumes "start_ok s h" and "sn_gen (last h) < sn_gen x"
  shows "start_ok s (h @ [x])"
  using assms by (auto simp: start_ok_def)

lemma push_of_snoc: "h \<noteq> [] \<Longrightarrow> push_of h p \<Longrightarrow> push_of (h @ [x]) p"
  by (cases p) (simp_all add: push_of_def consecutive_snoc)

text \<open>Where the member stands, seen from a generation it had at some point.\<close>

definition past_gen :: "view \<Rightarrow> snapshot list \<Rightarrow> push list \<Rightarrow> u64 \<Rightarrow> bool" where
  "past_gen v0 h ps g \<longleftrightarrow> (\<forall>k < length h. sn_gen (h ! k) = g \<longrightarrow> view_after v0 ps \<in> set (drop k h))"

lemma in_drop_gen:
  assumes "hist_ok h" and "k < length h" and "x \<in> set h" and "sn_gen (h ! k) \<le> sn_gen x"
  shows "x \<in> set (drop k h)"
proof -
  obtain j where j: "j < length h" "x = h ! j" using assms(3) by (auto simp: in_set_conv_nth)
  have "k \<le> j"
  proof (rule ccontr)
    assume "\<not> k \<le> j"
    then have "sn_gen (h ! j) < sn_gen (h ! k)"
      using assms(1,2) j sorted_wrt_nth_less [of "(<)" "map sn_gen h" j k] by (simp add: hist_ok_def)
    with assms(4) j(2) show False by simp
  qed
  then have "drop k h ! (j - k) = x" using j by simp
  then show ?thesis using j(1) \<open>k \<le> j\<close> by (metis diff_less_mono in_set_conv_nth length_drop)
qed

lemma past_gen_reported:
  assumes "hist_ok h" and "start_ok (vw_snap v0) h" and "list_all (push_of h) ps"
    and "g = sn_gen (view_after v0 (take n ps))"
  shows "past_gen v0 h ps g"
  unfolding past_gen_def
proof (intro allI impI)
  fix k assume k: "k < length h" and g: "sn_gen (h ! k) = g"
  have ps': "list_all (push_of h) (take n ps)" using assms(3) by (auto simp: list_all_iff dest: in_set_takeD)
  have le: "g \<le> sn_gen (view_after v0 ps)" using view_after_known(2) [OF assms(1-3)] assms(4) by simp
  have start: "sn_gen (vw_snap v0) \<le> g"
    using view_after_known(2) [OF assms(1,2) ps', of 0] assms(4) by simp
  have "view_after v0 ps \<in> set h"
  proof (cases "vw_snap v0 \<in> set h")
    case False
    then have "g \<noteq> sn_gen (vw_snap v0)" using assms(2) nth_mem [OF k] g unfolding start_ok_def by (metis image_eqI)
    with start le have "view_after v0 ps \<noteq> vw_snap v0" by auto
    with view_after_known(1) [OF assms(1-3)] show ?thesis by simp
  qed (use view_after_known(1) [OF assms(1-3)] in auto)
  with in_drop_gen [OF assms(1) k] g le show "view_after v0 ps \<in> set (drop k h)" by simp
qed

lemma past_gen_current:
  assumes "hist_ok h" and "view_after v0 ps = last h"
  shows "past_gen v0 h ps g"
  unfolding past_gen_def
proof (intro allI impI)
  fix k assume k: "k < length h"
  then have "last (drop k h) = last h" "drop k h \<noteq> []" by simp_all
  with assms(2) show "view_after v0 ps \<in> set (drop k h)" by (metis last_in_set)
qed

lemma view_current:
  assumes "hist_ok h" and "start_ok (vw_snap v0) h" and "list_all (push_of h) ps"
    and "sn_gen (view_after v0 (take n ps)) = sn_gen (last h)"
  shows "view_after v0 ps = last h"
proof -
  have k: "length h - 1 < length h" and last: "h ! (length h - 1) = last h"
    using assms(1) by (simp_all add: hist_ok_def last_conv_nth)
  then have "drop (length h - 1) h = [last h]"
    using assms(1) Cons_nth_drop_Suc [OF k] by (simp add: hist_ok_def)
  with past_gen_reported [OF assms(1-3) refl, of n] k last assms(4) show ?thesis
    unfolding past_gen_def by (metis empty_iff empty_set set_ConsD)
qed

lemma deltas_since_unknown:
  assumes "dir_inv enc d h" and "g \<notin> sn_gen ` set h"
  shows "deltas_since d g = None"
proof -
  have ring: "set (dr_ring d) \<subseteq> set (consecutive diff h)" and gen: "dr_gen d \<in> sn_gen ` set h"
    using assms(1) by (auto simp: dir_inv_def dest: in_set_dropD) (metis image_eqI last_in_set)
  have "dl_base_gen x \<noteq> g" if x: "x \<in> set (dr_ring d)" for x
  proof -
    have "dl_base_gen x \<in> set (map dl_base_gen (consecutive diff h))" using x ring by auto
    then have "dl_base_gen x \<in> sn_gen ` set h"
      unfolding base_gens by (auto dest: in_set_butlastD)
    with assms(2) show ?thesis by auto
  qed
  then have "dropWhile (\<lambda>dl. dl_base_gen dl \<noteq> g) (dr_ring d) = []" by simp
  moreover have "g \<noteq> dr_gen d" using gen assms(2) by blast
  ultimately show ?thesis by (simp only: deltas_since_def if_False list.case)
qed

lemma view_after_deltas:
  "apply_all snapshot_apply (view_after v ps) ds = Inr x \<Longrightarrow> view_after v (ps @ map PDelta ds) = x"
proof (induction ds arbitrary: ps)
  case (Cons d ds)
  then obtain y where y: "snapshot_apply (view_after v ps) d = Inr y" "apply_all snapshot_apply y ds = Inr x"
    by (auto simp: res_bind_Inr_conv)
  from Cons.IH [of "ps @ [PDelta d]"] y show ?case by (simp add: take_snap_def)
qed simp

lemma push_send_fields:
  "push_send p s = Some s' \<Longrightarrow> cs_pushed s' = cs_pushed s @ [p] \<and> cs_synced s' = cs_synced s"
  by (auto simp: push_send_def split: if_splits)

lemma overflow_fields [simp]: "cs_pushed (overflow s) = cs_pushed s" "cs_synced (overflow s) = False"
  by (simp_all add: overflow_def conn_close_def)

lemma push_deltas_inv:
  "start_ok (vw_snap v0) h \<Longrightarrow> list_all (push_of h) (cs_pushed s) \<Longrightarrow> set ds \<subseteq> set (consecutive diff h)
    \<Longrightarrow> view_after v0 (cs_pushed s @ map PDelta ds) = last h \<Longrightarrow> sess_inv v0 h (push_deltas ds s)"
proof (induction ds arbitrary: s)
  case (Cons d ds)
  show ?case
  proof (cases "push_send (PDelta d) s")
    case None
    with Cons.prems show ?thesis by (simp add: sess_inv_def)
  next
    case (Some s')
    with Cons.prems push_send_fields [OF Some] have "sess_inv v0 h (push_deltas ds s')"
      by (intro Cons.IH) (simp_all add: push_of_def)
    with Some show ?thesis by simp
  qed
qed (simp add: sess_inv_def)

lemma session_catch_up_inv:
  assumes "dir_inv enc d h" and "sess_inv v0 h s" and "past_gen v0 h (cs_pushed s) g"
  shows "sess_inv v0 h (session_catch_up d g s)"
proof -
  have h: "hist_ok h" "last h = dr_published d" using dir_inv_hist [OF assms(1)] by simp_all
  have s: "start_ok (vw_snap v0) h" "list_all (push_of h) (cs_pushed s)" using assms(2) by (simp_all add: sess_inv_def)
  show ?thesis
  proof (cases "deltas_since d g")
    case None
    have "sn_gen (view_after v0 (cs_pushed s)) \<le> sn_gen (last h)"
      using view_after_known(1) [OF h(1) s] hist_gen_last [OF h(1)] s(1) by (auto simp: start_ok_def)
    moreover have "last h \<in> set h" "canonical (last h)" using h(1) by (simp_all add: hist_ok_def)
    ultimately have "take_snap (view_after v0 (cs_pushed s)) (PSnapshot (last h)) = last h"
        "push_of h (PSnapshot (last h))"
      by (simp_all add: take_snap_def push_of_def not_less)
    with None s h(2) push_send_fields [of "PSnapshot (dr_published d)" s] show ?thesis
      by (cases "push_send (PSnapshot (dr_published d)) s") (simp_all add: session_catch_up_def sess_inv_def)
  next
    case (Some ds)
    with deltas_since_unknown [OF assms(1), of g] have "g \<in> sn_gen ` set h" by (cases "g \<in> sn_gen ` set h") simp_all
    then obtain k where k: "k < length h" "sn_gen (h ! k) = g" by (auto simp: in_set_conv_nth)
    with Some deltas_since_known [OF assms(1) k(1)] have ds: "ds = consecutive diff (drop k h)"
      by (simp split: if_splits)
    have "view_after v0 (cs_pushed s) \<in> set (drop k h)" using assms(3) k by (simp add: past_gen_def)
    moreover have "sorted_wrt (<) (map sn_gen (drop k h))" "\<forall>x \<in> set (drop k h). canonical x"
      using h(1) by (auto simp: hist_ok_def sorted_wrt_drop dest: in_set_dropD simp flip: drop_map)
    ultimately have "apply_all snapshot_apply (view_after v0 (cs_pushed s)) ds = Inr (last (drop k h))"
      unfolding ds by (intro snap.catch_up)
    then have "view_after v0 (cs_pushed s @ map PDelta ds) = last h"
      using k(1) by (simp add: view_after_deltas)
    moreover have "set ds \<subseteq> set (consecutive diff h)"
      unfolding ds consecutive_drop [OF k(1)] by (rule set_drop_subset)
    ultimately have "sess_inv v0 h (push_deltas ds s)" using s by (intro push_deltas_inv)
    with Some show ?thesis by (simp add: session_catch_up_def)
  qed
qed

lemma session_broadcast_inv:
  assumes "dir_inv enc d (h @ [x])" and "h \<noteq> []" and "sess_inv v0 h s"
  shows "sess_inv v0 (h @ [x]) (session_broadcast (diff (last h) x) s)"
proof -
  have ok: "hist_ok (h @ [x])" using dir_inv_hist [OF assms(1)] by (rule conjunct1)
  have lt: "sn_gen (last h) < sn_gen x" and mem: "last h \<in> set (h @ [x])" "x \<in> set (h @ [x])"
    using ok assms(2) by (auto simp: hist_ok_def sorted_wrt_append)
  have start: "start_ok (vw_snap v0) (h @ [x])" using assms(3) lt start_ok_snoc by (simp add: sess_inv_def)
  have all: "list_all (push_of (h @ [x])) (cs_pushed s)"
    using assms(2,3) push_of_snoc by (auto simp: sess_inv_def list_all_iff)
  have new: "push_of (h @ [x]) (PDelta (diff (last h) x))"
    using assms(2) by (simp add: push_of_def consecutive_snoc)
  have "take_snap (last h) (PDelta (diff (last h) x)) = x" using take_delta [OF ok mem lt, of "last h"] by simp
  with start all new assms(3) push_send_fields [of "PDelta (diff (last h) x)" s] show ?thesis
    by (cases "push_send (PDelta (diff (last h) x)) s") (auto simp: session_broadcast_def sess_inv_def)
qed

section \<open>The network\<close>

definition sync_inv :: "('sk, 'vk) world \<Rightarrow> (node_id \<Rightarrow> view) \<Rightarrow> snapshot list \<Rightarrow> net_state \<Rightarrow> bool" where
  "sync_inv W st h ns \<longleftrightarrow> dir_inv (w_enc W) (ns_directory ns) h
     \<and> (\<forall>n s. map_of (ns_sessions ns) n = Some s \<longrightarrow> sess_inv (st n) h s)"

lemma sync_inv_dir: "sync_inv W st h ns \<Longrightarrow> dir_inv (w_enc W) (ns_directory ns) h"
  by (simp add: sync_inv_def)

lemma sync_inv_session: "sync_inv W st h ns \<Longrightarrow> map_of (ns_sessions ns) n = Some s \<Longrightarrow> sess_inv (st n) h s"
  by (simp add: sync_inv_def)

text \<open>Sessions may be dropped, and what the invariant does not mention may change.\<close>

definition same_core :: "directory \<Rightarrow> directory \<Rightarrow> bool" where
  "same_core d d' \<longleftrightarrow> dr_gen d' = dr_gen d \<and> dr_published d' = dr_published d
     \<and> dr_published_digest d' = dr_published_digest d \<and> dr_ring d' = dr_ring d"

definition quiet :: "net_state \<Rightarrow> net_state \<Rightarrow> bool" where
  "quiet ns ns' \<longleftrightarrow> same_core (ns_directory ns) (ns_directory ns')
     \<and> (\<forall>n s'. map_of (ns_sessions ns') n = Some s' \<longrightarrow>
          (\<exists>s. map_of (ns_sessions ns) n = Some s \<and> cs_pushed s' = cs_pushed s \<and> cs_synced s' = cs_synced s))"

lemma same_core_refl [simp]: "same_core d d"
  by (simp add: same_core_def)

lemma quiet_refl [simp]: "quiet ns ns"
  by (simp add: quiet_def)

lemma quiet_trans: "quiet a b \<Longrightarrow> quiet b c \<Longrightarrow> quiet a c"
  unfolding quiet_def same_core_def by metis

lemma quiet_same: "ns_sessions ns' = ns_sessions ns \<Longrightarrow> same_core (ns_directory ns) (ns_directory ns') \<Longrightarrow> quiet ns ns'"
  by (simp add: quiet_def)

lemma quiet_inv: "quiet ns ns' \<Longrightarrow> sync_inv W st h ns \<Longrightarrow> sync_inv W st h ns'"
  unfolding quiet_def sync_inv_def sess_inv_def same_core_def by (metis dir_inv_other)

lemma quiet_gen: "quiet ns ns' \<Longrightarrow> gen_room ns' = gen_room ns"
  by (simp add: quiet_def gen_room_def same_core_def)

lemma quiet_upd_session:
  "(\<And>s. cs_pushed (f s) = cs_pushed s \<and> cs_synced (f s) = cs_synced s) \<Longrightarrow> quiet ns (upd_session node f ns)"
  by (simp add: quiet_def upd_session_def update_conv' split: option.split)

lemma quiet_close: "quiet ns (close_session_with node code reason ns)"
  by (simp add: quiet_def close_session_with_def delete_conv' split: option.split)

lemma quiet_fold:
  "(\<And>x ns. quiet ns (f x ns)) \<Longrightarrow> quiet ns (fold f xs ns)"
proof (induction xs arbitrary: ns)
  case (Cons x xs)
  then show ?case using quiet_trans [of ns "f x ns"] by simp
qed simp

lemma quiet_commit: "quiet ns (snd (commit ns))"
  by (rule quiet_same) (auto simp: commit_def save_registry_def split: prod.split option.split if_splits)

text \<open>What a session was sent is never taken back.\<close>

definition extends :: "net_state \<Rightarrow> net_state \<Rightarrow> bool" where
  "extends ns ns' \<longleftrightarrow> (\<forall>n s'. map_of (ns_sessions ns') n = Some s' \<longrightarrow>
     (\<exists>s ps. map_of (ns_sessions ns) n = Some s \<and> cs_pushed s' = cs_pushed s @ ps))"

lemma quiet_extends: "quiet ns ns' \<Longrightarrow> extends ns ns'"
  unfolding quiet_def extends_def by (metis append_Nil2)

lemma extends_trans: "extends a b \<Longrightarrow> extends b c \<Longrightarrow> extends a c"
  unfolding extends_def by (metis append.assoc)

lemma extends_reported:
  assumes "extends ns ns'" and "reported st ns node g"
  shows "reported st ns' node g"
  unfolding reported_def
proof (intro allI impI)
  fix s' assume s': "map_of (ns_sessions ns') node = Some s'"
  with assms(1) obtain s ps where s: "map_of (ns_sessions ns) node = Some s" "cs_pushed s' = cs_pushed s @ ps"
    unfolding extends_def by blast
  with assms(2) obtain n where n: "g = sn_gen (view_after (st node) (take n (cs_pushed s)))"
    unfolding reported_def by blast
  have "take (min n (length (cs_pushed s))) (cs_pushed s') = take n (cs_pushed s)"
    using s(2) by (simp add: min_def)
  with n show "\<exists>n. g = sn_gen (view_after (st node) (take n (cs_pushed s')))" by metis
qed

section \<open>Publishing\<close>

lemma recompute_inv:
  assumes "dir_inv enc d h" and "dr_gen d \<noteq> - 1" and "recompute I enc cfg reg l keys now now_ms d = (r, d')"
  shows "dir_inv enc d' (if r = None then h else h @ [dr_published d'])"
    and "r = Some dl \<Longrightarrow> dl = diff (last h) (dr_published d')"
proof -
  let ?d = "dir_resolve_owners I reg l now d"
  have inv: "dir_inv enc ?d h" by (rule dir_inv_other [OF assms(1)]) simp_all
  have run: "publish_view enc (view_of I cfg reg l keys ?d) now_ms ?d = (r, d')"
    using assms(3) by (simp add: recompute_def Let_def)
  show "dir_inv enc d' (if r = None then h else h @ [dr_published d'])"
    using dir_inv_publish [OF inv _ canonical_view_of run] assms(2) by simp
  have last: "last h = dr_published ?d" using inv by (simp add: dir_inv_def)
  show "dl = diff (last h) (dr_published d')" if "r = Some dl"
    using run that last by (cases rule: publish_view_cases) simp_all
qed

lemma session_broadcast_extends: "\<exists>ps. cs_pushed (session_broadcast d s) = cs_pushed s @ ps"
  using push_send_fields [of "PDelta d" s] by (auto simp: session_broadcast_def split: option.split)

lemma publish_extends: "extends ns (publish W keys ck ns)"
proof (cases rule: publish_cases [of W ns keys ck])
  case (same d)
  then show ?thesis by (simp add: extends_def)
next
  case (moved d dl)
  then show ?thesis
    using session_broadcast_extends by (auto simp: extends_def map_of_map_snd)
qed

lemma publish_inv:
  assumes "sync_inv W st h ns" and "gen_room ns"
  shows "sync_inv W st (hist h (publish W keys ck ns)) (publish W keys ck ns)"
proof (cases rule: publish_cases [of W ns keys ck])
  case (same d)
  from recompute_inv(1) [OF sync_inv_dir [OF assms(1)] _ same(1)] assms(2) have d: "dir_inv (w_enc W) d h"
    by (simp add: gen_room_def)
  then have "last h = dr_published d" by (simp add: dir_inv_def)
  with d same assms(1) show ?thesis by (simp add: hist_def sync_inv_def)
next
  case (moved d dl)
  note inv = recompute_inv [OF sync_inv_dir [OF assms(1)] _ moved(1)]
  have d: "dir_inv (w_enc W) d (h @ [dr_published d])" and dl: "dl = diff (last h) (dr_published d)"
    using inv assms(2) by (simp_all add: gen_room_def)
  have ne: "h \<noteq> []" using sync_inv_dir [OF assms(1)] by (simp add: dir_inv_def)
  then have "sn_gen (last h) < sn_gen (dr_published d)"
    using d by (auto simp: dir_inv_def sorted_wrt_append)
  then have "hist h (publish W keys ck ns) = h @ [dr_published d]"
    unfolding hist_def moved(2) by auto
  with d dl moved(2,3) session_broadcast_inv [OF d ne] sync_inv_session [OF assms(1)] show ?thesis
    by (auto simp: sync_inv_def map_of_map_snd)
qed

section \<open>The operations\<close>

lemma hist_settled: "sync_inv W st h ns \<Longrightarrow> hist h ns = h"
  by (simp add: hist_def sync_inv_def dir_inv_def)

lemma quiet_hist: "quiet ns ns' \<Longrightarrow> sync_inv W st h ns \<Longrightarrow> sync_inv W st (hist h ns') ns'"
  using quiet_inv hist_settled by metis

lemma quiet_publish:
  assumes "quiet ns ns'" and "sync_inv W st h ns" and "gen_room ns"
  shows "sync_inv W st (hist h (publish W keys ck ns')) (publish W keys ck ns')"
  using publish_inv [OF quiet_inv [OF assms(1,2)]] quiet_gen [OF assms(1)] assms(3) by simp

lemma publish_soon_inv:
  assumes "sync_inv W st h ns" and "gen_room ns"
  shows "sync_inv W st (hist h (snd (publish_soon W keys ck ns))) (snd (publish_soon W keys ck ns))
    \<and> extends ns (snd (publish_soon W keys ck ns))"
proof -
  let ?f = "ns\<lparr>ns_flush_scheduled := True\<rparr>"
  have q: "quiet ns ?f" by (rule quiet_same) simp_all
  have eq: "snd (publish_soon W keys ck ns) =
      (if PUBLISH_DEBOUNCE_MS \<le> ck_ms ck - ns_last_publish_ms ns then publish W keys ck ns
       else if ns_flush_scheduled ns then ns else ?f)"
    by (simp add: publish_soon_def Let_def)
  show ?thesis
    unfolding eq
    using publish_inv [OF assms, of keys ck] publish_extends [of ns W keys ck] quiet_hist [OF quiet_refl assms(1)] quiet_extends [OF quiet_refl]
      quiet_hist [OF q assms(1)] quiet_extends [OF q] by (simp split: if_split)
qed

lemma catch_up_inv:
  assumes "sync_inv W st h ns"
    and "\<And>s. map_of (ns_sessions ns) node = Some s \<Longrightarrow> past_gen (st node) h (cs_pushed s) g"
  shows "sync_inv W st h (catch_up node g ns)"
proof (cases "map_of (ns_sessions ns) node")
  case None
  with assms(1) show ?thesis by (simp add: catch_up_def upd_session_def)
next
  case (Some s)
  have "sess_inv (st node) h (session_catch_up (ns_directory ns) g s)"
    by (rule session_catch_up_inv [OF sync_inv_dir [OF assms(1)] sync_inv_session [OF assms(1) Some] assms(2) [OF Some]])
  with assms(1) Some show ?thesis
    by (simp add: catch_up_def upd_session_def sync_inv_def update_conv')
qed

lemma reported_past:
  assumes "sync_inv W st h ns" and "reported st ns node g" and "map_of (ns_sessions ns) node = Some s"
  shows "past_gen (st node) h (cs_pushed s) g"
    and "g = dr_gen (ns_directory ns) \<Longrightarrow> view_after (st node) (cs_pushed s) = last h"
proof -
  from assms(2,3) obtain n where n: "g = sn_gen (view_after (st node) (take n (cs_pushed s)))"
    unfolding reported_def by blast
  have ok: "hist_ok h" "sn_gen (last h) = dr_gen (ns_directory ns)"
    using dir_inv_hist [OF sync_inv_dir [OF assms(1)]] by auto
  have s: "start_ok (vw_snap (st node)) h" "list_all (push_of h) (cs_pushed s)"
    using sync_inv_session [OF assms(1,3)] by (simp_all add: sess_inv_def)
  show "past_gen (st node) h (cs_pushed s) g" using past_gen_reported [OF ok(1) s n] .
  show "view_after (st node) (cs_pushed s) = last h" if "g = dr_gen (ns_directory ns)"
    using view_current [OF ok(1) s, of n] n ok(2) that by simp
qed

lemma catch_up_dir [simp]: "ns_directory (catch_up node g ns) = ns_directory ns"
  by (simp add: catch_up_def upd_session_def split: option.split)

lemma hist_catch_up [simp]: "hist h (catch_up node g ns) = hist h ns"
  by (simp add: hist_def)

lemma resync_inv:
  assumes "sync_inv W st h ns" and "reported st ns node g"
  shows "sync_inv W st h (snd (on_resync ck node g ns))"
  using assms catch_up_inv [OF assms(1) reported_past(1) [OF assms]] by (simp add: on_resync_def)

lemma heartbeat_traffic_fields:
  "ns_sessions (heartbeat_traffic node r now t ns) = ns_sessions ns"
  "same_core (ns_directory ns) (ns_directory (heartbeat_traffic node r now t ns))"
  by (auto simp: heartbeat_traffic_def same_core_def dir_record_traffic_def dir_prune_traffic_def Let_def split: option.split prod.split)

lemma quiet_heartbeat_mtu: "quiet ns (snd (heartbeat_mtu node usable ns))"
  by (rule quiet_same) (simp_all add: heartbeat_mtu_def Let_def same_core_def)

lemma quiet_heartbeat_traffic: "quiet ns (heartbeat_traffic node r now t ns)"
  by (rule quiet_same) (simp_all add: heartbeat_traffic_fields)

lemma heartbeat_facts_inv:
  assumes "sync_inv W st h ns" and "gen_room ns"
  shows "sync_inv W st (hist h (heartbeat_facts W keys ck node r hb ns)) (heartbeat_facts W keys ck node r hb ns)
    \<and> extends ns (heartbeat_facts W keys ck node r hb ns)"
proof -
  obtain changed l where l: "leases_heartbeat node r hb (ck_ms ck)
      (\<lambda>n. case map_of (rg_members (ns_registry ns)) n of Some m \<Rightarrow> mr_role m = Client | None \<Rightarrow> False)
      (length (rg_members (ns_registry ns))) (ns_leases ns) = (changed, l)"
    by (rule prod.exhaust)
  obtain mc ns2 where m: "heartbeat_mtu node (hb_usable_mtu hb) (ns\<lparr>ns_leases := l\<rparr>) = (mc, ns2)"
    by (rule prod.exhaust)
  let ?ns3 = "heartbeat_traffic node r (ck_unix ck) (hb_traffic hb) ns2"
  have q1: "quiet ns (ns\<lparr>ns_leases := l\<rparr>)" by (rule quiet_same) simp_all
  have q2: "quiet (ns\<lparr>ns_leases := l\<rparr>) ns2" using quiet_heartbeat_mtu m by (metis snd_conv)
  have q: "quiet ns ?ns3" using quiet_trans [OF quiet_trans [OF q1 q2] quiet_heartbeat_traffic] .
  have inv: "sync_inv W st h ?ns3" "gen_room ?ns3" using quiet_inv [OF q assms(1)] quiet_gen [OF q] assms(2) by simp_all
  have eq: "heartbeat_facts W keys ck node r hb ns = (if changed \<or> mc then snd (publish_soon W keys ck ?ns3) else ?ns3)"
    by (simp add: heartbeat_facts_def l m Let_def)
  show ?thesis
    using publish_soon_inv [OF inv] extends_trans [OF quiet_extends [OF q]] quiet_hist [OF q assms(1)] quiet_extends [OF q]
    unfolding eq by auto
qed

lemma heartbeat_inv:
  assumes "sync_inv W st h ns" and "gen_room ns" and "reported st ns node (hb_gen hb)"
    and "ns' = snd (on_heartbeat W keys ck node r hb ns)"
  shows "sync_inv W st (hist h ns') ns'"
proof (cases "ns_deleted ns")
  case True
  with assms show ?thesis using quiet_hist [OF quiet_refl assms(1)] by (simp add: on_heartbeat_def)
next
  case False
  let ?n = "heartbeat_facts W keys ck node r hb ns"
  have inv: "sync_inv W st (hist h ?n) ?n" and rep: "reported st ?n node (hb_gen hb)"
    using heartbeat_facts_inv [OF assms(1,2)] extends_reported [OF _ assms(3)] by blast+
  have ok: "hist_ok (hist h ?n)" using dir_inv_hist [OF sync_inv_dir [OF inv]] by simp
  have a: "sync_inv W st (hist h ?n) (catch_up node (hb_gen hb) ?n)"
    by (rule catch_up_inv [OF inv reported_past(1) [OF inv rep]])
  have b: "sync_inv W st (hist h ?n) (catch_up node 0 ?n)" if "hb_gen hb = dr_gen (ns_directory ?n)"
    by (rule catch_up_inv [OF inv past_gen_current [OF ok reported_past(2) [OF inv rep _ that]]])
  show ?thesis
    unfolding assms(4) on_heartbeat_def using False a b inv by (simp add: Let_def)
qed

lemma register_inv:
  assumes "sync_inv W st h ns" and "gen_room ns" and "start_ok (vw_snap v) h"
    and "ns' = snd (register_session W keys ck i cl (view_gen v) remote ns)" and "\<not> ns_deleted ns"
  shows "sync_inv W (st(cl_node_id cl := v)) (hist h ns') ns'"
proof -
  let ?node = "cl_node_id cl"
  let ?st = "st(?node := v)"
  let ?a = "ns\<lparr>ns_sessions := hm_insert ?node (new_session i cl remote) (ns_sessions ns),
      ns_leases := snd (leases_seen ?node (ck_ms ck) (ns_leases ns))\<rparr>"
  let ?b = "publish W keys ck ?a"
  let ?c = "if in_grace ?b (ck_unix ck) then ?b else catch_up ?node (view_gen v) ?b"
  have a: "sync_inv W ?st h ?a" "gen_room ?a" "reported ?st ?a ?node (view_gen v)"
    using assms(1-3) by (simp_all add: sync_inv_def update_conv' sess_inv_def new_session_def gen_room_def
        reported_def view_gen_def)
  have b: "sync_inv W ?st (hist h ?b) ?b" "reported ?st ?b ?node (view_gen v)"
    using publish_inv [OF a(1,2)] extends_reported [OF publish_extends a(3)] by blast+
  have "sync_inv W ?st (hist h ?b) (catch_up ?node (view_gen v) ?b)"
    by (rule catch_up_inv [OF b(1) reported_past(1) [OF b]])
  with b(1) have c: "sync_inv W ?st (hist h ?c) ?c" by simp
  have "quiet ?c ns'"
    unfolding assms(4) register_session_def Let_def using assms(5)
    by (intro quiet_same) (simp_all split: option.split)
  then have "hist h ns' = hist h ?c" by (simp add: quiet_def same_core_def hist_def)
  with quiet_inv [OF \<open>quiet ?c ns'\<close> c] show ?thesis by simp
qed

lemma publish_keeps_unsynced:
  "map_of (ns_sessions ns) node = Some s \<Longrightarrow> \<not> cs_synced s \<Longrightarrow> map_of (ns_sessions (publish W keys ck ns)) node = Some s"
  by (rule publish_cases [of W ns keys ck]) (simp_all add: map_of_map_snd session_broadcast_def)

lemma hist_unknown:
  assumes "hist_ok (hist h ns)" and "h \<noteq> []" and "g \<notin> sn_gen ` set h" and "g < sn_gen (last h)"
  shows "g \<notin> sn_gen ` set (hist h ns)"
proof -
  have "sn_gen (last h) \<le> sn_gen (last (hist h ns))"
    using last_in_set [OF assms(2)] by (intro hist_gen_last [OF assms(1)]) (metis hist_def Un_iff set_append)
  with assms(3,4) show ?thesis by (auto simp: hist_def split: if_splits)
qed

text \<open>A member that comes with a view this coordinator does not know is sent the whole view at once.\<close>

lemma register_unknown:
  assumes "sync_inv W st h ns" and "gen_room ns" and "\<not> ns_deleted ns" and "\<not> in_grace ns (ck_unix ck)"
    and "sn_gen (vw_snap v) \<notin> sn_gen ` set h" and "sn_gen (vw_snap v) < sn_gen (last h)"
    and "ns' = snd (register_session W keys ck i cl (view_gen v) remote ns)"
  shows "\<exists>s. map_of (ns_sessions ns') (cl_node_id cl) = Some s \<and> cs_synced s
    \<and> cs_pushed s = [PSnapshot (dr_published (ns_directory ns'))]"
proof -
  let ?node = "cl_node_id cl"
  let ?a = "ns\<lparr>ns_sessions := hm_insert ?node (new_session i cl remote) (ns_sessions ns),
      ns_leases := snd (leases_seen ?node (ck_ms ck) (ns_leases ns))\<rparr>"
  let ?b = "publish W keys ck ?a"
  have start: "start_ok (vw_snap v) h" using assms(5,6) by (simp add: start_ok_def)
  have a: "sync_inv W (st(?node := v)) h ?a" "gen_room ?a"
    using assms(1,2) start by (simp_all add: sync_inv_def update_conv' sess_inv_def new_session_def gen_room_def)
  have b: "sync_inv W (st(?node := v)) (hist h ?b) ?b" by (rule publish_inv [OF a])
  have "h \<noteq> []" using sync_inv_dir [OF assms(1)] by (simp add: dir_inv_def)
  then have "view_gen v \<notin> sn_gen ` set (hist h ?b)"
    using hist_unknown [OF conjunct1 [OF dir_inv_hist [OF sync_inv_dir [OF b]]]] assms(5,6) by (simp add: view_gen_def)
  then have none: "deltas_since (ns_directory ?b) (view_gen v) = None"
    by (rule deltas_since_unknown [OF sync_inv_dir [OF b]])
  have at: "map_of (ns_sessions ?b) ?node = Some (new_session i cl remote)"
    by (rule publish_keeps_unsynced) (simp_all add: update_conv' new_session_def)
  have "in_grace ?b (ck_unix ck) = False" using assms(4) by (simp add: in_grace_def)
  with at none show ?thesis
    unfolding assms(7) register_session_def Let_def using assms(3)
    by (simp add: catch_up_def upd_session_def update_conv' session_catch_up_def push_send_def new_session_def
        PUSH_QUEUE_def split: option.split)
qed

lemma exit_readiness_inv:
  assumes "sync_inv W st h ns" and "gen_room ns" and "ns' = snd (on_exit_readiness W keys ck node r er ns)"
  shows "sync_inv W st (hist h ns') ns'"
proof -
  let ?d = "ns_directory ns"
  let ?a = "ns\<lparr>ns_directory := ?d\<lparr>dr_exit_readiness := hm_insert node er (dr_exit_readiness ?d)\<rparr>\<rparr>"
  have q: "quiet ns ?a" by (rule quiet_same) (simp_all add: same_core_def)
  have a: "sync_inv W st h ?a" "gen_room ?a" using quiet_inv [OF q assms(1)] quiet_gen [OF q] assms(2) by simp_all
  show ?thesis
    using assms(3) publish_soon_inv [OF a] quiet_hist [OF q assms(1)] quiet_hist [OF quiet_refl assms(1)]
    by (simp add: on_exit_readiness_def Let_def split: if_splits)
qed

lemma quiet_refresh: "quiet ns (snd (on_refresh ck network_id node r fp verdict ns))"
proof (cases verdict)
  case (Inr v)
  obtain cl net_id where v: "v = (cl, net_id)" by (cases v)
  let ?a = "upd_session node (\<lambda>s. s\<lparr>cs_exp := cl_exp cl, cs_login_gen := cl_login_gen cl\<rparr>) ns"
  have "quiet ns ?a" by (rule quiet_upd_session) simp
  moreover have "quiet ?a (?a\<lparr>ns_leases := l\<rparr>)" for l by (rule quiet_same) simp_all
  ultimately show ?thesis using quiet_trans by (simp add: on_refresh_def Inr v Let_def)
qed (simp add: on_refresh_def)

lemma teardown_inv:
  assumes "sync_inv W st h ns" and "gen_room ns" and "ns' = teardown W keys ck node i ns"
  shows "sync_inv W st (hist h ns') ns'"
proof -
  let ?d = "ns_directory ns"
  let ?a = "ns\<lparr>ns_sessions := hm_remove node (ns_sessions ns), ns_leases := leases_offline node (ns_leases ns),
     ns_directory := ?d\<lparr>dr_reported_mtu := hm_remove node (dr_reported_mtu ?d),
       dr_exit_readiness := hm_remove node (dr_exit_readiness ?d)\<rparr>\<rparr>"
  have "quiet ns ?a" by (simp add: quiet_def delete_conv' same_core_def)
  with quiet_publish [OF _ assms(1,2)] quiet_hist [OF quiet_refl assms(1)] assms(3) show ?thesis
    by (simp add: teardown_def Let_def)
qed

lemma quiet_sweep_gone: "quiet ns (sweep_gone node ns)"
proof -
  let ?d = "ns_directory ns"
  have "quiet ns (ns\<lparr>ns_directory := ?d\<lparr>dr_reported_mtu := hm_remove node (dr_reported_mtu ?d)\<rparr>\<rparr>)"
    by (rule quiet_same) (simp_all add: same_core_def)
  then show ?thesis unfolding sweep_gone_def Let_def by (rule quiet_trans [OF _ quiet_close])
qed

lemma sweep_inv:
  assumes "sync_inv W st h ns" and "gen_room ns" and "ns' = liveness_sweep W keys ck ns"
  shows "sync_inv W st (hist h ns') ns'"
proof -
  obtain gone l where e: "leases_expire (ck_ms ck) (liveness_window_secs (nc_settings (ns_cfg ns)) * 1000) (ns_leases ns)
      = (gone, l)" by (rule prod.exhaust)
  let ?a = "ns\<lparr>ns_directory := dir_prune_traffic (ck_unix ck) (ns_directory ns), ns_leases := l\<rparr>"
  let ?b = "fold sweep_gone gone ?a"
  let ?c = "fold (\<lambda>node. close_session_with node CLOSE_EXPIRED ''credential expired'') (sweep_expired (ck_unix ck) ?b) ?b"
  have "quiet ns ?a" by (rule quiet_same) (simp_all add: same_core_def dir_prune_traffic_def)
  then have "quiet ns ?b" by (rule quiet_trans) (rule quiet_fold [OF quiet_sweep_gone])
  then have "quiet ns ?c" by (rule quiet_trans) (rule quiet_fold [OF quiet_close])
  from quiet_publish [OF this assms(1,2)] assms(3) e show ?thesis by (simp add: liveness_sweep_def Let_def)
qed

lemma flush_inv:
  assumes "sync_inv W st h ns" and "gen_room ns" and "ns' = flush_due W keys ck ns"
  shows "sync_inv W st (hist h ns') ns'"
proof -
  have "quiet ns (ns\<lparr>ns_flush_scheduled := False\<rparr>)" by (rule quiet_same) simp_all
  from quiet_publish [OF this assms(1,2)] assms(3) show ?thesis by (simp add: flush_due_def)
qed

lemma join_finish_inv:
  assumes "sync_inv W st h ns" and "gen_room ns" and "quiet ns a"
    and "ns' = snd (join_finish W ks port ck name r m req g routes relay_addr replaced rec a)"
  shows "sync_inv W st (hist h ns') ns'"
proof -
  obtain e b where c: "commit a = (e, b)" by (rule prod.exhaust)
  have q: "quiet ns b" using quiet_trans [OF assms(3) quiet_commit] c by (metis snd_conv)
  show ?thesis
  proof (cases e)
    case (Inl x)
    with c assms(4) quiet_hist [OF q assms(1)] show ?thesis by (simp add: join_finish_def)
  next
    case (Inr u)
    let ?stale = "case map_of (ns_sessions b) (mr_node_id rec) of
        Some s \<Rightarrow> cs_login_gen s < mr_login_gen rec | None \<Rightarrow> False"
    let ?d = "if replaced \<and> ?stale
      then close_session_with (mr_node_id rec) CLOSE_REPLACED
      (''replaced by a newer join as '' @ name @ '' from '' @ unwrap_or [] (mr_last_join_from rec)) b else b"
    have "quiet ns ?d" using q quiet_trans [OF q quiet_close] by simp
    from quiet_publish [OF this assms(1,2)]
    have "sync_inv W st (hist h (publish W (key_infos W ks) ck ?d)) (publish W (key_infos W ks) ck ?d)" .
    moreover have "ns' = publish W (key_infos W ks) ck ?d"
      unfolding assms(4) join_finish_def c Inr by (simp add: Let_def split: option.split)
    ultimately show ?thesis by simp
  qed
qed

lemma join_member_inv:
  assumes "sync_inv W st h ns" and "gen_room ns" and "ns' = snd (join_member W ks port ck name r m req peer_ip ns)"
  shows "sync_inv W st (hist h ns') ns'"
proof -
  have id: "sync_inv W st (hist h ns) ns" using quiet_hist [OF quiet_refl assms(1)] .
  have reg: "quiet ns (ns\<lparr>ns_registry := reg\<rparr>)" for reg by (rule quiet_same) simp_all
  note fin = join_finish_inv [OF assms(1,2) reg refl]
  show ?thesis
  proof (cases "join_relay_addr W (ns_cfg ns) name m r peer_ip")
    case Inl
    with id show ?thesis by (simp add: assms(3) join_member_def)
  next
    case addr: (Inr a)
    show ?thesis
    proof (cases "join_addresses W ns name m (ck_unix ck)")
      case Inl
      with id addr show ?thesis by (simp add: assms(3) join_member_def)
    next
      case (Inr b)
      obtain g reg where "b = (g, reg)" by (rule prod.exhaust)
      with id addr Inr show ?thesis using fin by (simp add: assms(3) join_member_def Let_def)
    qed
  qed
qed

lemma join_inv:
  assumes "sync_inv W st h ns" and "gen_room ns" and "ns' = snd (join_locked W ks port ck name req peer_ip ns)"
  shows "sync_inv W st (hist h ns') ns'"
proof -
  have id: "sync_inv W st (hist h ns) ns" using quiet_hist [OF quiet_refl assms(1)] .
  show ?thesis
  proof (cases "member_now (ns_cfg ns) name (str_trim (jq_secret req))")
    case None
    with id show ?thesis by (simp add: assms(3) join_locked_def)
  next
    case (Some b)
    obtain m r where "b = (m, r)" by (rule prod.exhaust)
    with id Some join_member_inv [OF assms(1,2) refl] show ?thesis by (simp add: assms(3) join_locked_def)
  qed
qed

lemma sync_run_inv: "sync_run W st h ns \<Longrightarrow> sync_inv W st h ns"
proof (induction rule: sync_run.induct)
  case (start ns cfg reg db ck st)
  then show ?case
    using dir_inv_new by (simp add: sync_inv_def net_state_new_def directory_new_def Let_def)
next
  case register
  show ?case by (rule register_inv [OF register.IH register.hyps(2,4,5,3)])
next
  case heartbeat
  show ?case by (rule heartbeat_inv [OF heartbeat.IH heartbeat.hyps(2-4)])
next
  case resync
  show ?case unfolding resync.hyps(3) by (rule resync_inv [OF resync.IH resync.hyps(2)])
next
  case exit_readiness
  show ?case by (rule exit_readiness_inv [OF exit_readiness.IH exit_readiness.hyps(2,3)])
next
  case refresh
  show ?case unfolding refresh.hyps(2) by (rule quiet_inv [OF quiet_refresh refresh.IH])
next
  case teardown
  show ?case by (rule teardown_inv [OF teardown.IH teardown.hyps(2,3)])
next
  case sweep
  show ?case by (rule sweep_inv [OF sweep.IH sweep.hyps(2,3)])
next
  case flush
  show ?case by (rule flush_inv [OF flush.IH flush.hyps(2,3)])
next
  case join
  show ?case by (rule join_inv [OF join.IH join.hyps(2,3)])
next
  case (close st h ns node code reason)
  show ?case by (rule quiet_inv [OF quiet_close close.IH])
next
  case (written st h ns node)
  have "quiet ns (upd_session node writer_turn ns)" by (rule quiet_upd_session) (simp add: writer_turn_def)
  then show ?case using written.IH by (rule quiet_inv)
next
  case (edit st h ns ns')
  then have "quiet ns ns'" by (intro quiet_same) (simp_all add: same_core_def)
  then show ?case using edit.IH by (rule quiet_inv)
qed

section \<open>The push queue\<close>

lemma push_deltas_fits:
  "cs_writer s \<Longrightarrow> cs_queued s + length ds \<le> PUSH_QUEUE \<Longrightarrow>
     push_deltas ds s = s\<lparr>cs_pushed := cs_pushed s @ map PDelta ds, cs_queued := cs_queued s + length ds, cs_synced := True\<rparr>"
proof (induction ds arbitrary: s)
  case (Cons d ds)
  let ?s = "s\<lparr>cs_pushed := cs_pushed s @ [PDelta d], cs_queued := cs_queued s + 1\<rparr>"
  have "push_send (PDelta d) s = Some ?s" using Cons.prems by (simp add: push_send_def)
  with Cons.IH [of ?s] Cons.prems show ?case by simp
qed simp

lemma push_deltas_overflows:
  "cs_writer s \<Longrightarrow> cs_close s = None \<Longrightarrow> PUSH_QUEUE < cs_queued s + length ds \<Longrightarrow> cs_queued s \<le> PUSH_QUEUE \<Longrightarrow>
     \<not> cs_synced (push_deltas ds s) \<and> cs_close (push_deltas ds s) = Some CLOSE_OVERFLOW"
proof (induction ds arbitrary: s)
  case (Cons d ds)
  show ?case
  proof (cases "cs_queued s < PUSH_QUEUE")
    case True
    let ?s = "s\<lparr>cs_pushed := cs_pushed s @ [PDelta d], cs_queued := cs_queued s + 1\<rparr>"
    have "push_send (PDelta d) s = Some ?s" using Cons.prems True by (simp add: push_send_def)
    with Cons.IH [of ?s] Cons.prems True show ?thesis by simp
  next
    case False
    with Cons.prems show ?thesis by (simp add: push_send_def overflow_def conn_close_def)
  qed
qed simp

text \<open>The sweep takes a silent member's session and MTU report, and leaves its readiness as an exit.\<close>

lemma quiet_exit_readiness:
  "dr_exit_readiness (ns_directory (publish W keys ck ns)) = dr_exit_readiness (ns_directory ns)"
  "dr_exit_readiness (ns_directory (close_session_with node code reason ns)) = dr_exit_readiness (ns_directory ns)"
  "dr_exit_readiness (ns_directory (sweep_gone node ns)) = dr_exit_readiness (ns_directory ns)"
proof -
  have r: "dr_exit_readiness (snd (recompute I enc cfg reg l ks now now_ms d)) = dr_exit_readiness d"
    for I enc cfg reg l ks now now_ms d
    by (cases "publish_view enc (view_of I cfg reg l ks (dir_resolve_owners I reg l now d)) now_ms
        (dir_resolve_owners I reg l now d)" rule: prod.exhaust)
      (auto simp: recompute_def Let_def elim!: publish_view_cases)
  show "dr_exit_readiness (ns_directory (publish W keys ck ns)) = dr_exit_readiness (ns_directory ns)"
    by (rule publish_cases [of W ns keys ck]; metis r snd_conv)
  show c: "dr_exit_readiness (ns_directory (close_session_with node code reason ns)) = dr_exit_readiness (ns_directory ns)"
    for ns code reason by (simp add: close_session_with_def split: option.split)
  show "dr_exit_readiness (ns_directory (sweep_gone node ns)) = dr_exit_readiness (ns_directory ns)"
    by (simp add: sweep_gone_def Let_def c)
qed

lemma sweep_keeps_exit_readiness:
  "dr_exit_readiness (ns_directory (liveness_sweep W keys ck ns)) = dr_exit_readiness (ns_directory ns)"
proof -
  have f: "dr_exit_readiness (ns_directory (fold g xs ns)) = dr_exit_readiness (ns_directory ns)"
    if "\<And>x ns. dr_exit_readiness (ns_directory (g x ns)) = dr_exit_readiness (ns_directory ns)"
    for g :: "node_id \<Rightarrow> net_state \<Rightarrow> net_state" and xs ns
    by (induction xs arbitrary: ns) (simp_all add: that)
  show ?thesis
    by (simp add: liveness_sweep_def Let_def quiet_exit_readiness f dir_prune_traffic_def split: prod.split)
qed

section \<open>An example\<close>

lemma example_net_gen: "ns_directory example_net = directory_new example_enc (max 50 GEN_PERSIST_STEP) (st_hold_down_secs (nc_settings example_client))"
  by (simp add: example_net_def net_state_new_def example_world_def initial_gen_def registry_new_def)

section \<open>Properties\<close>

text \<open>
  C2. In every reachable state of a network, the member behind a synced session that has read what its
  session was sent holds exactly the view the coordinator publishes, and computes the digest the
  coordinator compares with: whatever view it came with, however late its reports are, and whatever
  joins, heartbeats, sweeps, refreshes, evictions and operator edits happened in between.
\<close>

theorem synced_sessions_current:
  assumes "sync_run W st h ns" and "map_of (ns_sessions ns) node = Some s" and "cs_synced s"
  shows "view_after (st node) (cs_pushed s) = dr_published (ns_directory ns)
    \<and> view_digest (w_enc W) (foldl member_take (st node) (cs_pushed s)) = dr_published_digest (ns_directory ns)"
proof -
  note inv = sync_run_inv [OF assms(1)]
  have "view_after (st node) (cs_pushed s) = last h"
    using sync_inv_session [OF inv assms(2)] assms(3) by (simp add: sess_inv_def)
  with sync_inv_dir [OF inv] show ?thesis by (simp add: dir_inv_def view_digest_def view_after_def)
qed

text \<open>The second relay registers with an empty view, after the grace of a restart.\<close>

abbreviation example_registered :: net_state where
  "example_registered \<equiv> snd (register_session example_world [] \<lparr>ck_unix = 50, ck_ms = 500\<rparr> 1 example_claims
     (view_gen view_new) ''r'' example_net)"

lemma example_run:
  "sync_run example_world (\<lambda>_. view_new) [dr_published (ns_directory example_net)] example_net"
  "gen_room example_net" "\<not> ns_deleted example_net" "\<not> in_grace example_net 50"
  "sn_gen (vw_snap view_new) \<notin> sn_gen ` set [dr_published (ns_directory example_net)]"
  "sn_gen (vw_snap view_new) < sn_gen (last [dr_published (ns_directory example_net)])"
proof -
  show "sync_run example_world (\<lambda>_. view_new) [dr_published (ns_directory example_net)] example_net"
    by (rule sync_run.start [OF example_net_def])
qed (simp_all add: gen_room_def example_net_gen GEN_PERSIST_STEP_def directory_new_def Let_def view_new_def snapshot_default_def,
     simp_all add: example_net_def net_state_new_def in_grace_def example_client_def settings_default_def sat_add64_def)

lemma example_registered_run:
  "\<exists>h. sync_run example_world (\<lambda>_. view_new) h example_registered"
  "\<exists>s. map_of (ns_sessions example_registered) 1 = Some s \<and> cs_synced s
     \<and> cs_pushed s = [PSnapshot (dr_published (ns_directory example_registered))]"
proof -
  have "start_ok (vw_snap view_new) [dr_published (ns_directory example_net)]"
    using example_run(5,6) by (simp add: start_ok_def)
  from sync_run.register [OF example_run(1-3) this refl, of example_claims "[]" "\<lparr>ck_unix = 50, ck_ms = 500\<rparr>" 1 "''r''"]
  show "\<exists>h. sync_run example_world (\<lambda>_. view_new) h example_registered" by (metis fun_upd_triv)
  from register_unknown [OF sync_run_inv [OF example_run(1)] example_run(2,3) _ example_run(5,6) refl,
      of "\<lparr>ck_unix = 50, ck_ms = 500\<rparr>" "[]" 1 example_claims "''r''"] example_run(4)
  show "\<exists>s. map_of (ns_sessions example_registered) 1 = Some s \<and> cs_synced s
     \<and> cs_pushed s = [PSnapshot (dr_published (ns_directory example_registered))]"
    by (simp add: example_claims_def)
qed

theorem synced_sessions_current_witness:
  "\<exists>s. map_of (ns_sessions example_registered) 1 = Some s \<and> length (cs_pushed s) = 1
    \<and> view_after view_new (cs_pushed s) = dr_published (ns_directory example_registered)"
proof -
  obtain h where h: "sync_run example_world (\<lambda>_. view_new) h example_registered"
    using example_registered_run(1) by blast
  obtain s where s: "map_of (ns_sessions example_registered) 1 = Some s" "cs_synced s" "length (cs_pushed s) = 1"
    using example_registered_run(2) by auto
  from synced_sessions_current [OF h s(1,2)] s(1,3) show ?thesis by blast
qed

text \<open>
  Nothing a session is sent ever moves its member back: after any part of the pushes its view is
  one of the views published, or the one it came with, and generations only grow along the way.
\<close>

theorem pushed_views_published:
  assumes "sync_run W st h ns" and "map_of (ns_sessions ns) node = Some s"
  shows "view_after (st node) (take n (cs_pushed s)) \<in> insert (vw_snap (st node)) (set h)
    \<and> sn_gen (view_after (st node) (take n (cs_pushed s))) \<le> sn_gen (view_after (st node) (cs_pushed s))"
proof -
  note inv = sync_run_inv [OF assms(1)]
  have h: "hist_ok h" using dir_inv_hist [OF sync_inv_dir [OF inv]] by simp
  have s: "start_ok (vw_snap (st node)) h" "list_all (push_of h) (cs_pushed s)"
    using sync_inv_session [OF inv assms(2)] by (simp_all add: sess_inv_def)
  have "list_all (push_of h) (take n (cs_pushed s))" using s(2) by (auto simp: list_all_iff dest: in_set_takeD)
  with view_after_known [OF h s(1)] s(2) show ?thesis by blast
qed

theorem pushed_views_published_witness:
  "\<exists>h s. sync_run example_world (\<lambda>_. view_new) h example_registered
    \<and> map_of (ns_sessions example_registered) 1 = Some s
    \<and> view_after view_new (take 1 (cs_pushed s)) \<in> insert (vw_snap view_new) (set h)"
proof -
  obtain h where h: "sync_run example_world (\<lambda>_. view_new) h example_registered"
    using example_registered_run(1) by blast
  obtain s where s: "map_of (ns_sessions example_registered) 1 = Some s"
    using example_registered_run(2) by blast
  from pushed_views_published [OF h s, of 1] h s show ?thesis by blast
qed

text \<open>
  C14. What a new session that is \<open>n\<close> views behind is sent. Up to 256 views behind, one delta per view,
  and it counts as synced. More than 512 behind, the whole view, and it counts as synced. In between the
  chain of deltas is still served but exceeds the session's queue, and the connection is closed.
\<close>

theorem new_session_catch_up:
  assumes "dir_run I enc d h" and "n < length h" and "s = new_session i cl remote"
    and "s' = session_catch_up d (sn_gen (h ! (length h - 1 - n))) s"
  shows "if n \<le> 256 then cs_synced s' \<and> cs_close s' = None
      \<and> cs_pushed s' = map PDelta (consecutive diff (drop (length h - 1 - n) h))
    else if n \<le> 512 then \<not> cs_synced s' \<and> cs_close s' = Some CLOSE_OVERFLOW
    else cs_synced s' \<and> cs_close s' = None \<and> cs_pushed s' = [PSnapshot (dr_published d)]"
proof -
  let ?k = "length h - 1 - n"
  have k: "?k < length h" using assms(2) by simp
  let ?ds = "consecutive diff (drop ?k h)"
  have len: "length ?ds = n" using assms(2) by simp
  have since: "deltas_since d (sn_gen (h ! ?k)) = (if n \<le> 512 then Some ?ds else None)"
    using deltas_since_known [OF dir_run_inv [OF assms(1)] k] assms(2) by (auto simp: RING_def)
  have s: "cs_writer s" "cs_queued s = 0" "cs_close s = None" "cs_pushed s = []"
    using assms(3) by (simp_all add: new_session_def)
  show ?thesis
    using push_deltas_fits [of s ?ds] push_deltas_overflows [of s ?ds] s len since
    by (simp add: assms(4) session_catch_up_def PUSH_QUEUE_def push_send_def del: length_consecutive length_drop)
qed

theorem new_session_catch_up_witness:
  "let d = directory_new example_enc 5 60; s' = session_catch_up d 5 (new_session 1 example_claims ''r'')
   in cs_synced s' \<and> cs_pushed s' = []"
proof -
  have run: "dir_run ipnet_std example_enc (directory_new example_enc 5 60) [snapshot_default\<lparr>sn_gen := 5\<rparr>]"
    by (rule dir_run.start)
  from new_session_catch_up [OF run _ refl refl, of 0 1 example_claims "''r''"] show ?thesis by (simp add: Let_def)
qed

end
