(* ===== verification/Nq_Token.thy ===== *)
theory Nq_Token
  imports Nq_Net
begin

text \<open>
  The member token (\<open>crates/nqvpn-proto/src/token.rs\<close>): the string an operator copies to a machine. The
  base64 package is a pair of arguments. A string stands for its UTF-8 bytes, one character per byte.
\<close>

section \<open>Strings and bytes\<close>

definition char_byte :: "char \<Rightarrow> u8" where "char_byte c = of_nat (of_char c)"
definition byte_char :: "u8 \<Rightarrow> char" where "byte_char b = char_of (unat b)"

definition str_bytes :: "string \<Rightarrow> bytes" where "str_bytes s = map char_byte s"
definition bytes_str :: "bytes \<Rightarrow> string" where "bytes_str b = map byte_char b"

lemma byte_char_byte [simp]: "byte_char (char_byte c) = c"
  by (simp add: byte_char_def char_byte_def unat_of_nat of_char_mod_256 del: of_nat_of_char)

lemma bytes_str_bytes [simp]: "bytes_str (str_bytes s) = s"
  by (simp add: bytes_str_def str_bytes_def comp_def)

text \<open>Well-formed UTF-8, as \<open>String::from_utf8\<close> accepts it: no overlong forms, no surrogates.\<close>

definition cont :: "u8 \<Rightarrow> bool" where "cont b \<longleftrightarrow> 0x80 \<le> b \<and> b \<le> 0xBF"

definition second_ok :: "u8 \<Rightarrow> u8 \<Rightarrow> bool" where
  "second_ok a b \<longleftrightarrow> cont b \<and> (a = 0xE0 \<longrightarrow> 0xA0 \<le> b) \<and> (a = 0xED \<longrightarrow> b \<le> 0x9F)
     \<and> (a = 0xF0 \<longrightarrow> 0x90 \<le> b) \<and> (a = 0xF4 \<longrightarrow> b \<le> 0x8F)"

fun utf8_ok :: "bytes \<Rightarrow> bool" where
  "utf8_ok [] = True"
| "utf8_ok (a # xs) =
     (if a < 0x80 then utf8_ok xs
      else if 0xC2 \<le> a \<and> a \<le> 0xDF then (case xs of b # ys \<Rightarrow> cont b \<and> utf8_ok ys | _ \<Rightarrow> False)
      else if 0xE0 \<le> a \<and> a \<le> 0xEF then
        (case xs of b # c # ys \<Rightarrow> second_ok a b \<and> cont c \<and> utf8_ok ys | _ \<Rightarrow> False)
      else if 0xF0 \<le> a \<and> a \<le> 0xF4 then
        (case xs of b # c # d # ys \<Rightarrow> second_ok a b \<and> cont c \<and> cont d \<and> utf8_ok ys | _ \<Rightarrow> False)
      else False)"

definition from_utf8 :: "bytes \<Rightarrow> string option" where
  "from_utf8 b = (if utf8_ok b then Some (bytes_str b) else None)"

text \<open>What follows the first byte of a character.\<close>

lemma utf8_ok_Cons:
  "utf8_ok (a # xs) \<longleftrightarrow> (a < 0x80 \<and> utf8_ok xs)
     \<or> (\<exists>b ys. \<not> a < 0x80 \<and> 0xC2 \<le> a \<and> a \<le> 0xDF \<and> xs = b # ys \<and> cont b \<and> utf8_ok ys)
     \<or> (\<exists>b c ys. \<not> a < 0x80 \<and> \<not> (0xC2 \<le> a \<and> a \<le> 0xDF) \<and> 0xE0 \<le> a \<and> a \<le> 0xEF \<and> xs = b # c # ys
          \<and> second_ok a b \<and> cont c \<and> utf8_ok ys)
     \<or> (\<exists>b c d ys. \<not> a < 0x80 \<and> \<not> (0xC2 \<le> a \<and> a \<le> 0xDF) \<and> \<not> (0xE0 \<le> a \<and> a \<le> 0xEF) \<and> 0xF0 \<le> a \<and> a \<le> 0xF4
          \<and> xs = b # c # d # ys \<and> second_ok a b \<and> cont c \<and> cont d \<and> utf8_ok ys)"
  unfolding utf8_ok.simps(2) [of a xs]
  by (cases "a < 0x80"; cases "0xC2 \<le> a \<and> a \<le> 0xDF"; cases "0xE0 \<le> a \<and> a \<le> 0xEF"; cases "0xF0 \<le> a \<and> a \<le> 0xF4";
      simp only: if_True if_False simp_thms split: list.split; blast)

declare utf8_ok.simps(2) [simp del]

lemma utf8_ok_append: "utf8_ok xs \<Longrightarrow> utf8_ok ys \<Longrightarrow> utf8_ok (xs @ ys)"
proof (induction xs rule: length_induct)
  case (1 xs)
  show ?case
  proof (cases xs)
    case (Cons a zs)
    have IH: "utf8_ok ws \<Longrightarrow> utf8_ok (ws @ ys)" if "length ws < length xs" for ws using 1 that by blast
    from 1(2) have "utf8_ok (a # zs)" unfolding Cons .
    then have "utf8_ok (a # zs @ ys)"
    proof (subst (asm) utf8_ok_Cons, elim disjE exE conjE)
      assume "a < 0x80" "utf8_ok zs"
      with IH [of zs] Cons show ?thesis by (subst utf8_ok_Cons) simp
    next
      fix b ws assume "\<not> a < 0x80" "0xC2 \<le> a" "a \<le> 0xDF" "zs = b # ws" "cont b" "utf8_ok ws"
      with IH [of ws] Cons show ?thesis by (subst utf8_ok_Cons) simp
    next
      fix b c ws assume "\<not> a < 0x80" "\<not> (0xC2 \<le> a \<and> a \<le> 0xDF)" "0xE0 \<le> a" "a \<le> 0xEF" "zs = b # c # ws"
        "second_ok a b" "cont c" "utf8_ok ws"
      with IH [of ws] Cons show ?thesis by (subst utf8_ok_Cons) simp
    next
      fix b c d ws assume "\<not> a < 0x80" "\<not> (0xC2 \<le> a \<and> a \<le> 0xDF)" "\<not> (0xE0 \<le> a \<and> a \<le> 0xEF)" "0xF0 \<le> a" "a \<le> 0xF4"
        "zs = b # c # d # ws" "second_ok a b" "cont c" "cont d" "utf8_ok ws"
      with IH [of ws] Cons show ?thesis by (subst utf8_ok_Cons) simp
    qed
    then show ?thesis unfolding Cons by simp
  qed (use 1 in simp)
qed

section \<open>Tokens\<close>

definition PREFIX :: string where "PREFIX = ''nqv1.''"

record token =
  tk_coordinator :: string
  tk_secret :: string
  tk_fp :: "string option"

datatype token_error = TokPrefix | TokMalformed | TokNoEndpoint | TokNoSecret

definition token_body :: "token \<Rightarrow> string" where
  "token_body t = ''endpoint='' @ tk_coordinator t @ '';secret='' @ tk_secret t
     @ (case tk_fp t of Some fp \<Rightarrow> '';fp='' @ fp | None \<Rightarrow> [])"

definition token_encode :: "(bytes \<Rightarrow> string) \<Rightarrow> token \<Rightarrow> string" where
  "token_encode enc t = PREFIX @ enc (str_bytes (token_body t))"

record token_fields =
  tf_coordinator :: "string option"
  tf_secret :: "string option"
  tf_fp :: "string option"

definition nonempty :: "string option \<Rightarrow> string option" where
  "nonempty s = (case s of Some x \<Rightarrow> if x = [] then None else Some x | None \<Rightarrow> None)"

text \<open>One field; those not known are ignored.\<close>

definition token_field :: "string \<Rightarrow> token_fields \<Rightarrow> token_fields" where
  "token_field part f =
     (case split_once CHR ''='' part of
        Some (k, v) \<Rightarrow>
          if k = ''endpoint'' then f\<lparr>tf_coordinator := Some (str_trim v)\<rparr>
          else if k = ''secret'' then f\<lparr>tf_secret := Some (str_trim v)\<rparr>
          else if k = ''fp'' then f\<lparr>tf_fp := nonempty (Some (str_trim v))\<rparr>
          else f
      | None \<Rightarrow> f)"

definition token_of_text :: "string \<Rightarrow> token_error + token" where
  "token_of_text text =
     (let f = fold token_field (split_on CHR '';'' text) \<lparr>tf_coordinator = None, tf_secret = None, tf_fp = None\<rparr>
      in case nonempty (tf_coordinator f) of
           None \<Rightarrow> Inl TokNoEndpoint
         | Some c \<Rightarrow> (case nonempty (tf_secret f) of
             None \<Rightarrow> Inl TokNoSecret
           | Some s \<Rightarrow> Inr \<lparr>tk_coordinator = c, tk_secret = s, tk_fp = tf_fp f\<rparr>))"

definition token_parse :: "(string \<Rightarrow> bytes option) \<Rightarrow> string \<Rightarrow> token_error + token" where
  "token_parse dec s =
     (case strip_prefix PREFIX (str_trim s) of
        None \<Rightarrow> Inl TokPrefix
      | Some body \<Rightarrow>
          (case dec body of
             None \<Rightarrow> Inl TokMalformed
           | Some raw \<Rightarrow> (case from_utf8 raw of None \<Rightarrow> Inl TokMalformed | Some text \<Rightarrow> token_of_text text)))"

section \<open>Round trip\<close>

text \<open>What a field can carry: text, not empty, without white space around it and without a semicolon.\<close>

definition field_ok :: "string \<Rightarrow> bool" where
  "field_ok s \<longleftrightarrow> s \<noteq> [] \<and> str_trim s = s \<and> CHR '';'' \<notin> set s \<and> utf8_ok (str_bytes s)"

definition token_ok :: "token \<Rightarrow> bool" where
  "token_ok t \<longleftrightarrow> field_ok (tk_coordinator t) \<and> field_ok (tk_secret t) \<and> (\<forall>fp. tk_fp t = Some fp \<longrightarrow> field_ok fp)"

lemma split_once_append: "c \<notin> set k \<Longrightarrow> split_once c (k @ c # v) = Some (k, v)"
  by (induction k) (auto simp: split_once_def)

lemma strip_prefix_append [simp]: "strip_prefix p (p @ s) = Some s"
  by (induction p) auto

lemma dropWhile_all: "(\<forall>x \<in> set xs. P x) \<Longrightarrow> dropWhile P (xs @ ys) = dropWhile P ys"
  by (induction xs) auto

lemma str_trim_padded:
  assumes "\<forall>c \<in> set a. is_ws c" and "\<forall>c \<in> set b. is_ws c" and "\<forall>c \<in> set s. \<not> is_ws c"
  shows "str_trim (a @ s @ b) = s"
proof (cases "s = []")
  case True
  have "dropWhile is_ws (a @ b) = []" using assms(1,2) by auto
  with True show ?thesis by (simp only: str_trim_def append_Nil dropWhile.simps rev.simps)
next
  case False
  then have hd: "\<not> is_ws (hd s)" "\<not> is_ws (hd (rev s))" using assms(3) by (simp_all add: hd_rev)
  have "dropWhile is_ws (a @ s @ b) = s @ b"
    using assms(1) False hd(1) by (subst dropWhile_all) (auto simp: neq_Nil_conv)
  moreover have "dropWhile is_ws (rev b @ rev s) = rev s"
    using assms(2) False hd(2) by (subst dropWhile_all) (auto simp: neq_Nil_conv dropWhile_eq_self_iff)
  ultimately show ?thesis by (simp add: str_trim_def)
qed

lemma token_field_known:
  assumes "field_ok v"
  shows "token_field (''endpoint='' @ v) f = f\<lparr>tf_coordinator := Some v\<rparr>"
    and "token_field (''secret='' @ v) f = f\<lparr>tf_secret := Some v\<rparr>"
    and "token_field (''fp='' @ v) f = f\<lparr>tf_fp := Some v\<rparr>"
  using assms split_once_append [of "CHR ''=''" "''endpoint''" v] split_once_append [of "CHR ''=''" "''secret''" v]
    split_once_append [of "CHR ''=''" "''fp''" v]
  by (simp_all add: token_field_def field_ok_def nonempty_def)

lemma token_body_split:
  assumes "token_ok t"
  shows "split_on CHR '';'' (token_body t) = (''endpoint='' @ tk_coordinator t) # (''secret='' @ tk_secret t)
      # (case tk_fp t of Some fp \<Rightarrow> [''fp='' @ fp] | None \<Rightarrow> [])"
proof -
  have n: "CHR '';'' \<notin> set (''endpoint='' @ tk_coordinator t)" "CHR '';'' \<notin> set (''secret='' @ tk_secret t)"
    using assms by (simp_all add: token_ok_def field_ok_def)
  show ?thesis
  proof (cases "tk_fp t")
    case None
    with split_on_append [OF n(1)] split_on_single [OF n(2)] show ?thesis by (simp add: token_body_def)
  next
    case (Some fp)
    then have "CHR '';'' \<notin> set (''fp='' @ fp)" using assms by (simp add: token_ok_def field_ok_def)
    from split_on_single [OF this] split_on_append [OF n(1)] split_on_append [OF n(2)] Some show ?thesis
      by (simp add: token_body_def)
  qed
qed

lemma token_of_body:
  assumes "token_ok t"
  shows "token_of_text (token_body t) = Inr t"
proof -
  have ok: "field_ok (tk_coordinator t)" "field_ok (tk_secret t)" using assms by (simp_all add: token_ok_def)
  then have ne: "tk_coordinator t \<noteq> []" "tk_secret t \<noteq> []" by (simp_all add: field_ok_def)
  have "fold token_field (split_on CHR '';'' (token_body t)) \<lparr>tf_coordinator = None, tf_secret = None, tf_fp = None\<rparr>
      = \<lparr>tf_coordinator = Some (tk_coordinator t), tf_secret = Some (tk_secret t), tf_fp = tk_fp t\<rparr>"
  proof (cases "tk_fp t")
    case None
    show ?thesis unfolding token_body_split [OF assms] None option.case fold.simps o_apply id_apply
      token_field_known(1) [OF ok(1)] token_field_known(2) [OF ok(2)] by simp
  next
    case (Some fp)
    then have fp: "field_ok fp" using assms by (simp add: token_ok_def)
    show ?thesis unfolding token_body_split [OF assms] Some option.case fold.simps o_apply id_apply
      token_field_known(1) [OF ok(1)] token_field_known(2) [OF ok(2)] token_field_known(3) [OF fp] by simp
  qed
  with ne show ?thesis by (simp add: token_of_text_def nonempty_def)
qed

lemma token_body_utf8: "token_ok t \<Longrightarrow> utf8_ok (str_bytes (token_body t))"
proof -
  assume ok: "token_ok t"
  have app: "str_bytes (xs @ ys) = str_bytes xs @ str_bytes ys" for xs ys by (simp add: str_bytes_def)
  have lit: "utf8_ok (str_bytes ''endpoint='')" "utf8_ok (str_bytes '';secret='')" "utf8_ok (str_bytes '';fp='')" by code_simp+
  show ?thesis
    using ok lit unfolding token_body_def app
    by (auto intro!: utf8_ok_append simp: token_ok_def field_ok_def app str_bytes_def [of "[]"] split: option.split simp del: append.simps)
qed

text \<open>The base64 package: decoding undoes encoding, and what it writes has no white space.\<close>

definition b64_ok :: "(bytes \<Rightarrow> string) \<Rightarrow> (string \<Rightarrow> bytes option) \<Rightarrow> bool" where
  "b64_ok enc dec \<longleftrightarrow> (\<forall>b. dec (enc b) = Some b \<and> (\<forall>c \<in> set (enc b). \<not> is_ws c))"

section \<open>Properties\<close>


text \<open>A concrete pair: two letters for each byte.\<close>

definition example_letter :: "nat \<Rightarrow> char" where "example_letter n = char_of (97 + n :: nat)"

definition example_b64enc :: "bytes \<Rightarrow> string" where
  "example_b64enc b = concat (map (\<lambda>x. [example_letter (unat x div 16), example_letter (unat x mod 16)]) b)"

fun example_b64dec :: "string \<Rightarrow> bytes option" where
  "example_b64dec [] = Some []"
| "example_b64dec [c] = None"
| "example_b64dec (c # d # s) =
     map_option (\<lambda>b. of_nat (16 * (of_char c - 97) + (of_char d - 97)) # b) (example_b64dec s)"

lemma example_letter_nat: "n < 16 \<Longrightarrow> of_char (example_letter n) = (97 + n :: nat)"
  by (simp add: example_letter_def)

lemma example_b64_ok: "b64_ok example_b64enc example_b64dec"
proof -
  have lt: "unat (x :: u8) div 16 < 16" for x using unsigned_less [of x, where ?'a = nat] by simp
  have ws: "\<not> is_ws (example_letter n)" if "n < 16" for n
  proof -
    have "of_char c < (97 :: nat)" if "is_ws c" for c using that by (auto simp: is_ws_def)
    with example_letter_nat [OF that] show ?thesis by fastforce
  qed
  have "example_b64dec (example_b64enc b) = Some b" for b
    by (induction b) (simp_all add: example_b64enc_def example_letter_nat lt)
  moreover have "\<forall>c \<in> set (example_b64enc b). \<not> is_ws c" for b
    using ws lt by (auto simp: example_b64enc_def)
  ultimately show ?thesis by (simp add: b64_ok_def)
qed


end
