(* ===== verification/Nq_Admin.thy ===== *)
theory Nq_Admin
  imports Nq_Coord Nq_Token
begin

text \<open>
  Operator mutations (\<open>crates/nqvpn-coord/src/admin.rs\<close>): networks and members are created, changed,
  rotated, disabled, deleted and imported. Names of hosts resolve through an argument, new secrets and
  identifiers are arguments, and whether the database can be written now is a field of the state.
\<close>

section \<open>Specifications\<close>

record network_spec =
  sp_network_id :: string
  sp_ipv4_cidr :: ip_net
  sp_ipv6_cidr :: "ip_net option"
  sp_settings :: settings_cfg

record member_spec =
  ms_relay_addr :: "string option"
  ms_local_cidrs :: "ip_net list"
  ms_preferred_ip4 :: "u32 option"
  ms_preferred_ip6 :: "u128 option"
  ms_want_vpn_ip :: "bool option"
  ms_max_session_mbps :: "u32 option"
  ms_preferred_relay :: "string option"
  ms_internet_gateway :: "bool option"

definition spec_apply :: "member_spec \<Rightarrow> member_cfg \<Rightarrow> member_cfg" where
  "spec_apply sp m = m\<lparr>mc_relay_addr := ms_relay_addr sp, mc_local_cidrs := ms_local_cidrs sp,
     mc_preferred_ip4 := ms_preferred_ip4 sp, mc_preferred_ip6 := ms_preferred_ip6 sp,
     mc_want_vpn_ip := ms_want_vpn_ip sp, mc_max_session_mbps := ms_max_session_mbps sp,
     mc_preferred_relay := ms_preferred_relay sp, mc_internet_gateway := ms_internet_gateway sp\<rparr>"

definition spec_from_cfg :: "member_cfg \<Rightarrow> member_spec" where
  "spec_from_cfg m = \<lparr>ms_relay_addr = mc_relay_addr m, ms_local_cidrs = mc_local_cidrs m,
     ms_preferred_ip4 = mc_preferred_ip4 m, ms_preferred_ip6 = mc_preferred_ip6 m,
     ms_want_vpn_ip = mc_want_vpn_ip m, ms_max_session_mbps = mc_max_session_mbps m,
     ms_preferred_relay = mc_preferred_relay m, ms_internet_gateway = mc_internet_gateway m\<rparr>"

definition facts_equal :: "member_cfg \<Rightarrow> member_cfg \<Rightarrow> bool" where
  "facts_equal a b \<longleftrightarrow> mc_relay_addr a = mc_relay_addr b \<and> mc_local_cidrs a = mc_local_cidrs b
     \<and> mc_preferred_ip4 a = mc_preferred_ip4 b \<and> mc_preferred_ip6 a = mc_preferred_ip6 b
     \<and> mc_want_vpn_ip a = mc_want_vpn_ip b \<and> mc_max_session_mbps a = mc_max_session_mbps b
     \<and> mc_preferred_relay a = mc_preferred_relay b \<and> mc_internet_gateway a = mc_internet_gateway b"

section \<open>Checks\<close>

definition record_addrs :: "member_record \<Rightarrow> ip_addr list" where
  "record_addrs rec = case_option [] (\<lambda>a. [A4 a]) (mr_ip4 rec) @ case_option [] (\<lambda>a. [A6 a]) (mr_ip6 rec)"

definition validate_assignments :: "ipnet \<Rightarrow> network_config \<Rightarrow> registry \<Rightarrow> api_error + unit" where
  "validate_assignments I cfg reg =
     res_bind (res_iter (\<lambda>rec. res_iter (\<lambda>ip. ensure (\<exists>c \<in> set (nc_cidrs cfg). ipn_contains I c ip) bad_request)
                 (record_addrs rec)) (map snd (rg_members reg))) (\<lambda>_.
     res_iter (\<lambda>(name, m, _). res_iter (\<lambda>ip.
         ensure (find (\<lambda>r. mr_name r \<noteq> name \<and> ip \<in> set (record_addrs r)) (map snd (rg_members reg)) = None)
           address_in_use) (static_addrs m)) (cfg_members cfg))"

definition is_alnum :: "char \<Rightarrow> bool" where
  "is_alnum c \<longleftrightarrow> is_digit c \<or> (CHR ''a'' \<le> c \<and> c \<le> CHR ''z'') \<or> (CHR ''A'' \<le> c \<and> c \<le> CHR ''Z'')"

definition valid_name :: "string \<Rightarrow> api_error + unit" where
  "valid_name name = ensure (name \<noteq> [] \<and> length name \<le> 64
     \<and> list_all (\<lambda>c. is_alnum c \<or> c = CHR ''-'' \<or> c = CHR ''_'' \<or> c = CHR ''.'') name) bad_request"

definition changed_members :: "network_config \<Rightarrow> network_config \<Rightarrow> string list" where
  "changed_members old new =
     map fst (filter (\<lambda>(name, m, r). case member_by_name old name of
         Some (o', r') \<Rightarrow> \<not> (r' = r \<and> facts_equal o' m) | None \<Rightarrow> True) (cfg_members new))"

definition everyone_must_rejoin :: "network_config \<Rightarrow> network_config \<Rightarrow> bool" where
  "everyone_must_rejoin old new \<longleftrightarrow> nc_cidrs old \<noteq> nc_cidrs new
     \<or> st_mtu (nc_settings old) \<noteq> st_mtu (nc_settings new)
     \<or> st_transport (nc_settings old) \<noteq> st_transport (nc_settings new)
     \<or> st_lanes (nc_settings old) \<noteq> st_lanes (nc_settings new)
     \<or> st_heartbeat_secs (nc_settings old) \<noteq> st_heartbeat_secs (nc_settings new)
     \<or> st_credential_ttl_mins (nc_settings old) \<noteq> st_credential_ttl_mins (nc_settings new)
     \<or> st_max_session_mbps (nc_settings old) \<noteq> st_max_session_mbps (nc_settings new)"

text \<open>The rules a changed configuration must pass: the network's own, and the addresses in use.\<close>

definition check_edit ::
    "('sk, 'vk) world \<Rightarrow> (string \<Rightarrow> int \<Rightarrow> ip_addr list) \<Rightarrow> network_config \<Rightarrow> registry \<Rightarrow> api_error + network_config" where
  "check_edit W hosts cfg reg =
     (case validate_network_with (w_ipnet W) hosts cfg of
        Inl _ \<Rightarrow> Inl bad_request
      | Inr cfg \<Rightarrow> res_bind (validate_assignments (w_ipnet W) cfg reg) (\<lambda>_. Inr cfg))"

section \<open>One network\<close>

definition spec_cidrs :: "network_spec \<Rightarrow> ip_net list" where
  "spec_cidrs sp = sp_ipv4_cidr sp # case_option [] (\<lambda>c. [c]) (sp_ipv6_cidr sp)"

definition update_network ::
    "('sk, 'vk) world \<Rightarrow> (string \<Rightarrow> int \<Rightarrow> ip_addr list) \<Rightarrow> key_info list \<Rightarrow> clock \<Rightarrow> network_spec \<Rightarrow> net_state
      \<Rightarrow> (api_error + unit) \<times> net_state" where
  "update_network W hosts keys ck sp ns =
     (case check_edit W hosts ((ns_cfg ns)\<lparr>nc_cidrs := spec_cidrs sp, nc_settings := sp_settings sp\<rparr>) (ns_registry ns) of
        Inl e \<Rightarrow> (Inl e, ns)
      | Inr cfg \<Rightarrow>
          let everyone = everyone_must_rejoin (ns_cfg ns) cfg in
          (case save_config (ns\<lparr>ns_cfg := cfg\<rparr>) of
             (Inl e, ns) \<Rightarrow> (Inl e, ns)
           | (Inr _, ns) \<Rightarrow>
               let ns = ns\<lparr>ns_directory := (ns_directory ns)\<lparr>dr_hold_down_secs := st_hold_down_secs (nc_settings (ns_cfg ns))\<rparr>\<rparr>;
                   ns = (if everyone then reconfigure_all ''network settings changed'' ns else ns)
               in (Inr (), publish W keys ck ns)))"

text \<open>\<open>secret\<close> is the one generated for the new member.\<close>

definition create_member ::
    "('sk, 'vk) world \<Rightarrow> (string \<Rightarrow> int \<Rightarrow> ip_addr list) \<Rightarrow> string \<Rightarrow> string \<Rightarrow> role \<Rightarrow> member_spec \<Rightarrow> net_state
      \<Rightarrow> (api_error + string) \<times> net_state" where
  "create_member W hosts secret name r sp ns =
     (if member_by_name (ns_cfg ns) name \<noteq> None then (Inl bad_request, ns)
      else case check_edit W hosts (insert_member name r
               ((spec_apply sp member_cfg_default)\<lparr>mc_secret := Some secret\<rparr>) (ns_cfg ns)) (ns_registry ns) of
        Inl e \<Rightarrow> (Inl e, ns)
      | Inr cfg \<Rightarrow>
          (case save_config (ns\<lparr>ns_cfg := cfg\<rparr>) of
             (Inl e, ns) \<Rightarrow> (Inl e, ns)
           | (Inr _, ns) \<Rightarrow> (Inr secret, notify ns)))"

definition reconfigure_changed :: "string list \<Rightarrow> string \<Rightarrow> net_state \<Rightarrow> net_state" where
  "reconfigure_changed names why ns =
     fold (\<lambda>n ns. case reg_id_of (ns_registry ns) n of Some node \<Rightarrow> reconfigure node why ns | None \<Rightarrow> ns) names ns"

definition update_member ::
    "('sk, 'vk) world \<Rightarrow> (string \<Rightarrow> int \<Rightarrow> ip_addr list) \<Rightarrow> key_info list \<Rightarrow> clock \<Rightarrow> string \<Rightarrow> member_spec \<Rightarrow> net_state
      \<Rightarrow> (api_error + unit) \<times> net_state" where
  "update_member W hosts keys ck name sp ns =
     (case member_by_name_upd name (spec_apply sp) (ns_cfg ns) of
        None \<Rightarrow> (Inl api_not_found, ns)
      | Some cfg \<Rightarrow>
          (case check_edit W hosts cfg (ns_registry ns) of
             Inl e \<Rightarrow> (Inl e, ns)
           | Inr cfg \<Rightarrow>
               let changed = changed_members (ns_cfg ns) cfg in
               (case save_config (ns\<lparr>ns_cfg := cfg\<rparr>) of
                  (Inl e, ns) \<Rightarrow> (Inl e, ns)
                | (Inr _, ns) \<Rightarrow>
                    (Inr (), notify (publish W keys ck (reconfigure_changed changed ''configuration changed'' ns))))))"

definition retire_record :: "nat \<Rightarrow> string \<Rightarrow> member_record \<Rightarrow> member_record" where
  "retire_record now why rec = rec\<lparr>mr_login_gen := mr_login_gen rec + 1, mr_replaced_unix := Some now,
     mr_replaced_from := Some why\<rparr>"

definition upd_record :: "node_id \<Rightarrow> (member_record \<Rightarrow> member_record) \<Rightarrow> registry \<Rightarrow> registry" where
  "upd_record node f reg =
     (case map_of (rg_members reg) node of
        Some rec \<Rightarrow> reg\<lparr>rg_members := bt_insert node (f rec) (rg_members reg)\<rparr>
      | None \<Rightarrow> reg)"

definition rotate_member ::
    "('sk, 'vk) world \<Rightarrow> string \<Rightarrow> key_info list \<Rightarrow> clock \<Rightarrow> string \<Rightarrow> net_state \<Rightarrow> (api_error + string) \<times> net_state" where
  "rotate_member W secret keys ck name ns =
     (case member_by_name_upd name (\<lambda>m. m\<lparr>mc_secret := Some secret\<rparr>) (ns_cfg ns) of
        None \<Rightarrow> (Inl api_not_found, ns)
      | Some cfg \<Rightarrow>
          (case save_config (ns\<lparr>ns_cfg := cfg\<rparr>) of
             (Inl e, ns) \<Rightarrow> (Inl e, ns)
           | (Inr _, ns) \<Rightarrow>
               (case reg_id_of (ns_registry ns) name of
                  None \<Rightarrow> (Inr secret, ns)
                | Some node \<Rightarrow>
                    (case commit (ns\<lparr>ns_registry := upd_record node (retire_record (ck_unix ck) ''secret rotated'')
                             (ns_registry ns)\<rparr>) of
                       (Inl e, ns) \<Rightarrow> (Inl e, ns)
                     | (Inr _, ns) \<Rightarrow> (Inr secret, publish W keys ck (close_session node ''secret rotated'' ns))))))"

definition forget_node :: "node_id \<Rightarrow> net_state \<Rightarrow> net_state" where
  "forget_node node ns =
     (let ns = close_session node ''member deleted'' ns; d = ns_directory ns
      in ns\<lparr>ns_leases := leases_remove_relay node (ns_leases ns),
            ns_directory := d\<lparr>dr_traffic := hm_remove node (dr_traffic d),
              dr_reported_mtu := hm_remove node (dr_reported_mtu d)\<rparr>\<rparr>)"

definition delete_member ::
    "('sk, 'vk) world \<Rightarrow> key_info list \<Rightarrow> clock \<Rightarrow> string \<Rightarrow> net_state \<Rightarrow> (api_error + unit) \<times> net_state" where
  "delete_member W keys ck name ns =
     (let (in_cfg, cfg) = remove_member name (ns_cfg ns);
          node = reg_id_of (ns_registry ns) name;
          ns = ns\<lparr>ns_cfg := cfg\<rparr>
      in if \<not> in_cfg \<and> node = None then (Inl api_not_found, ns)
         else case save_config ns of
           (Inl e, ns) \<Rightarrow> (Inl e, ns)
         | (Inr _, ns) \<Rightarrow>
             (case node of
                None \<Rightarrow> (Inr (), publish W keys ck ns)
              | Some node \<Rightarrow>
                  (case commit (ns\<lparr>ns_registry := (ns_registry ns)\<lparr>rg_members := bt_remove node (rg_members (ns_registry ns))\<rparr>\<rparr>) of
                     (Inl e, ns) \<Rightarrow> (Inl e, ns)
                   | (Inr _, ns) \<Rightarrow> (Inr (), publish W keys ck (forget_node node ns)))))"

definition disable_node :: "node_id \<Rightarrow> role \<Rightarrow> net_state \<Rightarrow> net_state" where
  "disable_node node r ns =
     (let ns = close_session node ''member disabled'' ns
      in ns\<lparr>ns_leases := (if r = Relay then leases_remove_relay node (ns_leases ns) else leases_remove node (ns_leases ns))\<rparr>)"

definition set_disabled ::
    "('sk, 'vk) world \<Rightarrow> key_info list \<Rightarrow> clock \<Rightarrow> string \<Rightarrow> bool \<Rightarrow> net_state \<Rightarrow> (api_error + unit) \<times> net_state" where
  "set_disabled W keys ck name disabled ns =
     (case reg_id_of (ns_registry ns) name of
        None \<Rightarrow> (Inl api_not_found, ns)
      | Some node \<Rightarrow>
          (case map_of (rg_members (ns_registry ns)) node of
             None \<Rightarrow> (Inl api_not_found, ns)
           | Some rec \<Rightarrow>
               (case commit (ns\<lparr>ns_registry := upd_record node (\<lambda>rec. rec\<lparr>mr_disabled := disabled\<rparr>) (ns_registry ns)\<rparr>) of
                  (Inl e, ns) \<Rightarrow> (Inl e, ns)
                | (Inr _, ns) \<Rightarrow>
                    (Inr (), publish W keys ck (if disabled then disable_node node (mr_role rec) ns else ns)))))"

text \<open>The part of a deletion under the network's lock; the rows go together.\<close>

definition delete_net :: "net_state \<Rightarrow> (api_error + unit) \<times> net_state" where
  "delete_net ns =
     (if \<not> db_save_ok (ns_db ns) then (Inl api_internal, ns)
      else let ns = ns\<lparr>ns_db := (ns_db ns)\<lparr>db_cfg := None, db_registry := None\<rparr>, ns_deleted := True\<rparr>
           in (Inr (), fold (\<lambda>n. close_session n ''network deleted'') (map fst (ns_sessions ns)) ns))"

section \<open>All networks\<close>

text \<open>An operation on the network \<open>id\<close>; a lock poisoned by a panic is not modelled.\<close>

definition on_net ::
    "string \<Rightarrow> (net_state \<Rightarrow> (api_error + 'a) \<times> net_state) \<Rightarrow> 'sk app_state \<Rightarrow> (api_error + 'a) \<times> 'sk app_state" where
  "on_net i f a =
     (case map_of (ap_nets a) i of
        None \<Rightarrow> (Inl api_not_found, a)
      | Some ns \<Rightarrow> let (res, ns) = f ns in (res, a\<lparr>ap_nets := hm_insert i ns (ap_nets a)\<rparr>))"

definition add_network ::
    "('sk, 'vk) world \<Rightarrow> db \<Rightarrow> clock \<Rightarrow> network_config \<Rightarrow> registry \<Rightarrow> 'sk app_state \<Rightarrow> 'sk app_state" where
  "add_network W d ck cfg reg a =
     a\<lparr>ap_nets := hm_insert (nc_network_id cfg) (net_state_new W cfg reg d ck) (ap_nets a)\<rparr>"

definition remove_network :: "string \<Rightarrow> 'sk app_state \<Rightarrow> 'sk app_state" where
  "remove_network i a = a\<lparr>ap_nets := hm_remove i (ap_nets a)\<rparr>"

definition saved_rows :: "network_config \<Rightarrow> registry \<Rightarrow> db" where
  "saved_rows cfg reg = \<lparr>db_cfg = Some cfg, db_registry = Some reg, db_save_ok = True, db_load_ok = True\<rparr>"

definition no_collect :: "string \<Rightarrow> 'sk app_state \<Rightarrow> 'sk app_state" where
  "no_collect i a =
     a\<lparr>ap_nets := (case map_of (ap_nets a) i of Some ns \<Rightarrow> hm_insert i (ns\<lparr>ns_started_at := 0\<rparr>) (ap_nets a)
                   | None \<Rightarrow> ap_nets a)\<rparr>"

text \<open>\<open>save_ok\<close>: the database accepts the rows; \<open>uuid\<close> is the identifier drawn for the network.\<close>

definition create_network ::
    "('sk, 'vk) world \<Rightarrow> (string \<Rightarrow> int \<Rightarrow> ip_addr list) \<Rightarrow> bool \<Rightarrow> string \<Rightarrow> clock \<Rightarrow> network_spec \<Rightarrow> 'sk app_state
      \<Rightarrow> (api_error + unit) \<times> 'sk app_state" where
  "create_network W hosts save_ok uuid ck sp a =
     (case valid_name (sp_network_id sp) of
        Inl e \<Rightarrow> (Inl e, a)
      | Inr _ \<Rightarrow>
          (case validate_network_with (w_ipnet W) hosts \<lparr>nc_network_id = sp_network_id sp, nc_cidrs = spec_cidrs sp,
               nc_settings = sp_settings sp, nc_relays = [], nc_clients = []\<rparr> of
             Inl _ \<Rightarrow> (Inl bad_request, a)
           | Inr cfg \<Rightarrow>
               if map_of (ap_nets a) (sp_network_id sp) \<noteq> None then (Inl bad_request, a)
               else if \<not> save_ok then (Inl api_internal, a)
               else let reg = registry_new uuid
                    in (Inr (), no_collect (sp_network_id sp) (add_network W (saved_rows cfg reg) ck cfg reg a))))"

definition delete_network :: "string \<Rightarrow> 'sk app_state \<Rightarrow> (api_error + unit) \<times> 'sk app_state" where
  "delete_network i a =
     (case on_net i delete_net a of
        (Inl e, a) \<Rightarrow> (Inl e, a)
      | (Inr _, a) \<Rightarrow> (Inr (), remove_network i a))"

text \<open>
  The operations on one network, by its id. The host lookups of an edit are made on the state before its
  lock is taken; \<open>hosts\<close> stands for their answers.
\<close>

definition app_update_network ::
    "('sk, 'vk) world \<Rightarrow> (string \<Rightarrow> int \<Rightarrow> ip_addr list) \<Rightarrow> clock \<Rightarrow> string \<Rightarrow> network_spec \<Rightarrow> 'sk app_state
      \<Rightarrow> (api_error + unit) \<times> 'sk app_state" where
  "app_update_network W hosts ck i sp a = on_net i (update_network W hosts (key_infos W (ap_keyring a)) ck sp) a"

definition app_create_member ::
    "('sk, 'vk) world \<Rightarrow> (string \<Rightarrow> int \<Rightarrow> ip_addr list) \<Rightarrow> string \<Rightarrow> string \<Rightarrow> string \<Rightarrow> role \<Rightarrow> member_spec \<Rightarrow> 'sk app_state
      \<Rightarrow> (api_error + string) \<times> 'sk app_state" where
  "app_create_member W hosts secret i name r sp a =
     (case valid_name name of
        Inl e \<Rightarrow> (Inl e, a)
      | Inr _ \<Rightarrow> on_net i (create_member W hosts secret name r sp) a)"

definition app_update_member ::
    "('sk, 'vk) world \<Rightarrow> (string \<Rightarrow> int \<Rightarrow> ip_addr list) \<Rightarrow> clock \<Rightarrow> string \<Rightarrow> string \<Rightarrow> member_spec \<Rightarrow> 'sk app_state
      \<Rightarrow> (api_error + unit) \<times> 'sk app_state" where
  "app_update_member W hosts ck i name sp a = on_net i (update_member W hosts (key_infos W (ap_keyring a)) ck name sp) a"

definition app_rotate_member ::
    "('sk, 'vk) world \<Rightarrow> string \<Rightarrow> clock \<Rightarrow> string \<Rightarrow> string \<Rightarrow> 'sk app_state \<Rightarrow> (api_error + string) \<times> 'sk app_state" where
  "app_rotate_member W secret ck i name a = on_net i (rotate_member W secret (key_infos W (ap_keyring a)) ck name) a"

definition app_delete_member ::
    "('sk, 'vk) world \<Rightarrow> clock \<Rightarrow> string \<Rightarrow> string \<Rightarrow> 'sk app_state \<Rightarrow> (api_error + unit) \<times> 'sk app_state" where
  "app_delete_member W ck i name a = on_net i (delete_member W (key_infos W (ap_keyring a)) ck name) a"

definition app_set_disabled ::
    "('sk, 'vk) world \<Rightarrow> clock \<Rightarrow> string \<Rightarrow> string \<Rightarrow> bool \<Rightarrow> 'sk app_state \<Rightarrow> (api_error + unit) \<times> 'sk app_state" where
  "app_set_disabled W ck i name disabled a = on_net i (set_disabled W (key_infos W (ap_keyring a)) ck name disabled) a"

text \<open>
  \<open>cert\<close> is the coordinator's certificate and whether it is self-signed; \<open>fps\<close> reads the fingerprints
  of a certificate.
\<close>

definition member_token ::
    "(string \<Rightarrow> string list) \<Rightarrow> (string \<times> bool) option \<Rightarrow> string \<Rightarrow> string \<Rightarrow> string \<Rightarrow> 'sk app_state \<Rightarrow> api_error + token \<times> role" where
  "member_token fps cert i name endpoint a =
     (case map_of (ap_nets a) i of
        None \<Rightarrow> Inl api_not_found
      | Some ns \<Rightarrow>
          (case member_by_name (ns_cfg ns) name of
             None \<Rightarrow> Inl api_not_found
           | Some (m, r) \<Rightarrow>
               (case mc_secret m of
                  None \<Rightarrow> Inl api_not_found
                | Some s \<Rightarrow>
                    let fp = (case cert of
                          Some (pem, True) \<Rightarrow> (case fps pem of f # _ \<Rightarrow> Some f | [] \<Rightarrow> None)
                        | _ \<Rightarrow> None)
                    in Inr (\<lparr>tk_coordinator = endpoint, tk_secret = s, tk_fp = fp\<rparr>, r))))"

definition export_cfgs :: "'sk app_state \<Rightarrow> network_config list" where
  "export_cfgs a = map (ns_cfg \<circ> snd) (app_nets a)"

section \<open>Import\<close>

fun import_validate ::
    "('sk, 'vk) world \<Rightarrow> (string \<Rightarrow> int \<Rightarrow> ip_addr list) \<Rightarrow> string list \<Rightarrow> network_config list \<Rightarrow> api_error + network_config list" where
  "import_validate W hosts ids [] = Inr []"
| "import_validate W hosts ids (cfg # cfgs) =
     res_bind (valid_name (nc_network_id cfg)) (\<lambda>_.
     res_bind (ensure (nc_network_id cfg \<notin> set ids) bad_request) (\<lambda>_.
     res_bind (res_iter (\<lambda>(name, _, _). valid_name name) (cfg_members cfg)) (\<lambda>_.
     case validate_network_with (w_ipnet W) hosts cfg of
       Inl _ \<Rightarrow> Inl bad_request
     | Inr cfg' \<Rightarrow> res_bind (import_validate W hosts (nc_network_id cfg # ids) cfgs) (\<lambda>rest. Inr (cfg' # rest)))))"

definition cfg_secrets :: "network_config \<Rightarrow> string list" where
  "cfg_secrets cfg = List.map_filter (\<lambda>(_, m, _). map_option str_trim (mc_secret m)) (cfg_members cfg)"

definition import_secrets :: "network_config list \<Rightarrow> 'sk app_state \<Rightarrow> string list" where
  "import_secrets cfgs a = concat (map cfg_secrets cfgs)
     @ concat (map (\<lambda>(_, ns). cfg_secrets (ns_cfg ns))
         (filter (\<lambda>(i, _). i \<notin> set (map nc_network_id cfgs)) (app_nets a)))"

definition import_record :: "nat \<Rightarrow> network_config option \<Rightarrow> network_config \<Rightarrow> member_record \<Rightarrow> member_record" where
  "import_record now old cfg rec =
     (case member_by_name cfg (mr_name rec) of
        None \<Rightarrow> rec
      | Some (m, r) \<Rightarrow>
          if r \<noteq> mr_role rec then retire_record now ''role changed by import'' rec
          else if (case Option.bind old (\<lambda>c. member_by_name c (mr_name rec)) of
                Some (o', _) \<Rightarrow> mc_secret o' \<noteq> None \<and> mc_secret o' \<noteq> mc_secret m | None \<Rightarrow> False)
          then retire_record now ''secret replaced by import'' rec
          else rec)"

text \<open>\<open>rows\<close>: the registry the database has of a network that is not served, \<open>Inl\<close> when it cannot be read.\<close>

definition import_registry ::
    "('sk, 'vk) world \<Rightarrow> nat \<Rightarrow> (string \<Rightarrow> unit + registry option) \<Rightarrow> (string \<Rightarrow> string) \<Rightarrow> 'sk app_state \<Rightarrow> network_config
      \<Rightarrow> api_error + registry" where
  "import_registry W now rows uuid a cfg =
     res_bind (case map_of (ap_nets a) (nc_network_id cfg) of
         Some ns \<Rightarrow> Inr (ns_registry ns)
       | None \<Rightarrow> (case rows (nc_network_id cfg) of
           Inl _ \<Rightarrow> Inl api_internal
         | Inr r \<Rightarrow> Inr (unwrap_or (registry_new (uuid (nc_network_id cfg))) r))) (\<lambda>reg.
     res_bind (validate_assignments (w_ipnet W) cfg reg) (\<lambda>_.
     Inr (reg\<lparr>rg_members := map (\<lambda>(k, rec). (k, import_record now
           (map_option ns_cfg (map_of (ap_nets a) (nc_network_id cfg))) cfg rec)) (rg_members reg)\<rparr>)))"

fun import_registries ::
    "('sk, 'vk) world \<Rightarrow> nat \<Rightarrow> (string \<Rightarrow> unit + registry option) \<Rightarrow> (string \<Rightarrow> string) \<Rightarrow> 'sk app_state \<Rightarrow> network_config list
      \<Rightarrow> api_error + registry list" where
  "import_registries W now rows uuid a [] = Inr []"
| "import_registries W now rows uuid a (cfg # cfgs) =
     res_bind (import_registry W now rows uuid a cfg) (\<lambda>reg.
     res_bind (import_registries W now rows uuid a cfgs) (\<lambda>regs. Inr (reg # regs)))"

definition import_retire :: "network_config \<Rightarrow> registry \<Rightarrow> registry \<Rightarrow> (node_id \<times> string) list" where
  "import_retire cfg old reg =
     List.map_filter (\<lambda>rec.
       if (case map_of (rg_members old) (mr_node_id rec) of Some r \<Rightarrow> mr_login_gen r < mr_login_gen rec | None \<Rightarrow> False)
       then Some (mr_node_id rec, ''credential retired by import'')
       else if member_by_name cfg (mr_name rec) = None then Some (mr_node_id rec, ''member removed by import'')
       else None) (map snd (rg_members reg))"

definition import_net ::
    "('sk, 'vk) world \<Rightarrow> key_info list \<Rightarrow> clock \<Rightarrow> network_config \<Rightarrow> registry \<Rightarrow> net_state \<Rightarrow> net_state" where
  "import_net W keys ck cfg reg ns =
     (let retire = import_retire cfg (ns_registry ns) reg;
          everyone = everyone_must_rejoin (ns_cfg ns) cfg;
          changed = changed_members (ns_cfg ns) cfg;
          ns = ns\<lparr>ns_db := (ns_db ns)\<lparr>db_cfg := Some cfg, db_registry := Some reg\<rparr>, ns_cfg := cfg, ns_registry := reg,
            ns_directory := (ns_directory ns)\<lparr>dr_hold_down_secs := st_hold_down_secs (nc_settings cfg)\<rparr>\<rparr>;
          ns = fold (\<lambda>(node, why). close_session node why) retire ns;
          ns = (if everyone then reconfigure_all ''configuration imported'' ns
                else reconfigure_changed changed ''configuration imported'' ns)
      in publish W keys ck ns)"

definition import_apply ::
    "('sk, 'vk) world \<Rightarrow> clock \<Rightarrow> network_config \<times> registry \<Rightarrow> 'sk app_state \<Rightarrow> 'sk app_state" where
  "import_apply W ck = (\<lambda>(cfg, reg) a.
     case map_of (ap_nets a) (nc_network_id cfg) of
       Some ns \<Rightarrow> a\<lparr>ap_nets := hm_insert (nc_network_id cfg)
           (import_net W (key_infos W (ap_keyring a)) ck cfg reg ns) (ap_nets a)\<rparr>
     | None \<Rightarrow> no_collect (nc_network_id cfg) (add_network W (saved_rows cfg reg) ck cfg reg a))"

text \<open>Networks already served come first, new ones after them.\<close>

definition import_order ::
    "'sk app_state \<Rightarrow> (network_config \<times> registry) list \<Rightarrow> (network_config \<times> registry) list" where
  "import_order a z = filter (\<lambda>(cfg, _). map_of (ap_nets a) (nc_network_id cfg) \<noteq> None) z
     @ filter (\<lambda>(cfg, _). map_of (ap_nets a) (nc_network_id cfg) = None) z"

definition import_all ::
    "('sk, 'vk) world \<Rightarrow> (string \<Rightarrow> int \<Rightarrow> ip_addr list) \<Rightarrow> bool \<Rightarrow> (string \<Rightarrow> unit + registry option) \<Rightarrow> (string \<Rightarrow> string) \<Rightarrow> clock
      \<Rightarrow> network_config list \<Rightarrow> 'sk app_state \<Rightarrow> (api_error + string list) \<times> 'sk app_state" where
  "import_all W hosts save_ok rows uuid ck cfgs a =
     (case import_validate W hosts [] cfgs of
        Inl e \<Rightarrow> (Inl e, a)
      | Inr valid \<Rightarrow>
          let cfgs = sort_key nc_network_id valid in
          if \<not> distinct (import_secrets cfgs a) then (Inl bad_request, a)
          else (case import_registries W (ck_unix ck) rows uuid a cfgs of
             Inl e \<Rightarrow> (Inl e, a)
           | Inr regs \<Rightarrow>
               if \<not> save_ok then (Inl api_internal, a)
               else (Inr (map nc_network_id cfgs), fold (import_apply W ck) (import_order a (zip cfgs regs)) a)))"

end
