(* ===== verification/Nq_Operator.thy ===== *)
theory Nq_Operator
  imports Nq_Admin Nq_Join
begin

text \<open>
  What holds of a network of the coordinator under every operation of members and operators: the
  well-formedness of its tables in every reachable state, and what operator changes promise, from the
  validation of edits to the lock-out of members that were disabled, deleted or given a new secret.
\<close>

section \<open>Well-formed states\<close>

definition cfg_sorted :: "network_config \<Rightarrow> bool" where
  "cfg_sorted cfg \<longleftrightarrow> bt_wf (nc_clients cfg) \<and> bt_wf (nc_relays cfg)"

text \<open>A name is a client or a relay, not both.\<close>

definition cfg_wf :: "network_config \<Rightarrow> bool" where
  "cfg_wf cfg \<longleftrightarrow> cfg_sorted cfg \<and> (\<forall>n. map_of (nc_clients cfg) n = None \<or> map_of (nc_relays cfg) n = None)"

definition reg_ok :: "registry \<Rightarrow> bool" where
  "reg_ok reg \<longleftrightarrow> reg_wf reg \<and> held_once mr_ip4 reg \<and> held_once mr_ip6 reg"

definition sessions_wf :: "(node_id, coord_session) hmap \<Rightarrow> bool" where
  "sessions_wf t \<longleftrightarrow> hm_wf t \<and> (\<forall>n s. map_of t n = Some s \<longrightarrow> cs_node_id s = n)"

definition net_wf :: "net_state \<Rightarrow> bool" where
  "net_wf ns \<longleftrightarrow> cfg_wf (ns_cfg ns) \<and> reg_ok (ns_registry ns) \<and> sessions_wf (ns_sessions ns)
     \<and> (\<forall>cfg. db_cfg (ns_db ns) = Some cfg \<longrightarrow> cfg_wf cfg)
     \<and> (\<forall>reg. db_registry (ns_db ns) = Some reg \<longrightarrow> reg_ok reg)"

lemma net_wf_frame [simp]:
  "net_wf (ns\<lparr>ns_leases := l\<rparr>) = net_wf ns" "net_wf (ns\<lparr>ns_directory := d\<rparr>) = net_wf ns"
  "net_wf (ns\<lparr>ns_closed := c\<rparr>) = net_wf ns" "net_wf (ns\<lparr>ns_flush_scheduled := b\<rparr>) = net_wf ns"
  "net_wf (ns\<lparr>ns_deleted := b\<rparr>) = net_wf ns" "net_wf (ns\<lparr>ns_started_at := t\<rparr>) = net_wf ns"
  "net_wf (ns\<lparr>ns_last_publish_ms := t\<rparr>) = net_wf ns" "net_wf (notify ns) = net_wf ns"
  by (simp_all add: net_wf_def notify_def)

lemma reg_ok_members:
  assumes "reg_ok reg" and "rg_members reg' = rg_members reg" and "rg_next_node_id reg' = rg_next_node_id reg"
  shows "reg_ok reg'"
proof -
  have "reg_wf reg" "held_once mr_ip4 reg" "held_once mr_ip6 reg" using assms(1) by (simp_all add: reg_ok_def)
  from reg_wf_members [OF assms(2,3) this(1)] this(2,3) [THEN held_once_members [OF assms(2)]] show ?thesis
    by (simp add: reg_ok_def)
qed

text \<open>Records may change as long as they keep id, name and addresses.\<close>

definition same_holding :: "member_record \<Rightarrow> member_record \<Rightarrow> bool" where
  "same_holding m m' \<longleftrightarrow> mr_node_id m' = mr_node_id m \<and> mr_name m' = mr_name m \<and> mr_ip4 m' = mr_ip4 m \<and> mr_ip6 m' = mr_ip6 m"

lemma reg_ok_pointwise:
  assumes "reg_ok reg" and "bt_wf (rg_members reg')" and "rg_next_node_id reg' = rg_next_node_id reg"
    and at: "\<And>i m'. map_of (rg_members reg') i = Some m' \<Longrightarrow> \<exists>m. map_of (rg_members reg) i = Some m \<and> same_holding m m'"
  shows "reg_ok reg'"
proof -
  define f where "f = map_of (rg_members reg)"
  define g where "g = map_of (rg_members reg')"
  have old: "f i = Some m \<Longrightarrow> mr_node_id m = i" "f i = Some m \<Longrightarrow> f j = Some n \<Longrightarrow> mr_name m = mr_name n \<Longrightarrow> i = j"
      "f i = Some m \<Longrightarrow> i < rg_next_node_id reg \<or> rg_next_node_id reg = - 1"
      "f i = Some m \<Longrightarrow> f j = Some n \<Longrightarrow> mr_ip4 m = Some a \<Longrightarrow> mr_ip4 n = Some a \<Longrightarrow> i = j"
      "f i = Some m \<Longrightarrow> f j = Some n \<Longrightarrow> mr_ip6 m = Some b \<Longrightarrow> mr_ip6 n = Some b \<Longrightarrow> i = j" for i j m n a b
    using assms(1) unfolding reg_ok_def reg_wf_def held_once_def f_def by blast+
  have new: "\<exists>m. f i = Some m \<and> mr_node_id m' = mr_node_id m \<and> mr_name m' = mr_name m \<and> mr_ip4 m' = mr_ip4 m
      \<and> mr_ip6 m' = mr_ip6 m" if "g i = Some m'" for i m'
    using at [of i m'] that unfolding f_def g_def same_holding_def .
  show ?thesis unfolding reg_ok_def reg_wf_def held_once_def g_def [symmetric] assms(3)
  proof (intro conjI allI impI assms(2))
    show "mr_node_id m = i" if "g i = Some m" for i m using new [OF that] old(1) by metis
    show "i = j" if "g i = Some m" "g j = Some n" "mr_name m = mr_name n" for i m j n
      using new [OF that(1)] new [OF that(2)] that(3) old(2) by metis
    show "i < rg_next_node_id reg \<or> rg_next_node_id reg = - 1" if "g i \<noteq> None" for i
      using that new old(3) by blast
    show "i = j" if "g i = Some m" "g j = Some n" "mr_ip4 m = Some a" "mr_ip4 n = Some a" for i m j n a
      using new [OF that(1)] new [OF that(2)] that(3,4) old(4) by metis
    show "i = j" if "g i = Some m" "g j = Some n" "mr_ip6 m = Some a" "mr_ip6 n = Some a" for i m j n a
      using new [OF that(1)] new [OF that(2)] that(3,4) old(5) by metis
  qed
qed

section \<open>Operations keep states well formed\<close>

lemma net_wf_registry: "net_wf ns \<Longrightarrow> reg_ok reg \<Longrightarrow> net_wf (ns\<lparr>ns_registry := reg\<rparr>)"
  by (simp add: net_wf_def)

lemma net_wf_commit: "net_wf ns \<Longrightarrow> net_wf (snd (commit ns))"
  by (auto simp: net_wf_def commit_def save_registry_def split: option.split)

lemma net_wf_save_config: "net_wf ns \<Longrightarrow> cfg_wf cfg \<Longrightarrow> net_wf (snd (save_config (ns\<lparr>ns_cfg := cfg\<rparr>)))"
  by (auto simp: net_wf_def save_config_def)

lemma sessions_wf_map:
  "(\<And>s. cs_node_id (f s) = cs_node_id s) \<Longrightarrow> sessions_wf t \<Longrightarrow> sessions_wf (map (\<lambda>(n, s). (n, f s)) t)"
  by (auto simp: sessions_wf_def map_of_map_snd comp_def split_def)

lemma session_node_id [simp]:
  "cs_node_id (session_broadcast d s) = cs_node_id s" "cs_node_id (overflow s) = cs_node_id s"
  "cs_node_id (push_deltas ds s) = cs_node_id s" "cs_node_id (session_catch_up dr g s) = cs_node_id s"
  "cs_node_id (writer_turn s) = cs_node_id s"
proof -
  show o': "cs_node_id (overflow s) = cs_node_id s" for s by (simp add: overflow_def conn_close_def)
  have p: "push_send p s = Some s' \<Longrightarrow> cs_node_id s' = cs_node_id s" for p s s'
    by (auto simp: push_send_def split: if_splits)
  show "cs_node_id (session_broadcast d s) = cs_node_id s"
    by (simp add: session_broadcast_def o' p split: option.split)
  show d: "cs_node_id (push_deltas ds s) = cs_node_id s" for ds s
    by (induction ds s rule: push_deltas.induct) (auto simp: o' p split: option.split)
  show "cs_node_id (session_catch_up dr g s) = cs_node_id s"
    by (simp add: session_catch_up_def o' p d split: option.split)
  show "cs_node_id (writer_turn s) = cs_node_id s" by (simp add: writer_turn_def)
qed

lemma net_wf_sessions: "net_wf ns \<Longrightarrow> sessions_wf t \<Longrightarrow> net_wf (ns\<lparr>ns_sessions := t\<rparr>)"
  by (simp add: net_wf_def)

lemma publish_db_cfg [simp]: "db_cfg (ns_db (publish W keys ck ns)) = db_cfg (ns_db ns)"
  by (simp add: publish_def Let_def broadcast_delta_def notify_def save_registry_def note_gen_def
      split: prod.split option.split)

lemma net_wf_publish: "net_wf ns \<Longrightarrow> net_wf (publish W keys ck ns)"
proof -
  assume wf: "net_wf ns"
  let ?p = "publish W keys ck ns"
  have reg: "reg_ok (ns_registry ?p)" using wf reg_ok_members [OF _ publish_fields(1,2)] unfolding net_wf_def by blast
  have "sessions_wf (ns_sessions ?p)"
    by (rule publish_cases [of W ns keys ck]) (use wf in \<open>auto simp: net_wf_def intro: sessions_wf_map\<close>)
  moreover have "\<forall>r. db_registry (ns_db ?p) = Some r \<longrightarrow> reg_ok r"
    using publish_db [of W keys ck ns] reg wf by (auto simp: net_wf_def)
  ultimately show ?thesis using wf reg by (simp add: net_wf_def)
qed

lemma net_wf_publish_soon: "net_wf ns \<Longrightarrow> net_wf (snd (publish_soon W keys ck ns))"
  by (simp add: publish_soon_def Let_def net_wf_publish)

lemma sessions_wf_remove: "sessions_wf t \<Longrightarrow> sessions_wf (hm_remove n t)"
proof -
  assume wf: "sessions_wf t"
  have "cs_node_id s = k" if "map_of (hm_remove n t) k = Some s" for k s
    using that wf unfolding sessions_wf_def delete_conv' by (auto split: if_splits)
  with wf show ?thesis unfolding sessions_wf_def using hm_wf_remove by blast
qed

lemma sessions_wf_insert: "sessions_wf t \<Longrightarrow> cs_node_id s = n \<Longrightarrow> sessions_wf (hm_insert n s t)"
proof -
  assume wf: "sessions_wf t" and id: "cs_node_id s = n"
  have "cs_node_id s' = k" if "map_of (hm_insert n s t) k = Some s'" for k s'
    using that wf id unfolding sessions_wf_def map_of_hm_insert by (auto split: if_splits)
  with wf show ?thesis unfolding sessions_wf_def using hm_wf_insert by blast
qed

lemma net_wf_close: "net_wf ns \<Longrightarrow> net_wf (close_session_with node code why ns)"
  by (simp add: net_wf_def close_session_with_def sessions_wf_remove split: option.split)

lemma net_wf_fold: "(\<And>x ns. net_wf ns \<Longrightarrow> net_wf (f x ns)) \<Longrightarrow> net_wf ns \<Longrightarrow> net_wf (fold f xs ns)"
  by (induction xs arbitrary: ns) auto

lemma net_wf_upd_session:
  assumes "\<And>s. cs_node_id (f s) = cs_node_id s" and "net_wf ns"
  shows "net_wf (upd_session node f ns)"
proof (cases "map_of (ns_sessions ns) node")
  case (Some s)
  with assms have "cs_node_id (f s) = node" unfolding net_wf_def sessions_wf_def by blast
  with Some assms(2) show ?thesis by (simp add: upd_session_def net_wf_def sessions_wf_insert)
qed (use assms(2) in \<open>simp add: upd_session_def\<close>)

lemma net_wf_catch_up: "net_wf ns \<Longrightarrow> net_wf (catch_up node g ns)"
  by (simp add: catch_up_def net_wf_upd_session)

lemma net_wf_join_finish:
  assumes "net_wf a"
  shows "net_wf (snd (join_finish W ks port ck name r m req g routes relay_addr replaced rec a))"
proof -
  obtain e b where c: "commit a = (e, b)" by (rule prod.exhaust)
  have b: "net_wf b" using net_wf_commit [OF assms] c by simp
  show ?thesis
  proof (cases e)
    case (Inl x)
    with c b show ?thesis by (simp add: join_finish_def)
  next
    case (Inr u)
    let ?k = "keyring_active ks"
    show ?thesis
      unfolding join_finish_def c prod.case Inr sum.case Let_def
      by (cases ?k) (auto simp: b intro!: net_wf_publish net_wf_close)
  qed
qed

lemma net_wf_join:
  assumes "net_wf ns" and "rg_next_node_id (ns_registry ns) \<noteq> - 1"
  shows "net_wf (snd (join_locked W ks port ck name req peer_ip ns))"
proof (cases "snd (join_locked W ks port ck name req peer_ip ns) = ns")
  case False
  let ?rp = "is_replaced (reg_by_name (ns_registry ns) name) req"
  have reg: "reg_wf (ns_registry ns)" "held_once mr_ip4 (ns_registry ns)" "held_once mr_ip6 (ns_registry ns)"
    using assms(1) by (simp_all add: net_wf_def reg_ok_def)
  from False obtain m r where mr: "member_now (ns_cfg ns) name (str_trim (jq_secret req)) = Some (m, r)" "\<not> ns_deleted ns"
    by (auto simp: join_locked_def split: option.splits if_splits)
  then have jm: "join_locked W ks port ck name req peer_ip ns = join_member W ks port ck name r m req peer_ip ns"
    by (simp add: join_locked_def)
  from False obtain relay_addr where ra: "join_relay_addr W (ns_cfg ns) name m r peer_ip = Inr relay_addr"
    unfolding jm by (cases "join_relay_addr W (ns_cfg ns) name m r peer_ip") (auto simp: join_member_def)
  from False ra obtain g reg where ja: "join_addresses W ns name m (ck_unix ck) = Inr (g, reg)"
    unfolding jm by (cases "join_addresses W ns name m (ck_unix ck)") (auto simp: join_member_def split: if_splits)
  define routes where "routes = granted_routes (ck_unix ck) (declared_routes (w_ipnet W) r m)
      (case reg_by_name (ns_registry ns) name of Some rec \<Rightarrow> mr_routes rec | None \<Rightarrow> [])"
  define upd where "upd = join_record ?rp (ck_unix ck) req g routes relay_addr peer_ip"
  define reg1 where "reg1 = member_by_name_mut name r (ck_unix ck) upd reg"
  define rec where "rec = upd (record_for reg name r (ck_unix ck))"
  from False ra ja have run: "join_locked W ks port ck name req peer_ip ns =
      join_finish W ks port ck name r m req g routes relay_addr ?rp rec (ns\<lparr>ns_registry := reg1\<rparr>)"
    unfolding jm upd_def reg1_def routes_def rec_def by (auto simp: join_member_def Let_def split: if_splits)
  note ok = join_addresses_ok [OF reg ja]
  have wf: "reg_wf reg" and nx: "rg_next_node_id reg \<noteq> - 1" and sh: "shrinks (ns_registry ns) reg"
    and held: "held_once mr_ip4 reg" "held_once mr_ip6 reg"
    using ok assms(2) held_once_shrinks [OF reg(2) drops_only_ips(1)] held_once_shrinks [OF reg(3) drops_only_ips(2)]
    by (simp_all add: shrinks_def)
  note st = join_stored [OF wf nx held _ _ upd_def reg1_def rec_def]
  have "reg_ok reg1" unfolding reg_ok_def using st(1-3) ok by blast
  then show ?thesis unfolding run by (intro net_wf_join_finish net_wf_registry assms(1))
qed (use assms(1) in simp)

subsection \<open>The control plane\<close>

lemma net_wf_register: "net_wf ns \<Longrightarrow> net_wf (snd (register_session W keys ck i cl have_gen remote ns))"
proof -
  assume wf: "net_wf ns"
  let ?a = "ns\<lparr>ns_sessions := hm_insert (cl_node_id cl) (new_session i cl remote) (ns_sessions ns)\<rparr>"
  let ?p = "publish W keys ck (?a\<lparr>ns_leases := snd (leases_seen (cl_node_id cl) (ck_ms ck) (ns_leases ?a))\<rparr>)"
  have "net_wf ?a"
    using wf by (intro net_wf_sessions sessions_wf_insert) (simp_all add: net_wf_def new_session_def)
  then have p: "net_wf ?p" by (intro net_wf_publish) simp
  show ?thesis
    using wf p net_wf_catch_up [OF p] unfolding register_session_def Let_def by (simp split: option.split)
qed

lemma net_wf_teardown: "net_wf ns \<Longrightarrow> net_wf (teardown W keys ck node i ns)"
proof -
  assume wf: "net_wf ns"
  then have "net_wf (ns\<lparr>ns_sessions := hm_remove node (ns_sessions ns)\<rparr>)"
    by (intro net_wf_sessions sessions_wf_remove) (simp_all add: net_wf_def)
  then have "net_wf (ns\<lparr>ns_sessions := hm_remove node (ns_sessions ns), ns_leases := l, ns_directory := d\<rparr>)" for l d
    by (simp add: net_wf_def)
  with wf show ?thesis unfolding teardown_def Let_def by (auto intro: net_wf_publish)
qed

lemma net_wf_heartbeat_facts: "net_wf ns \<Longrightarrow> net_wf (heartbeat_facts W keys ck node r hb ns)"
proof -
  assume wf: "net_wf ns"
  have mtu: "net_wf (snd (heartbeat_mtu node u a))" if "net_wf a" for a u
    using that by (simp add: heartbeat_mtu_def Let_def)
  have traffic: "net_wf (heartbeat_traffic node r t x a)" if "net_wf a" for a t x
    using that by (simp add: heartbeat_traffic_def split: option.split)
  obtain ch l where lh: "leases_heartbeat node r hb (ck_ms ck)
      (\<lambda>n. case map_of (rg_members (ns_registry ns)) n of Some m \<Rightarrow> mr_role m = Client | None \<Rightarrow> False)
      (length (rg_members (ns_registry ns))) (ns_leases ns) = (ch, l)" by (rule prod.exhaust)
  obtain mc a where hm: "heartbeat_mtu node (hb_usable_mtu hb) (ns\<lparr>ns_leases := l\<rparr>) = (mc, a)" by (rule prod.exhaust)
  have "net_wf a" using mtu [of "ns\<lparr>ns_leases := l\<rparr>" "hb_usable_mtu hb"] wf hm by simp
  then show ?thesis
    unfolding heartbeat_facts_def Let_def lh prod.case hm
    by (auto intro: traffic net_wf_publish_soon)
qed

lemma net_wf_on_heartbeat: "net_wf ns \<Longrightarrow> net_wf (snd (on_heartbeat W keys ck node r hb ns))"
  using net_wf_heartbeat_facts [of ns W keys ck node r hb] by (simp add: on_heartbeat_def Let_def net_wf_catch_up)

lemma net_wf_on_exit_readiness: "net_wf ns \<Longrightarrow> net_wf (snd (on_exit_readiness W keys ck node r er ns))"
  by (simp add: on_exit_readiness_def Let_def net_wf_publish_soon)

lemma net_wf_on_resync: "net_wf ns \<Longrightarrow> net_wf (snd (on_resync ck node g ns))"
  by (simp add: on_resync_def net_wf_catch_up)

lemma net_wf_on_refresh: "net_wf ns \<Longrightarrow> net_wf (snd (on_refresh ck network_id node r fp verdict ns))"
  by (simp add: on_refresh_def Let_def net_wf_upd_session split: sum.split)

lemma net_wf_sweep: "net_wf ns \<Longrightarrow> net_wf (liveness_sweep W keys ck ns)"
proof -
  assume wf: "net_wf ns"
  have gone: "net_wf (sweep_gone node a)" if "net_wf a" for node a
    using that by (simp add: sweep_gone_def Let_def net_wf_close)
  show ?thesis
    unfolding liveness_sweep_def Let_def
    by (auto intro!: net_wf_publish net_wf_fold net_wf_close gone simp: wf split: prod.split)
qed

subsection \<open>The operator\<close>

lemma cfg_sorted_trunc: "cfg_sorted cfg \<Longrightarrow> cfg_sorted (trunc_network I cfg)"
  by (simp add: cfg_sorted_def trunc_network_def comp_def split_def)

lemma validate_wf:
  assumes "validate_network_with I hosts cfg = Inr cfg'" and "cfg_sorted cfg"
  shows "cfg_wf cfg'"
proof -
  from assms have "cfg_sorted cfg'" "check_network I hosts cfg' = Inr ()" using cfg_sorted_trunc by (auto simp: validate_Inr)
  with check_network_Inr(4) [OF this(2)] show ?thesis unfolding cfg_wf_def by (meson map_of_eq_None_iff)
qed

lemma check_edit_Inr:
  "check_edit W hosts cfg reg = Inr cfg' \<longleftrightarrow>
     validate_network_with (w_ipnet W) hosts cfg = Inr cfg' \<and> validate_assignments (w_ipnet W) cfg' reg = Inr ()"
  by (auto simp: check_edit_def res_bind_Inr_conv split: sum.split)

lemma check_edit_wf: "check_edit W hosts cfg reg = Inr cfg' \<Longrightarrow> cfg_sorted cfg \<Longrightarrow> cfg_wf cfg'"
  unfolding check_edit_Inr using validate_wf by blast

lemma cfg_sorted_insert: "cfg_wf cfg \<Longrightarrow> cfg_sorted (insert_member name r m cfg)"
  by (simp add: cfg_wf_def cfg_sorted_def insert_member_def split: role.split)

lemma disjoint_upd:
  assumes "\<forall>n. f n = None \<or> g n = None" and "f k \<noteq> None"
  shows "\<forall>n. (f(k \<mapsto> v)) n = None \<or> g n = None" and "\<forall>n. g n = None \<or> (f(k \<mapsto> v)) n = None"
  using assms by (metis fun_upd_apply)+

lemma cfg_wf_upd:
  assumes "cfg_wf cfg" and "member_by_name_upd name f cfg = Some cfg'"
  shows "cfg_wf cfg'"
proof -
  have d: "\<forall>n. map_of (nc_clients cfg) n = None \<or> map_of (nc_relays cfg) n = None"
    "\<forall>n. map_of (nc_relays cfg) n = None \<or> map_of (nc_clients cfg) n = None"
    using assms(1) unfolding cfg_wf_def by meson+
  have "cfg_sorted cfg" using assms(1) unfolding cfg_wf_def by blast
  with assms(2) have so: "cfg_sorted cfg'" by (auto simp: cfg_sorted_def member_by_name_upd_def split: option.splits)
  show ?thesis
  proof (cases "map_of (nc_clients cfg) name")
    case (Some m)
    then have c: "cfg' = cfg\<lparr>nc_clients := bt_insert name (f m) (nc_clients cfg)\<rparr>"
      using assms(2) by (simp add: member_by_name_upd_def)
    have m: "map_of (nc_clients cfg') = (map_of (nc_clients cfg))(name \<mapsto> f m)" "nc_relays cfg' = nc_relays cfg"
      unfolding c by simp_all
    have "map_of (nc_clients cfg) name \<noteq> None" by (simp add: Some)
    from so disjoint_upd(1) [OF d(1) this] show ?thesis unfolding cfg_wf_def m by (rule conjI)
  next
    case None
    then obtain m where r: "map_of (nc_relays cfg) name = Some m"
        and c: "cfg' = cfg\<lparr>nc_relays := bt_insert name (f m) (nc_relays cfg)\<rparr>"
      using assms(2) by (auto simp: member_by_name_upd_def split: option.splits)
    have m: "map_of (nc_relays cfg') = (map_of (nc_relays cfg))(name \<mapsto> f m)" "nc_clients cfg' = nc_clients cfg"
      unfolding c by simp_all
    have "map_of (nc_relays cfg) name \<noteq> None" by (simp add: r)
    from so disjoint_upd(2) [OF d(2) this] show ?thesis unfolding cfg_wf_def m by (rule conjI)
  qed
qed

lemma disjoint_drop:
  assumes "\<forall>n. f n = None \<or> g n = None"
  shows "\<forall>n. (f(k := None)) n = None \<or> g n = None" and "\<forall>n. f n = None \<or> (g(k := None)) n = None"
  using assms by (metis fun_upd_apply)+

lemma cfg_wf_remove: "cfg_wf cfg \<Longrightarrow> cfg_wf (snd (remove_member name cfg))"
proof -
  assume wf: "cfg_wf cfg"
  then have so: "cfg_sorted cfg" and d: "\<forall>n. map_of (nc_clients cfg) n = None \<or> map_of (nc_relays cfg) n = None"
    unfolding cfg_wf_def by meson+
  have "cfg_sorted (snd (remove_member name cfg))" using so by (simp add: cfg_sorted_def remove_member_def)
  moreover have "\<forall>n. map_of (nc_clients (snd (remove_member name cfg))) n = None
      \<or> map_of (nc_relays (snd (remove_member name cfg))) n = None"
    using disjoint_drop [OF d, of name] by (cases "map_of (nc_clients cfg) name = None") (simp_all add: remove_member_def)
  ultimately show ?thesis unfolding cfg_wf_def by (rule conjI)
qed

lemma cfg_wf_sorted: "cfg_wf cfg \<Longrightarrow> cfg_sorted cfg"
  by (simp add: cfg_wf_def)

lemma net_wf_cfg: "net_wf ns \<Longrightarrow> cfg_wf (ns_cfg ns)"
  by (simp add: net_wf_def)

lemma net_wf_reconfigure: "net_wf ns \<Longrightarrow> net_wf (reconfigure node why ns)"
  by (simp add: reconfigure_def net_wf_close)

lemma net_wf_reconfigure_all: "net_wf ns \<Longrightarrow> net_wf (reconfigure_all why ns)"
  by (simp add: reconfigure_all_def net_wf_fold net_wf_reconfigure)

lemma net_wf_reconfigure_changed: "net_wf ns \<Longrightarrow> net_wf (reconfigure_changed names why ns)"
  unfolding reconfigure_changed_def by (rule net_wf_fold) (auto simp: net_wf_reconfigure split: option.split)

lemma net_wf_close_session: "net_wf ns \<Longrightarrow> net_wf (close_session node why ns)"
  by (simp add: close_session_def net_wf_close)

lemmas net_wf_intros = net_wf_publish net_wf_close_session net_wf_reconfigure_all net_wf_reconfigure_changed

text \<open>An edit saves the changed configuration and goes on from there.\<close>

lemma net_wf_saved:
  assumes "net_wf ns" and "cfg_wf cfg" and "\<And>a. net_wf a \<Longrightarrow> net_wf (snd (f a))"
  shows "net_wf (snd (case save_config (ns\<lparr>ns_cfg := cfg\<rparr>) of (Inl e, a) \<Rightarrow> (Inl e, a) | (Inr _, a) \<Rightarrow> f a))"
  using net_wf_save_config [OF assms(1,2)] assms(3)
  by (cases "save_config (ns\<lparr>ns_cfg := cfg\<rparr>)") (auto split: sum.split)

lemma net_wf_committed:
  assumes "net_wf ns" and "reg_ok reg" and "\<And>a. net_wf a \<Longrightarrow> net_wf (snd (f a))"
  shows "net_wf (snd (case commit (ns\<lparr>ns_registry := reg\<rparr>) of (Inl e, a) \<Rightarrow> (Inl e, a) | (Inr _, a) \<Rightarrow> f a))"
  using net_wf_commit [OF net_wf_registry [OF assms(1,2)]] assms(3)
  by (cases "commit (ns\<lparr>ns_registry := reg\<rparr>)") (auto split: sum.split)

lemma net_wf_update_network: "net_wf ns \<Longrightarrow> net_wf (snd (update_network W hosts keys ck sp ns))"
proof -
  assume wf: "net_wf ns"
  let ?c = "check_edit W hosts ((ns_cfg ns)\<lparr>nc_cidrs := spec_cidrs sp, nc_settings := sp_settings sp\<rparr>) (ns_registry ns)"
  show ?thesis
  proof (cases ?c)
    case (Inr cfg)
    then have "cfg_wf cfg" using net_wf_cfg [OF wf] by (elim check_edit_wf) (simp add: cfg_wf_def cfg_sorted_def)
    with Inr wf show ?thesis
      by (auto simp: update_network_def Let_def intro!: net_wf_saved net_wf_intros)
  qed (simp add: update_network_def wf)
qed

lemma net_wf_create_member: "net_wf ns \<Longrightarrow> net_wf (snd (create_member W hosts secret name r sp ns))"
proof -
  assume wf: "net_wf ns"
  let ?c = "check_edit W hosts (insert_member name r ((spec_apply sp member_cfg_default)\<lparr>mc_secret := Some secret\<rparr>)
      (ns_cfg ns)) (ns_registry ns)"
  show ?thesis
  proof (cases ?c)
    case (Inr cfg)
    then have "cfg_wf cfg" using net_wf_cfg [OF wf] by (elim check_edit_wf) (rule cfg_sorted_insert)
    with Inr wf show ?thesis by (auto simp: create_member_def intro!: net_wf_saved)
  qed (simp add: create_member_def wf)
qed

lemma net_wf_update_member: "net_wf ns \<Longrightarrow> net_wf (snd (update_member W hosts keys ck name sp ns))"
proof -
  assume wf: "net_wf ns"
  show ?thesis
  proof (cases "member_by_name_upd name (spec_apply sp) (ns_cfg ns)")
    case (Some c)
    note c = cfg_wf_upd [OF net_wf_cfg [OF wf] Some]
    show ?thesis
    proof (cases "check_edit W hosts c (ns_registry ns)")
      case (Inr cfg)
      with Some wf check_edit_wf [OF Inr cfg_wf_sorted [OF c]] show ?thesis
        by (auto simp: update_member_def Let_def intro!: net_wf_saved net_wf_intros)
    qed (simp add: update_member_def Some wf)
  qed (simp add: update_member_def wf)
qed

lemma reg_ok_upd_record:
  assumes "reg_ok reg" and "\<And>rec. same_holding rec (f rec)"
  shows "reg_ok (upd_record node f reg)"
proof (cases "map_of (rg_members reg) node")
  case (Some rec)
  let ?r = "reg\<lparr>rg_members := bt_insert node (f rec) (rg_members reg)\<rparr>"
  have "\<exists>m. map_of (rg_members reg) i = Some m \<and> same_holding m m'" if "map_of (rg_members ?r) i = Some m'" for i m'
  proof (cases "i = node")
    case True
    with that assms(2) [of rec] Some show ?thesis by simp
  next
    case False
    with that show ?thesis by (simp add: same_holding_def)
  qed
  moreover have "bt_wf (rg_members ?r)" using assms(1) by (simp add: reg_ok_def reg_wf_def)
  ultimately have "reg_ok ?r" by (intro reg_ok_pointwise [OF assms(1), of ?r]) simp_all
  with Some show ?thesis by (simp add: upd_record_def)
qed (simp add: upd_record_def assms(1))

lemma reg_ok_remove: "reg_ok reg \<Longrightarrow> reg_ok (reg\<lparr>rg_members := bt_remove node (rg_members reg)\<rparr>)"
proof (rule reg_ok_pointwise)
  fix i m' assume "map_of (rg_members (reg\<lparr>rg_members := bt_remove node (rg_members reg)\<rparr>)) i = Some m'"
  then show "\<exists>m. map_of (rg_members reg) i = Some m \<and> same_holding m m'"
    by (cases "i = node") (simp_all add: same_holding_def)
qed (simp_all add: reg_ok_def reg_wf_def)

lemma reg_ok_import:
  assumes "reg_ok reg"
  shows "reg_ok (reg\<lparr>rg_members := map (\<lambda>(k, rec). (k, import_record now old cfg rec)) (rg_members reg)\<rparr>)"
proof (rule reg_ok_pointwise [OF assms])
  fix i m' assume "map_of (rg_members (reg\<lparr>rg_members := map (\<lambda>(k, rec). (k, import_record now old cfg rec)) (rg_members reg)\<rparr>)) i
      = Some m'"
  then have "map_option (import_record now old cfg) (map_of (rg_members reg) i) = Some m'" by (simp add: map_of_map_snd)
  moreover have "same_holding rec (import_record now old cfg rec)" for rec
    by (simp add: same_holding_def import_record_def retire_record_def split: option.split)
  ultimately show "\<exists>m. map_of (rg_members reg) i = Some m \<and> same_holding m m'"
    by (cases "map_of (rg_members reg) i") auto
next
  show "bt_wf (rg_members (reg\<lparr>rg_members := map (\<lambda>(k, rec). (k, import_record now old cfg rec)) (rg_members reg)\<rparr>))"
    using assms by (simp add: reg_ok_def reg_wf_def comp_def split_def)
qed simp

lemma net_wf_reg: "net_wf ns \<Longrightarrow> reg_ok (ns_registry ns)"
  by (simp add: net_wf_def)

lemma net_wf_rotate_member: "net_wf ns \<Longrightarrow> net_wf (snd (rotate_member W secret keys ck name ns))"
proof -
  assume wf: "net_wf ns"
  have rest: "net_wf (snd (case reg_id_of (ns_registry a) name of None \<Rightarrow> (Inr secret, a)
      | Some node \<Rightarrow> (case commit (a\<lparr>ns_registry := upd_record node (retire_record (ck_unix ck) ''secret rotated'')
             (ns_registry a)\<rparr>) of (Inl e, ns) \<Rightarrow> (Inl e, ns)
          | (Inr _, ns) \<Rightarrow> (Inr secret, publish W keys ck (close_session node ''secret rotated'' ns)))))"
    if "net_wf a" for a
    using that net_wf_reg [OF that]
    by (cases "reg_id_of (ns_registry a) name")
      (auto intro!: net_wf_committed reg_ok_upd_record net_wf_intros simp: same_holding_def retire_record_def)
  show ?thesis
  proof (cases "member_by_name_upd name (\<lambda>m. m\<lparr>mc_secret := Some secret\<rparr>) (ns_cfg ns)")
    case (Some c)
    show ?thesis unfolding rotate_member_def Some option.case
      by (rule net_wf_saved [OF wf cfg_wf_upd [OF net_wf_cfg [OF wf] Some] rest])
  qed (simp add: rotate_member_def wf)
qed

lemma net_wf_delete_member: "net_wf ns \<Longrightarrow> net_wf (snd (delete_member W keys ck name ns))"
proof -
  assume wf: "net_wf ns"
  obtain b cfg where rm: "remove_member name (ns_cfg ns) = (b, cfg)" by (rule prod.exhaust)
  have c: "cfg_wf cfg" using cfg_wf_remove [OF net_wf_cfg [OF wf], of name] rm by simp
  have fg: "net_wf a \<Longrightarrow> net_wf (forget_node node a)" for node a
    by (simp add: forget_node_def Let_def net_wf_close_session)
  have rest: "net_wf (snd (case n of None \<Rightarrow> (Inr (), publish W keys ck a)
      | Some node \<Rightarrow> (case commit (a\<lparr>ns_registry := (ns_registry a)\<lparr>rg_members := bt_remove node (rg_members (ns_registry a))\<rparr>\<rparr>) of
            (Inl e, ns) \<Rightarrow> (Inl e, ns) | (Inr _, ns) \<Rightarrow> (Inr (), publish W keys ck (forget_node node ns)))))"
    if "net_wf a" for a n
    using that net_wf_reg [OF that]
    by (cases n) (auto intro!: net_wf_committed reg_ok_remove net_wf_intros fg)
  have "net_wf (ns\<lparr>ns_cfg := cfg\<rparr>)" using wf c by (simp add: net_wf_def)
  then show ?thesis
    unfolding delete_member_def rm Let_def prod.case by (auto intro!: net_wf_saved [OF wf c] rest)
qed

lemma net_wf_set_disabled: "net_wf ns \<Longrightarrow> net_wf (snd (set_disabled W keys ck name disabled ns))"
proof -
  assume wf: "net_wf ns"
  have dn: "net_wf a \<Longrightarrow> net_wf (disable_node node r a)" for node r a
    by (simp add: disable_node_def Let_def net_wf_close_session)
  have rest: "net_wf (snd (case commit (ns\<lparr>ns_registry := upd_record node (\<lambda>rec. rec\<lparr>mr_disabled := disabled\<rparr>) (ns_registry ns)\<rparr>) of
      (Inl e, ns) \<Rightarrow> (Inl e, ns)
      | (Inr _, ns) \<Rightarrow> (Inr (), publish W keys ck (if disabled then disable_node node r ns else ns))))" for node r
    using wf net_wf_reg [OF wf]
    by (intro net_wf_committed reg_ok_upd_record) (auto intro!: net_wf_intros dn simp: same_holding_def)
  show ?thesis using wf rest unfolding set_disabled_def by (simp split: option.split)
qed

lemma net_wf_delete_net: "net_wf ns \<Longrightarrow> net_wf (snd (delete_net ns))"
proof -
  assume wf: "net_wf ns"
  then have "net_wf (ns\<lparr>ns_db := (ns_db ns)\<lparr>db_cfg := None, db_registry := None\<rparr>, ns_deleted := True\<rparr>)"
    by (simp add: net_wf_def)
  then show ?thesis using wf unfolding delete_net_def Let_def by (auto intro!: net_wf_fold net_wf_close_session)
qed

lemma net_wf_import_net:
  assumes "net_wf ns" and "cfg_wf cfg" and "reg_ok reg"
  shows "net_wf (import_net W keys ck cfg reg ns)"
proof -
  let ?d = "(ns_directory ns)\<lparr>dr_hold_down_secs := st_hold_down_secs (nc_settings cfg)\<rparr>"
  have "net_wf (ns\<lparr>ns_db := (ns_db ns)\<lparr>db_cfg := Some cfg, db_registry := Some reg\<rparr>, ns_cfg := cfg, ns_registry := reg,
      ns_directory := ?d\<rparr>)"
    using assms by (simp add: net_wf_def)
  then show ?thesis
    unfolding import_net_def Let_def by (auto intro!: net_wf_intros net_wf_fold split: prod.split)
qed

section \<open>Reachable states\<close>

text \<open>
  Every operation on a network, in any order: those of members and of the control plane, the sweep and
  the writer tasks, and those of the operator. A join needs a free node id.
\<close>

inductive net_reach :: "('sk, 'vk) world \<Rightarrow> net_state \<Rightarrow> bool" for W :: "('sk, 'vk) world" where
  start: "cfg_wf cfg \<Longrightarrow> reg_ok reg \<Longrightarrow> net_reach W (net_state_new W cfg reg (saved_rows cfg reg) ck)"
| join: "net_reach W ns \<Longrightarrow> rg_next_node_id (ns_registry ns) \<noteq> - 1
    \<Longrightarrow> net_reach W (snd (join_locked W ks port ck name req peer_ip ns))"
| register: "net_reach W ns \<Longrightarrow> net_reach W (snd (register_session W keys ck i cl have_gen remote ns))"
| teardown: "net_reach W ns \<Longrightarrow> net_reach W (teardown W keys ck node i ns)"
| heartbeat: "net_reach W ns \<Longrightarrow> net_reach W (snd (on_heartbeat W keys ck node r hb ns))"
| exit_readiness: "net_reach W ns \<Longrightarrow> net_reach W (snd (on_exit_readiness W keys ck node r er ns))"
| resync: "net_reach W ns \<Longrightarrow> net_reach W (snd (on_resync ck node g ns))"
| refresh: "net_reach W ns \<Longrightarrow> net_reach W (snd (on_refresh ck network_id node r fp verdict ns))"
| sweep: "net_reach W ns \<Longrightarrow> net_reach W (liveness_sweep W keys ck ns)"
| flush: "net_reach W ns \<Longrightarrow> net_reach W (flush_due W keys ck ns)"
| writer: "net_reach W ns \<Longrightarrow> net_reach W (upd_session node writer_turn ns)"
| update_network: "net_reach W ns \<Longrightarrow> net_reach W (snd (update_network W hosts keys ck sp ns))"
| create_member: "net_reach W ns \<Longrightarrow> net_reach W (snd (create_member W hosts secret name r ms ns))"
| update_member: "net_reach W ns \<Longrightarrow> net_reach W (snd (update_member W hosts keys ck name ms ns))"
| rotate_member: "net_reach W ns \<Longrightarrow> net_reach W (snd (rotate_member W secret keys ck name ns))"
| delete_member: "net_reach W ns \<Longrightarrow> net_reach W (snd (delete_member W keys ck name ns))"
| set_disabled: "net_reach W ns \<Longrightarrow> net_reach W (snd (set_disabled W keys ck name disabled ns))"
| delete_net: "net_reach W ns \<Longrightarrow> net_reach W (snd (delete_net ns))"
| import_net: "net_reach W ns \<Longrightarrow> validate_network_with (w_ipnet W) hosts imported = Inr cfg \<Longrightarrow> cfg_sorted imported
    \<Longrightarrow> net_reach W (import_net W keys ck cfg ((ns_registry ns)\<lparr>rg_members :=
          map (\<lambda>(k, rec). (k, import_record (ck_unix ck) (Some (ns_cfg ns)) cfg rec)) (rg_members (ns_registry ns))\<rparr>) ns)"

lemma net_wf_new: "cfg_wf cfg \<Longrightarrow> reg_ok reg \<Longrightarrow> net_wf (net_state_new W cfg reg (saved_rows cfg reg) ck)"
  by (simp add: net_wf_def net_state_new_def saved_rows_def sessions_wf_def)

lemma net_reach_wf: "net_reach W ns \<Longrightarrow> net_wf ns"
proof (induction rule: net_reach.induct)
  case (import_net ns hosts imported cfg keys ck)
  with validate_wf reg_ok_import [OF net_wf_reg [OF import_net.IH]] show ?case by (intro net_wf_import_net) auto
qed (auto simp: flush_due_def intro!: net_wf_new net_wf_join net_wf_register net_wf_teardown net_wf_on_heartbeat
    net_wf_on_exit_readiness net_wf_on_resync net_wf_on_refresh net_wf_sweep net_wf_publish net_wf_upd_session
    net_wf_update_network net_wf_create_member net_wf_update_member net_wf_rotate_member net_wf_delete_member
    net_wf_set_disabled net_wf_delete_net)

section \<open>What changes leave behind\<close>

lemma close_session_fields [simp]:
  "ns_cfg (close_session node why ns) = ns_cfg ns" "ns_registry (close_session node why ns) = ns_registry ns"
  "ns_db (close_session node why ns) = ns_db ns" "ns_deleted (close_session node why ns) = ns_deleted ns"
  by (simp_all add: close_session_def close_session_with_def split: option.split)

lemma close_session_gone [simp]: "map_of (ns_sessions (close_session node why ns)) node = None"
  by (simp add: close_session_def close_session_with_def delete_conv' split: option.split)

lemma publish_gone: "map_of (ns_sessions ns) n = None \<Longrightarrow> map_of (ns_sessions (publish W keys ck ns)) n = None"
  using publish_sessions [of W keys ck ns n] by (metis not_Some_eq)

lemma save_config_Inr:
  "save_config ns = (Inr u, b) \<Longrightarrow> b = ns\<lparr>ns_db := (ns_db ns)\<lparr>db_cfg := Some (ns_cfg ns)\<rparr>\<rparr>"
  by (simp add: save_config_def split: if_splits)

lemma save_config_Inl: "save_config ns = (Inl e, b) \<Longrightarrow> e = api_internal \<and> \<not> db_save_ok (ns_db ns) \<and> b = ns"
  by (simp add: save_config_def split: if_splits)

lemma member_by_name_upd_Some:
  assumes "member_by_name_upd name f cfg = Some cfg'"
  obtains m r where "member_by_name cfg name = Some (m, r)" "member_by_name cfg' name = Some (f m, r)"
  using assms by (auto simp: member_by_name_upd_def member_by_name_def split: option.splits)

lemma rotate_member_Inr:
  assumes "rotate_member W secret keys ck name ns = (Inr s, ns')"
  obtains m r where "s = secret" "member_by_name (ns_cfg ns) name = Some (m, r)"
    "member_by_name (ns_cfg ns') name = Some (m\<lparr>mc_secret := Some secret\<rparr>, r)" "db_cfg (ns_db ns') = Some (ns_cfg ns')"
    "\<forall>node. reg_id_of (ns_registry ns) name = Some node \<longrightarrow> map_of (ns_sessions ns') node = None
       \<and> rg_members (ns_registry ns') =
           rg_members (upd_record node (retire_record (ck_unix ck) ''secret rotated'') (ns_registry ns))"
proof -
  from assms obtain c where c: "member_by_name_upd name (\<lambda>m. m\<lparr>mc_secret := Some secret\<rparr>) (ns_cfg ns) = Some c"
    by (auto simp: rotate_member_def split: option.splits)
  obtain x a where sv: "save_config (ns\<lparr>ns_cfg := c\<rparr>) = (x, a)" by (rule prod.exhaust)
  with assms c obtain u where x: "x = Inr u" by (cases x) (auto simp: rotate_member_def)
  note a = save_config_Inr [OF sv [unfolded x]]
  obtain m r where mr: "member_by_name (ns_cfg ns) name = Some (m, r)"
      "member_by_name c name = Some (m\<lparr>mc_secret := Some secret\<rparr>, r)"
    using member_by_name_upd_Some [OF c] by blast
  show thesis
  proof (cases "reg_id_of (ns_registry ns) name")
    case None
    with assms c sv x a have "s = secret" "ns' = a" by (simp_all add: rotate_member_def)
    with mr None a show thesis by (intro that) auto
  next
    case (Some node)
    let ?reg = "upd_record node (retire_record (ck_unix ck) ''secret rotated'') (ns_registry ns)"
    obtain y b where cm: "commit (a\<lparr>ns_registry := ?reg\<rparr>) = (y, b)" by (rule prod.exhaust)
    with assms c sv x a Some obtain v where y: "y = Inr v" by (cases y) (auto simp: rotate_member_def)
    note b = commit_Inr [OF cm [unfolded y]]
    from assms c sv x a Some cm y have r: "s = secret" "ns' = publish W keys ck (close_session node ''secret rotated'' b)"
      by (simp_all add: rotate_member_def)
    show thesis
      by (rule that [OF r(1) mr(1)]) (use mr(2) a b Some in \<open>auto simp: r(2) publish_gone\<close>)
  qed
qed

lemma set_disabled_Inr:
  assumes "set_disabled W keys ck name disabled ns = (Inr u, ns')"
  obtains node rec where "reg_id_of (ns_registry ns) name = Some node" "map_of (rg_members (ns_registry ns)) node = Some rec"
    "rg_members (ns_registry ns') = bt_insert node (rec\<lparr>mr_disabled := disabled\<rparr>) (rg_members (ns_registry ns))"
    "ns_cfg ns' = ns_cfg ns" "disabled \<longrightarrow> map_of (ns_sessions ns') node = None"
proof -
  from assms obtain node rec where nr: "reg_id_of (ns_registry ns) name = Some node"
      "map_of (rg_members (ns_registry ns)) node = Some rec"
    by (auto simp: set_disabled_def split: option.splits)
  let ?reg = "upd_record node (\<lambda>rec. rec\<lparr>mr_disabled := disabled\<rparr>) (ns_registry ns)"
  obtain y b where cm: "commit (ns\<lparr>ns_registry := ?reg\<rparr>) = (y, b)" by (rule prod.exhaust)
  with assms nr obtain v where y: "y = Inr v" by (cases y) (auto simp: set_disabled_def)
  note b = commit_Inr [OF cm [unfolded y]]
  from assms nr cm y have r: "ns' = publish W keys ck (if disabled then disable_node node (mr_role rec) b else b)"
    by (simp add: set_disabled_def)
  show thesis
    by (rule that [OF nr]) (use b nr in \<open>auto simp: r disable_node_def Let_def upd_record_def publish_gone\<close>)
qed

lemma delete_member_Inr:
  assumes "delete_member W keys ck name ns = (Inr u, ns')"
  shows "ns_cfg ns' = snd (remove_member name (ns_cfg ns))"
    and "reg_id_of (ns_registry ns) name = Some node \<Longrightarrow> map_of (ns_sessions ns') node = None
      \<and> rg_members (ns_registry ns') = bt_remove node (rg_members (ns_registry ns))"
    and "reg_id_of (ns_registry ns) name = None \<Longrightarrow> rg_members (ns_registry ns') = rg_members (ns_registry ns)"
proof -
  obtain inc cfg where rm: "remove_member name (ns_cfg ns) = (inc, cfg)" by (rule prod.exhaust)
  obtain x a where sv: "save_config (ns\<lparr>ns_cfg := cfg\<rparr>) = (x, a)" by (rule prod.exhaust)
  from assms rm sv obtain u' where x: "x = Inr u'" by (cases x) (auto simp: delete_member_def Let_def split: if_splits)
  note a = save_config_Inr [OF sv [unfolded x]]
  have run: "ns_cfg ns' = cfg
      \<and> (case reg_id_of (ns_registry ns) name of
           None \<Rightarrow> rg_members (ns_registry ns') = rg_members (ns_registry ns)
         | Some node \<Rightarrow> map_of (ns_sessions ns') node = None
             \<and> rg_members (ns_registry ns') = bt_remove node (rg_members (ns_registry ns)))"
  proof (cases "reg_id_of (ns_registry ns) name")
    case None
    with assms rm sv x have "ns' = publish W keys ck a" by (auto simp: delete_member_def Let_def split: if_splits)
    with None a show ?thesis by simp
  next
    case (Some node)
    let ?reg = "(ns_registry a)\<lparr>rg_members := bt_remove node (rg_members (ns_registry a))\<rparr>"
    obtain y b where cm: "commit (a\<lparr>ns_registry := ?reg\<rparr>) = (y, b)" by (rule prod.exhaust)
    with assms rm sv x Some obtain v where y: "y = Inr v"
      by (cases y) (auto simp: delete_member_def Let_def split: if_splits)
    note b = commit_Inr [OF cm [unfolded y]]
    from assms rm sv x Some cm y have "ns' = publish W keys ck (forget_node node b)"
      by (auto simp: delete_member_def Let_def split: if_splits)
    with Some a b show ?thesis by (auto simp: forget_node_def Let_def intro!: publish_gone)
  qed
  from run rm show "ns_cfg ns' = snd (remove_member name (ns_cfg ns))" by simp
  from run show "map_of (ns_sessions ns') node = None
      \<and> rg_members (ns_registry ns') = bt_remove node (rg_members (ns_registry ns))"
    if "reg_id_of (ns_registry ns) name = Some node" using that by simp
  from run show "rg_members (ns_registry ns') = rg_members (ns_registry ns)"
    if "reg_id_of (ns_registry ns) name = None" using that by simp
qed

lemma remove_member_gone: "cfg_wf cfg \<Longrightarrow> member_by_name (snd (remove_member name cfg)) name = None"
proof -
  assume "cfg_wf cfg"
  then have d: "map_of (nc_clients cfg) name = None \<or> map_of (nc_relays cfg) name = None" unfolding cfg_wf_def by meson
  then show ?thesis by (auto simp: member_by_name_def remove_member_def)
qed

lemma verify_credential_record:
  assumes "verify_credential W ks nets token fp now = Inr (cl, i)" and "map_of nets i = Some ns" and "reg_ok (ns_registry ns)"
  obtains rec where "map_of (rg_members (ns_registry ns)) (cl_node_id cl) = Some rec" "\<not> mr_disabled rec"
    "mr_login_gen rec \<le> cl_login_gen cl"
proof (cases rule: verify_credential_Inr [OF assms(1)])
  case (1 ns2 j rec)
  have "ns2 = ns" using 1(1) assms(2) by simp
  moreover have "reg_wf (ns_registry ns)" using assms(3) by (simp add: reg_ok_def)
  then have "mr_node_id rec = j" using reg_wfD(2) 1(4) \<open>ns2 = ns\<close> by blast
  ultimately show thesis using that 1(4-7) by simp
qed

section \<open>Edits\<close>

text \<open>Every address a member holds is in range, and no reservation is for an address someone else holds.\<close>

definition assignments_ok :: "ipnet \<Rightarrow> network_config \<Rightarrow> registry \<Rightarrow> bool" where
  "assignments_ok I cfg reg \<longleftrightarrow>
     (\<forall>rec \<in> snd ` set (rg_members reg). \<forall>ip \<in> set (record_addrs rec). in_tunnel I cfg ip)
   \<and> (\<forall>(name, m, _) \<in> set (cfg_members cfg). \<forall>ip \<in> set (static_addrs m). \<forall>rec \<in> snd ` set (rg_members reg).
        mr_name rec \<noteq> name \<longrightarrow> ip \<notin> set (record_addrs rec))"

lemma validate_assignments_Inr: "validate_assignments I cfg reg = Inr () \<longleftrightarrow> assignments_ok I cfg reg"
  by (simp add: validate_assignments_def assignments_ok_def res_bind_Inr_conv res_iter_Inr in_tunnel_def find_None_iff
      split_def) blast

lemma close_with_fields [simp]:
  "ns_cfg (close_session_with node code why ns) = ns_cfg ns"
  "ns_registry (close_session_with node code why ns) = ns_registry ns"
  "ns_db (close_session_with node code why ns) = ns_db ns"
  by (simp_all add: close_session_with_def split: option.split)

lemma reconfigure_fields [simp]:
  "ns_cfg (reconfigure_all why ns) = ns_cfg ns" "ns_registry (reconfigure_all why ns) = ns_registry ns"
  "ns_db (reconfigure_all why ns) = ns_db ns" "ns_cfg (reconfigure_changed names why ns) = ns_cfg ns"
  "ns_registry (reconfigure_changed names why ns) = ns_registry ns" "ns_db (reconfigure_changed names why ns) = ns_db ns"
proof -
  have f: "ns_cfg (fold (\<lambda>node. reconfigure node why) xs a) = ns_cfg a
      \<and> ns_registry (fold (\<lambda>node. reconfigure node why) xs a) = ns_registry a
      \<and> ns_db (fold (\<lambda>node. reconfigure node why) xs a) = ns_db a" for xs a
    by (induction xs arbitrary: a) (simp_all add: reconfigure_def)
  then show "ns_cfg (reconfigure_all why ns) = ns_cfg ns" "ns_registry (reconfigure_all why ns) = ns_registry ns"
      "ns_db (reconfigure_all why ns) = ns_db ns" by (simp_all add: reconfigure_all_def)
  have "ns_cfg (reconfigure_changed xs why a) = ns_cfg a \<and> ns_registry (reconfigure_changed xs why a) = ns_registry a
      \<and> ns_db (reconfigure_changed xs why a) = ns_db a" for xs a
    by (induction xs arbitrary: a) (simp_all add: reconfigure_changed_def reconfigure_def split: option.split)
  then show "ns_cfg (reconfigure_changed names why ns) = ns_cfg ns"
      "ns_registry (reconfigure_changed names why ns) = ns_registry ns"
      "ns_db (reconfigure_changed names why ns) = ns_db ns" by simp_all
qed

text \<open>
  How an edit may end: applied, valid, consistent with the addresses in use and saved; or refused, which
  leaves the network as it was unless the database itself failed.
\<close>

definition edit_outcome ::
    "('sk, 'vk) world \<Rightarrow> (string \<Rightarrow> int \<Rightarrow> ip_addr list) \<Rightarrow> net_state \<Rightarrow> (api_error + 'a) \<times> net_state \<Rightarrow> bool" where
  "edit_outcome W hosts ns = (\<lambda>(res, ns').
     case res of
       Inr _ \<Rightarrow> (\<exists>cfg. validate_network_with (w_ipnet W) hosts cfg = Inr (ns_cfg ns'))
         \<and> assignments_ok (w_ipnet W) (ns_cfg ns') (ns_registry ns) \<and> rg_members (ns_registry ns') = rg_members (ns_registry ns)
         \<and> db_cfg (ns_db ns') = Some (ns_cfg ns')
     | Inl e \<Rightarrow> ns' = ns \<or> (e = api_internal \<and> \<not> db_save_ok (ns_db ns)))"

lemma edit_outcome_saved:
  assumes "check_edit W hosts c (ns_registry ns) = Inr cfg"
    and "\<And>a. ns_cfg (snd (f a)) = ns_cfg a \<and> rg_members (ns_registry (snd (f a))) = rg_members (ns_registry a)
        \<and> db_cfg (ns_db (snd (f a))) = db_cfg (ns_db a) \<and> (\<exists>x. fst (f a) = Inr x)"
  shows "edit_outcome W hosts ns
      (case save_config (ns\<lparr>ns_cfg := cfg\<rparr>) of (Inl e, a) \<Rightarrow> (Inl e, a) | (Inr _, a) \<Rightarrow> f a)"
proof -
  obtain x a where sv: "save_config (ns\<lparr>ns_cfg := cfg\<rparr>) = (x, a)" by (rule prod.exhaust)
  show ?thesis
  proof (cases x)
    case (Inl e)
    with sv save_config_Inl [OF sv [unfolded Inl]] show ?thesis by (simp add: edit_outcome_def)
  next
    case (Inr u)
    obtain y b where fa: "f a = (Inr y, b)" using assms(2) [of a] by (metis prod.collapse)
    have "a = ns\<lparr>ns_cfg := cfg, ns_db := (ns_db ns)\<lparr>db_cfg := Some cfg\<rparr>\<rparr>"
      using save_config_Inr [OF sv [unfolded Inr]] by simp
    with sv Inr fa assms(2) [of a] assms(1) show ?thesis
      by (auto simp: edit_outcome_def check_edit_Inr validate_assignments_Inr)
  qed
qed

lemma update_network_outcome: "edit_outcome W hosts ns (update_network W hosts keys ck sp ns)"
proof (cases "check_edit W hosts ((ns_cfg ns)\<lparr>nc_cidrs := spec_cidrs sp, nc_settings := sp_settings sp\<rparr>) (ns_registry ns)")
  case (Inr cfg)
  show ?thesis unfolding update_network_def Inr sum.case Let_def by (rule edit_outcome_saved [OF Inr]) simp
qed (simp add: update_network_def edit_outcome_def)

lemma create_member_outcome: "edit_outcome W hosts ns (create_member W hosts secret name r ms ns)"
proof (cases "member_by_name (ns_cfg ns) name = None")
  case True
  let ?c = "insert_member name r ((spec_apply ms member_cfg_default)\<lparr>mc_secret := Some secret\<rparr>) (ns_cfg ns)"
  show ?thesis
  proof (cases "check_edit W hosts ?c (ns_registry ns)")
    case (Inr cfg)
    show ?thesis unfolding create_member_def Inr sum.case using True
      by (simp add: edit_outcome_saved [OF Inr] notify_def)
  qed (simp add: create_member_def edit_outcome_def True)
qed (simp add: create_member_def edit_outcome_def)

lemma update_member_outcome: "edit_outcome W hosts ns (update_member W hosts keys ck name ms ns)"
proof (cases "member_by_name_upd name (spec_apply ms) (ns_cfg ns)")
  case (Some c)
  show ?thesis
  proof (cases "check_edit W hosts c (ns_registry ns)")
    case (Inr cfg)
    show ?thesis unfolding update_member_def Some option.case Inr sum.case Let_def
      by (rule edit_outcome_saved [OF Inr]) (simp add: notify_def)
  qed (simp add: update_member_def edit_outcome_def Some)
qed (simp add: update_member_def edit_outcome_def)

text \<open>An edit that was waiting for the lock of a network while it was deleted writes its row again.\<close>

lemma edit_revives_deleted_network:
  assumes "delete_net ns = (Inr u, ns1)" and "update_member W hosts keys ck name ms ns1 = (Inr v, ns2)"
  shows "db_cfg (ns_db ns1) = None \<and> db_cfg (ns_db ns2) = Some (ns_cfg ns2)"
proof -
  have "ns_db (fold (\<lambda>n. close_session n ''network deleted'') xs a) = ns_db a" for xs a
    by (induction xs arbitrary: a) simp_all
  with assms(1) have "db_cfg (ns_db ns1) = None" by (auto simp: delete_net_def Let_def split: if_splits)
  with update_member_outcome [of W hosts ns1 keys ck name ms] assms(2) show ?thesis by (simp add: edit_outcome_def)
qed

lemma unknown_preferred_refused:
  assumes "map_of (nc_clients cfg) c = Some m" and "mc_preferred_relay m = Some p" and "map_of (nc_relays cfg) p = None"
  shows "check_edit W hosts cfg reg = Inl bad_request"
proof (cases "validate_network_with (w_ipnet W) hosts cfg")
  case (Inr cfg')
  then have t: "cfg' = trunc_network (w_ipnet W) cfg" "check_network (w_ipnet W) hosts cfg' = Inr ()"
    unfolding validate_Inr by blast+
  have "nc_clients cfg' = nc_clients cfg" unfolding t(1) by (simp add: trunc_network_def)
  with map_of_SomeD [OF assms(1)] have "(c, m, Client) \<in> set (cfg_members cfg')" by (force simp: cfg_members_def)
  with check_network_Inr(5) [OF t(2)] have "member_ok (w_ipnet W) cfg' (c, m, Client)" by blast
  with assms(2) have "map_of (nc_relays cfg') p \<noteq> None" by (simp add: member_ok_def)
  moreover have "map_of (nc_relays cfg') p = None" unfolding t(1) using assms(3)
    by (simp add: trunc_network_def map_of_map_snd)
  ultimately show ?thesis by simp
qed (simp add: check_edit_def)

section \<open>Properties\<close>


abbreviation example_started :: net_state where
  "example_started \<equiv> net_state_new example_world example_client (registry_new ''u'')
     (saved_rows example_client (registry_new ''u'')) \<lparr>ck_unix = 5, ck_ms = 50\<rparr>"

lemma example_client_wf: "cfg_wf example_client"
  by (simp add: cfg_wf_def cfg_sorted_def example_client_def)

lemma registry_new_ok: "reg_ok (registry_new uuid)"
  unfolding reg_ok_def using reg_wf_new by (simp add: held_once_def) (simp add: registry_new_def)




lemma rotate_member_succeeds:
  assumes "member_by_name_upd name (\<lambda>m. m\<lparr>mc_secret := Some secret\<rparr>) (ns_cfg ns) = Some c" and "db_save_ok (ns_db ns)"
  shows "\<exists>ns'. rotate_member W secret keys ck name ns = (Inr secret, ns')"
  using assms by (simp add: rotate_member_def save_config_def commit_def save_registry_def can_save_registry_def split: option.split)

lemma example_joined_wf: "net_wf example_joined"
  using example_joined_ok example_client_wf
  by (simp add: net_wf_def reg_ok_def) (simp add: example_joined_def example_net_def net_state_new_def sessions_wf_def example_db_def)

lemma example_joined_save: "db_save_ok (ns_db example_joined)" "can_save_registry (ns_db example_joined)"
  by code_simp+


text \<open>
  C8. A member that is disabled or deleted is shut out at once: it cannot join, it has no session, and
  no credential of its node is accepted, however it was obtained.
\<close>

theorem revoked_member_shut_out:
  assumes "net_wf ns"
    and "set_disabled W keys ck name True ns = (Inr u, ns') \<or> delete_member W keys ck name ns = (Inr u, ns')"
  shows "fst (join_locked W ks port ck2 name req peer_ip ns') \<noteq> Inr resp
    \<and> (\<forall>rec. reg_by_name (ns_registry ns) name = Some rec \<longrightarrow> map_of (ns_sessions ns') (mr_node_id rec) = None
        \<and> (map_of nets i = Some ns' \<longrightarrow> verify_credential W ks nets token fp now = Inr (cl, i)
           \<longrightarrow> cl_node_id cl \<noteq> mr_node_id rec))"
proof -
  have "net_wf ns'"
    using assms(2) net_wf_set_disabled [OF assms(1), of W keys ck name True] net_wf_delete_member [OF assms(1), of W keys ck name]
    by (metis snd_conv)
  note wf = net_wf_reg [OF assms(1)] net_wf_reg [OF this] net_wf_cfg [OF assms(1)]
  show ?thesis using assms(2)
  proof
    assume sd: "set_disabled W keys ck name True ns = (Inr u, ns')"
    show ?thesis
    proof (cases rule: set_disabled_Inr [OF sd])
      case (1 node old)
      have at: "map_of (rg_members (ns_registry ns')) node = Some (old\<lparr>mr_disabled := True\<rparr>)" using 1(3) by simp
      have rw: "reg_wf (ns_registry ns)" "reg_wf (ns_registry ns')" using wf(1,2) by (simp_all add: reg_ok_def)
      obtain rec where rec: "reg_by_name (ns_registry ns) name = Some rec" "mr_node_id rec = node"
        using 1(1) by (auto simp: reg_id_of_def)
      then have id: "rec = old" "mr_name old = name" using reg_by_nameD [OF rw(1) rec(1)] 1(2) by simp_all
      have "mr_node_id (old\<lparr>mr_disabled := True\<rparr>) = node" "mr_name (old\<lparr>mr_disabled := True\<rparr>) = name"
        using rec(2) id by simp_all
      with at have by_name: "reg_by_name (ns_registry ns') name = Some (old\<lparr>mr_disabled := True\<rparr>)"
        unfolding reg_by_name_iff [OF rw(2)] by simp
      have "fst (join_locked W ks port ck2 name req peer_ip ns') \<noteq> Inr resp"
      proof
        assume "fst (join_locked W ks port ck2 name req peer_ip ns') = Inr resp"
        then obtain x where j: "join_locked W ks port ck2 name req peer_ip ns' = (Inr resp, x)" by (metis prod.collapse)
        show False by (rule join_locked_Inr [OF j]) (use by_name in simp)
      qed
      moreover have "cl_node_id cl \<noteq> node"
        if "map_of nets i = Some ns'" "verify_credential W ks nets token fp now = Inr (cl, i)"
        using verify_credential_record [OF that(2,1) wf(2)] at by force
      ultimately show ?thesis using 1(5) rec by auto
    qed
  next
    assume dm: "delete_member W keys ck name ns = (Inr u, ns')"
    note del = delete_member_Inr [OF dm]
    have "member_by_name (ns_cfg ns') name = None" using del(1) remove_member_gone [OF wf(3)] by simp
    then have "join_locked W ks port ck2 name req peer_ip ns' = (Inl bad_credentials, ns')"
      by (simp add: join_locked_def member_now_def)
    moreover have "cl_node_id cl \<noteq> mr_node_id rec"
      if "map_of nets i = Some ns'" "verify_credential W ks nets token fp now = Inr (cl, i)"
        "reg_by_name (ns_registry ns) name = Some rec" for rec
    proof -
      have "map_of (rg_members (ns_registry ns')) (mr_node_id rec) = None"
        using that(3) del(2) [of "mr_node_id rec"] by (simp add: reg_id_of_def)
      moreover have "\<exists>x. map_of (rg_members (ns_registry ns')) (cl_node_id cl) = Some x"
        by (rule verify_credential_record [OF that(2,1) wf(2)]) blast
      ultimately show ?thesis by (metis option.distinct(1))
    qed
    moreover have "map_of (ns_sessions ns') (mr_node_id rec) = None" if "reg_by_name (ns_registry ns) name = Some rec" for rec
      using that del(2) [of "mr_node_id rec"] by (simp add: reg_id_of_def)
    ultimately show ?thesis by auto
  qed
qed

lemma set_disabled_succeeds:
  assumes "reg_by_name (ns_registry ns) name = Some rec" and "map_of (rg_members (ns_registry ns)) (mr_node_id rec) = Some x"
    and "can_save_registry (ns_db ns)"
  shows "\<exists>ns'. set_disabled W keys ck name disabled ns = (Inr (), ns')"
  using assms by (simp add: set_disabled_def reg_id_of_def commit_def save_registry_def)

theorem revoked_member_shut_out_witness:
  "\<exists>ns'. set_disabled example_world [] \<lparr>ck_unix = 60, ck_ms = 600\<rparr> ''a'' True example_joined = (Inr (), ns')
    \<and> map_of (ns_sessions ns') 1 = None
    \<and> (\<nexists>resp. fst (join_locked example_world example_keys 7 \<lparr>ck_unix = 70, ck_ms = 700\<rparr> ''a''
          example_request ''p'' ns') = Inr resp)"
proof -
  obtain rec where rec: "reg_by_name (ns_registry example_joined) ''a'' = Some rec" "mr_node_id rec = 1"
    by (simp add: example_joined_def reg_by_name_def new_record_def)
  then obtain x where "map_of (rg_members (ns_registry example_joined)) (mr_node_id rec) = Some x"
    using reg_by_nameD(1) [OF example_joined_ok(1)] by blast
  then obtain ns' where r: "set_disabled example_world [] \<lparr>ck_unix = 60, ck_ms = 600\<rparr> ''a'' True example_joined = (Inr (), ns')"
    using set_disabled_succeeds [OF rec(1) _ example_joined_save(2)] by blast
  from revoked_member_shut_out [OF example_joined_wf disjI1 [OF r]] r rec show ?thesis by auto
qed

text \<open>
  C33. Deleting a relay is not validated: when two clients prefer it, the network left behind fails its
  own validation, and every later edit of the network or of any member is refused, as is every new
  member but a relay of that name.
\<close>

theorem deleted_relay_blocks_edits:
  assumes "cfg_wf (ns_cfg ns)" and "delete_member W keys ck p ns = (Inr u, ns')" and "map_of (nc_relays (ns_cfg ns)) p \<noteq> None"
    and "map_of (nc_clients (ns_cfg ns)) c = Some m" and "mc_preferred_relay m = Some p"
    and "map_of (nc_clients (ns_cfg ns)) d = Some n" and "mc_preferred_relay n = Some p" and "c \<noteq> d"
  shows "update_network W hosts keys ck sp ns' = (Inl bad_request, ns')
    \<and> fst (update_member W hosts keys ck name ms ns') \<in> {Inl bad_request, Inl api_not_found}
    \<and> (name \<noteq> p \<or> r = Client \<longrightarrow> fst (create_member W hosts secret name r ms ns') = Inl bad_request)"
proof -
  let ?cs = "nc_clients (ns_cfg ns)"
  have "map_of ?cs p = None" using assms(1,3) unfolding cfg_wf_def by meson
  then have cfg: "ns_cfg ns' = (ns_cfg ns)\<lparr>nc_relays := bt_remove p (nc_relays (ns_cfg ns))\<rparr>"
    using delete_member_Inr(1) [OF assms(2)] by (simp add: remove_member_def)
  have at: "map_of (nc_clients (ns_cfg ns')) c = Some m" "map_of (nc_clients (ns_cfg ns')) d = Some n"
      "map_of (nc_relays (ns_cfg ns')) p = None" "map_of (nc_clients (ns_cfg ns')) p = None"
    unfolding cfg using assms(4,6) \<open>map_of ?cs p = None\<close> by simp_all
  note refused = unknown_preferred_refused [OF _ assms(5)] unknown_preferred_refused [OF _ assms(7)]
  have "update_network W hosts keys ck sp ns' = (Inl bad_request, ns')"
    using at by (simp add: update_network_def refused(1))
  moreover have "check_edit W hosts x (ns_registry ns') = Inl bad_request"
    if "member_by_name_upd name (spec_apply ms) (ns_cfg ns') = Some x" for x
  proof (cases "name = c")
    case True
    with that at assms(8) show ?thesis by (intro refused(2)) (auto simp: member_by_name_upd_def)
  next
    case False
    with that at show ?thesis by (intro refused(1)) (auto simp: member_by_name_upd_def split: option.splits if_splits)
  qed
  then have "fst (update_member W hosts keys ck name ms ns') \<in> {Inl bad_request, Inl api_not_found}"
    by (cases "member_by_name_upd name (spec_apply ms) (ns_cfg ns')") (simp_all add: update_member_def)
  moreover have "fst (create_member W hosts secret name r ms ns') = Inl bad_request" if r: "name \<noteq> p \<or> r = Client"
  proof (cases "member_by_name (ns_cfg ns') name")
    case None
    then have "name \<noteq> c" using at(1) by (auto simp: member_by_name_def)
    with r at have "check_edit W hosts (insert_member name r ((spec_apply ms member_cfg_default)\<lparr>mc_secret := Some secret\<rparr>)
        (ns_cfg ns')) (ns_registry ns') = Inl bad_request"
      by (intro refused(1)) (auto simp: insert_member_def split: role.splits)
    with None show ?thesis by (simp add: create_member_def)
  qed (simp add: create_member_def)
  ultimately show ?thesis by blast
qed

lemma delete_member_succeeds:
  assumes "fst (remove_member name (ns_cfg ns))" and "db_save_ok (ns_db ns)"
  shows "\<exists>ns'. delete_member W keys ck name ns = (Inr (), ns')"
  using assms by (cases "remove_member name (ns_cfg ns)")
    (simp add: delete_member_def Let_def save_config_def commit_def save_registry_def can_save_registry_def split: option.split)

definition example_preferring :: net_state where
  "example_preferring = example_net\<lparr>ns_cfg := example_client\<lparr>
     nc_clients := [(''a'', member_cfg_default\<lparr>mc_preferred_relay := Some ''r''\<rparr>), (''b'', member_cfg_default\<lparr>mc_preferred_relay := Some ''r''\<rparr>)],
     nc_relays := [(''r'', member_cfg_default\<lparr>mc_relay_addr := Some ''h:1''\<rparr>)]\<rparr>\<rparr>"

theorem deleted_relay_blocks_edits_witness:
  "\<exists>ns'. delete_member example_world [] \<lparr>ck_unix = 60, ck_ms = 600\<rparr> ''r'' example_preferring = (Inr (), ns')
    \<and> update_network example_world example_hosts [] \<lparr>ck_unix = 60, ck_ms = 600\<rparr> \<lparr>sp_network_id = ''n'',
        sp_ipv4_cidr = V4 0x0A000000 30, sp_ipv6_cidr = None, sp_settings = settings_default\<rparr> ns' = (Inl bad_request, ns')"
proof -
  have f: "fst (remove_member ''r'' (ns_cfg example_preferring))" "db_save_ok (ns_db example_preferring)" by code_simp+
  have wf: "cfg_wf (ns_cfg example_preferring)"
    by (simp add: cfg_wf_def cfg_sorted_def example_preferring_def example_client_def)
  obtain ns' where r: "delete_member example_world [] \<lparr>ck_unix = 60, ck_ms = 600\<rparr> ''r'' example_preferring = (Inr (), ns')"
    using delete_member_succeeds [OF f] by blast
  have at: "map_of (nc_relays (ns_cfg example_preferring)) ''r'' \<noteq> None"
      "map_of (nc_clients (ns_cfg example_preferring)) ''a'' = Some (member_cfg_default\<lparr>mc_preferred_relay := Some ''r''\<rparr>)"
      "map_of (nc_clients (ns_cfg example_preferring)) ''b'' = Some (member_cfg_default\<lparr>mc_preferred_relay := Some ''r''\<rparr>)"
    by (simp_all add: example_preferring_def)
  from deleted_relay_blocks_edits [OF wf r at(1,2) _ at(3)] r show ?thesis by simp
qed

end
