(* ===== verification/Nq_Import.thy ===== *)
theory Nq_Import
  imports Nq_Operator
begin

text \<open>
  What an import of whole configurations promises (\<open>import\<close> in \<open>crates/nqvpn-coord/src/admin.rs\<close>): all
  or nothing, valid and saved networks, secrets that name one member each, and credentials of replaced
  secrets that die with them.
\<close>

section \<open>Applying one network\<close>

lemma fold_close_fields:
  "ns_cfg (fold (\<lambda>(node, why). close_session node why) xs ns) = ns_cfg ns
   \<and> ns_registry (fold (\<lambda>(node, why). close_session node why) xs ns) = ns_registry ns
   \<and> ns_db (fold (\<lambda>(node, why). close_session node why) xs ns) = ns_db ns"
proof (induction xs arbitrary: ns)
  case (Cons x xs)
  obtain n w where "x = (n, w)" by (rule prod.exhaust)
  with Cons.IH [of "close_session n w ns"] show ?case by simp
qed simp

lemma import_net_fields:
  "ns_cfg (import_net W keys ck cfg reg ns) = cfg"
  "rg_members (ns_registry (import_net W keys ck cfg reg ns)) = rg_members reg"
  "rg_network_uuid (ns_registry (import_net W keys ck cfg reg ns)) = rg_network_uuid reg"
  "db_cfg (ns_db (import_net W keys ck cfg reg ns)) = Some cfg"
  using fold_close_fields by (simp_all add: import_net_def Let_def)

lemma import_apply_at:
  "\<exists>ns. map_of (ap_nets (import_apply W ck (cfg, reg) a)) (nc_network_id cfg) = Some ns \<and> ns_cfg ns = cfg
     \<and> rg_members (ns_registry ns) = rg_members reg \<and> db_cfg (ns_db ns) = Some cfg"
  by (auto simp: import_apply_def no_collect_def add_network_def net_state_new_def saved_rows_def import_net_fields
      split: option.split)

lemma import_apply_other:
  "i \<noteq> nc_network_id (fst x) \<Longrightarrow> map_of (ap_nets (import_apply W ck x a)) i = map_of (ap_nets a) i"
  by (cases x) (auto simp: import_apply_def no_collect_def add_network_def split: option.split)

lemma import_applied:
  assumes "distinct (map (nc_network_id \<circ> fst) z)"
  shows "(\<forall>(cfg, reg) \<in> set z. \<exists>ns. map_of (ap_nets (fold (import_apply W ck) z a)) (nc_network_id cfg) = Some ns
        \<and> ns_cfg ns = cfg \<and> rg_members (ns_registry ns) = rg_members reg \<and> db_cfg (ns_db ns) = Some cfg)
    \<and> (\<forall>i. i \<notin> (nc_network_id \<circ> fst) ` set z \<longrightarrow> map_of (ap_nets (fold (import_apply W ck) z a)) i = map_of (ap_nets a) i)"
  using assms
proof (induction z arbitrary: a)
  case (Cons x z)
  let ?b = "import_apply W ck x a"
  have "distinct (map (nc_network_id \<circ> fst) z)" using Cons.prems unfolding list.map distinct.simps by blast
  note IH = Cons.IH [OF this, of ?b]
  have x: "nc_network_id (fst x) \<notin> (nc_network_id \<circ> fst) ` set z" using Cons.prems by simp
  obtain cfg reg where xe: "x = (cfg, reg)" by (rule prod.exhaust)
  have "map_of (ap_nets (fold (import_apply W ck) z ?b)) (nc_network_id cfg) = map_of (ap_nets ?b) (nc_network_id cfg)"
    using IH x xe by simp
  with import_apply_at [of W ck cfg reg a] xe have at: "\<exists>ns. map_of (ap_nets (fold (import_apply W ck) (x # z) a)) (nc_network_id cfg) = Some ns
      \<and> ns_cfg ns = cfg \<and> rg_members (ns_registry ns) = rg_members reg \<and> db_cfg (ns_db ns) = Some cfg" by simp
  show ?case
  proof (intro conjI ballI allI impI)
    fix y assume "y \<in> set (x # z)"
    with at IH xe show "case y of (cfg, reg) \<Rightarrow> \<exists>ns. map_of (ap_nets (fold (import_apply W ck) (x # z) a)) (nc_network_id cfg) = Some ns
        \<and> ns_cfg ns = cfg \<and> rg_members (ns_registry ns) = rg_members reg \<and> db_cfg (ns_db ns) = Some cfg"
      by auto
  next
    fix i assume "i \<notin> (nc_network_id \<circ> fst) ` set (x # z)"
    with IH import_apply_other [of i x W ck a]
    show "map_of (ap_nets (fold (import_apply W ck) (x # z) a)) i = map_of (ap_nets a) i" by simp
  qed
qed simp

section \<open>The stages of an import\<close>

lemma import_validate_Inr:
  assumes "import_validate W hosts ids cfgs = Inr valid"
  shows "list_all2 (\<lambda>c v. validate_network_with (w_ipnet W) hosts c = Inr v \<and> nc_network_id v = nc_network_id c) cfgs valid
    \<and> distinct (map nc_network_id valid) \<and> set (map nc_network_id valid) \<inter> set ids = {}"
  using assms
proof (induction W hosts ids cfgs arbitrary: valid rule: import_validate.induct)
  case (2 W hosts ids cfg cfgs)
  from "2.prems" obtain v where v: "validate_network_with (w_ipnet W) hosts cfg = Inr v"
    and new: "nc_network_id cfg \<notin> set ids"
    by (auto simp: res_bind_Inr_conv split: sum.splits)
  from "2.prems" v obtain rest where r: "import_validate W hosts (nc_network_id cfg # ids) cfgs = Inr rest" "valid = v # rest"
    by (auto simp: res_bind_Inr_conv)
  from "2.IH" [OF v r(1)]
  have IH: "list_all2 (\<lambda>c v. validate_network_with (w_ipnet W) hosts c = Inr v \<and> nc_network_id v = nc_network_id c) cfgs rest"
      "distinct (map nc_network_id rest)" "set (map nc_network_id rest) \<inter> set (nc_network_id cfg # ids) = {}"
    by blast+
  have "nc_network_id v = nc_network_id cfg" using v by (auto simp: validate_Inr trunc_network_def)
  with IH v new r(2) show ?case by auto
qed simp

lemma list_all2_members:
  "list_all2 P xs ys \<Longrightarrow> (\<forall>x \<in> set xs. \<exists>y \<in> set ys. P x y) \<and> (\<forall>y \<in> set ys. \<exists>x \<in> set xs. P x y)"
  by (induction rule: list_all2_induct) auto

lemma import_validated:
  assumes "import_validate W hosts ids cfgs = Inr valid"
  shows "c \<in> set cfgs \<Longrightarrow> \<exists>v \<in> set valid. validate_network_with (w_ipnet W) hosts c = Inr v \<and> nc_network_id v = nc_network_id c"
    and "nc_network_id ` set valid = nc_network_id ` set cfgs"
proof -
  let ?P = "\<lambda>c v. validate_network_with (w_ipnet W) hosts c = Inr v \<and> nc_network_id v = nc_network_id c"
  have m: "(\<forall>x \<in> set cfgs. \<exists>y \<in> set valid. ?P x y) \<and> (\<forall>y \<in> set valid. \<exists>x \<in> set cfgs. ?P x y)"
    using import_validate_Inr [OF assms] by (intro list_all2_members) blast
  show "c \<in> set cfgs \<Longrightarrow> \<exists>v \<in> set valid. ?P c v" using m by blast
  show "nc_network_id ` set valid = nc_network_id ` set cfgs" using m by (intro equalityI subsetI; elim imageE) (metis image_eqI)+
qed

lemma import_registries_length: "import_registries W now rows uuid a cfgs = Inr regs \<Longrightarrow> length regs = length cfgs"
  by (induction cfgs arbitrary: regs) (auto simp: res_bind_Inr_conv)

lemma import_all_Inr:
  assumes "import_all W hosts save_ok rows uuid ck cfgs a = (Inr ids, a')"
  obtains valid regs where "import_validate W hosts [] cfgs = Inr valid" "ids = map nc_network_id (sort_key nc_network_id valid)"
    "distinct (import_secrets (sort_key nc_network_id valid) a)" "length regs = length valid"
    "import_registries W (ck_unix ck) rows uuid a (sort_key nc_network_id valid) = Inr regs"
    "a' = fold (import_apply W ck) (import_order a (zip (sort_key nc_network_id valid) regs)) a"
proof -
  from assms obtain valid where v: "import_validate W hosts [] cfgs = Inr valid"
    by (cases "import_validate W hosts [] cfgs") (auto simp: import_all_def)
  define s where "s = sort_key nc_network_id valid"
  from assms v have d: "distinct (import_secrets s a)" by (auto simp: import_all_def Let_def s_def split: if_splits)
  with assms v obtain regs where r: "import_registries W (ck_unix ck) rows uuid a s = Inr regs"
    by (cases "import_registries W (ck_unix ck) rows uuid a s") (auto simp: import_all_def Let_def s_def [symmetric])
  with assms v d have "ids = map nc_network_id s" "a' = fold (import_apply W ck) (import_order a (zip s regs)) a"
    by (auto simp: import_all_def Let_def s_def [symmetric] split: if_splits)
  with v d r import_registries_length [OF r] show thesis unfolding s_def by (intro that) simp_all
qed

lemma import_order_set: "set (import_order a z) = set z"
  by (auto simp: import_order_def)

lemma import_order_distinct: "distinct (map f z) \<Longrightarrow> distinct (map f (import_order a z))"
proof -
  assume d: "distinct (map f z)"
  let ?P = "\<lambda>x. map_of (ap_nets a) (nc_network_id (fst x)) \<noteq> None"
  have "import_order a z = filter ?P z @ filter (\<lambda>x. \<not> ?P x) z" by (simp add: import_order_def split_def)
  then have "mset (import_order a z) = mset z" using multiset_partition [of "mset z" ?P] by simp
  then have "mset (map f (import_order a z)) = mset (map f z)" by simp
  with d show ?thesis using mset_eq_imp_distinct_iff by blast
qed

section \<open>Secrets\<close>

lemma distinct_concat_map:
  assumes "distinct (concat (map f xs))"
  shows "x \<in> set xs \<Longrightarrow> distinct (f x)"
    and "x \<in> set xs \<Longrightarrow> y \<in> set xs \<Longrightarrow> s \<in> set (f x) \<Longrightarrow> s \<in> set (f y) \<Longrightarrow> x = y"
  using assms by (induction xs) auto

text \<open>No two members of networks served by the coordinator have the same secret.\<close>

definition secrets_unique :: "'sk app_state \<Rightarrow> bool" where
  "secrets_unique a \<longleftrightarrow> (\<forall>i ns. map_of (ap_nets a) i = Some ns \<longrightarrow> distinct (cfg_secrets (ns_cfg ns)))
     \<and> (\<forall>i ns j ns' s. map_of (ap_nets a) i = Some ns \<longrightarrow> map_of (ap_nets a) j = Some ns'
         \<longrightarrow> s \<in> set (cfg_secrets (ns_cfg ns)) \<longrightarrow> s \<in> set (cfg_secrets (ns_cfg ns')) \<longrightarrow> i = j)"

text \<open>The networks after an import, each with the configuration its secrets come from.\<close>

lemma import_secrets_unique:
  assumes "distinct (import_secrets cfgs a)" and "hm_wf (ap_nets a)"
    and new: "\<And>i ns. i \<in> nc_network_id ` set cfgs \<Longrightarrow> map_of (ap_nets a') i = Some ns \<Longrightarrow> ns_cfg ns \<in> set cfgs \<and> nc_network_id (ns_cfg ns) = i"
    and old: "\<And>i. i \<notin> nc_network_id ` set cfgs \<Longrightarrow> map_of (ap_nets a') i = map_of (ap_nets a) i"
  shows "secrets_unique a'"
proof -
  define rest where "rest = filter (\<lambda>(i, _). i \<notin> set (map nc_network_id cfgs)) (app_nets a)"
  have set_rest: "(i, ns) \<in> set rest \<longleftrightarrow> map_of (ap_nets a) i = Some ns \<and> i \<notin> nc_network_id ` set cfgs" for i ns
    using assms(2) by (auto simp: rest_def app_nets_def)
  have d: "distinct (concat (map cfg_secrets cfgs))" "distinct (concat (map (\<lambda>(_, ns). cfg_secrets (ns_cfg ns)) rest))"
      "set (concat (map cfg_secrets cfgs)) \<inter> set (concat (map (\<lambda>(_, ns). cfg_secrets (ns_cfg ns)) rest)) = {}"
    using assms(1) unfolding import_secrets_def rest_def by (simp_all only: distinct_append)
  have from_: "ns_cfg ns \<in> set cfgs \<and> nc_network_id (ns_cfg ns) = i \<or> (i, ns) \<in> set rest" if "map_of (ap_nets a') i = Some ns" for i ns
  proof (cases "i \<in> nc_network_id ` set cfgs")
    case True
    with new that show ?thesis by blast
  next
    case False
    with old [OF this] that set_rest show ?thesis by simp
  qed
  have one: "distinct (cfg_secrets (ns_cfg ns))" if at: "map_of (ap_nets a') i = Some ns" for i ns
    using from_ [OF at] distinct_concat_map(1) [OF d(1)] distinct_concat_map(1) [OF d(2), of "(i, ns)"] by auto
  have two: "i = j" if at: "map_of (ap_nets a') i = Some ns" "map_of (ap_nets a') j = Some ms"
      and s: "s \<in> set (cfg_secrets (ns_cfg ns))" "s \<in> set (cfg_secrets (ns_cfg ms))" for i ns j ms s
    using from_ [OF at(1)]
  proof
    assume i: "ns_cfg ns \<in> set cfgs \<and> nc_network_id (ns_cfg ns) = i"
    show ?thesis using from_ [OF at(2)]
    proof
      assume "ns_cfg ms \<in> set cfgs \<and> nc_network_id (ns_cfg ms) = j"
      with i s distinct_concat_map(2) [OF d(1)] show ?thesis by metis
    next
      assume "(j, ms) \<in> set rest"
      with i s d(3) show ?thesis by fastforce
    qed
  next
    assume i: "(i, ns) \<in> set rest"
    show ?thesis using from_ [OF at(2)]
    proof
      assume "ns_cfg ms \<in> set cfgs \<and> nc_network_id (ns_cfg ms) = j"
      with i s d(3) show ?thesis by fastforce
    next
      assume "(j, ms) \<in> set rest"
      with i s distinct_concat_map(2) [OF d(2), of "(i, ns)" "(j, ms)" s] show ?thesis by simp
    qed
  qed
  show ?thesis unfolding secrets_unique_def using one two by blast
qed

section \<open>Credentials after an import\<close>

text \<open>
  The check of a credential looks at the registry only, and an import keeps the record of a member it
  removes: that member's session is closed, but its credential is still accepted until it expires.
\<close>

lemma import_net_deleted: "ns_deleted (import_net W keys ck cfg reg ns) = ns_deleted ns"
proof -
  have c: "ns_deleted (fold (\<lambda>(node, why). close_session node why) xs a) = ns_deleted a" for xs a
  proof (induction xs arbitrary: a)
    case (Cons x xs)
    obtain n w where "x = (n, w)" by (rule prod.exhaust)
    with Cons.IH [of "close_session n w a"] show ?case by simp
  qed simp
  have r: "ns_deleted (reconfigure n why a) = ns_deleted a" for n why a
    by (simp add: reconfigure_def close_session_with_def split: option.split)
  have f: "ns_deleted (fold (\<lambda>node. reconfigure node why) xs a) = ns_deleted a" for xs why a
    by (induction xs arbitrary: a) (simp_all add: r)
  have g: "ns_deleted (reconfigure_changed xs why a) = ns_deleted a" for xs why a
    by (induction xs arbitrary: a) (simp_all add: reconfigure_changed_def r split: option.split)
  show ?thesis by (simp add: import_net_def Let_def reconfigure_all_def c f g)
qed

lemma removed_by_import_still_accepted:
  fixes W :: "('sk, 'vk) world"
  assumes "verify_credential W ks nets token fp now = Inr (cl, i)" and "map_of nets i = Some ns"
    and "reg_ok (ns_registry ns)" and "map_of (rg_members (ns_registry ns)) (cl_node_id cl) = Some rec"
    and "member_by_name cfg (mr_name rec) = None"
    and "reg = (ns_registry ns)\<lparr>rg_members := map (\<lambda>(k, rec). (k, import_record t (Some (ns_cfg ns)) cfg rec))
      (rg_members (ns_registry ns))\<rparr>"
  shows "verify_credential W ks (hm_insert i (import_net W keys ck cfg reg ns) nets) token fp now = Inr (cl, i)"
proof -
  let ?ns' = "import_net W keys ck cfg reg ns"
  define n where "n = (case peek_node_id (w_jose W) token of Some j \<Rightarrow> j | None \<Rightarrow> 0)"
  have pk: "peek_network (w_jose W) token = Some i" "\<not> ns_deleted ns"
    using assms(1,2) by (auto simp: verify_credential_def Let_def split: option.splits sum.splits if_splits)
  have "map_of (rg_members (ns_registry ns)) n = Some rec"
  proof -
    obtain r where r: "map_of (rg_members (ns_registry ns)) n = Some r" "mr_node_id r = cl_node_id cl"
      using assms(1,2) pk unfolding n_def by (auto simp: verify_credential_def Let_def split: option.splits sum.splits if_splits)
    have "reg_wf (ns_registry ns)" using assms(3) by (simp add: reg_ok_def)
    from reg_wfD(2) [OF this r(1)] r(2) have "n = cl_node_id cl" by simp
    with assms(4) show ?thesis by simp
  qed
  moreover from this have "map_of (rg_members (ns_registry ?ns')) n = Some rec"
    unfolding import_net_fields(2) assms(6) using assms(5) by (simp add: map_of_map_snd import_record_def)
  moreover have "rg_network_uuid (ns_registry ?ns') = rg_network_uuid (ns_registry ns)"
    unfolding import_net_fields(3) assms(6) by simp
  ultimately show ?thesis using assms(1,2) pk import_net_deleted [of W keys ck cfg reg ns]
    by (simp add: verify_credential_def Let_def n_def [symmetric] cong: sum.case_cong)
qed

section \<open>Properties\<close>

text \<open>
  C9. An import is all or nothing. If it fails, no network has changed. If it succeeds, exactly the
  networks named changed; each of them runs and has saved the validated form of what was imported; and
  over all networks no two members share a secret.
\<close>

theorem import_all_or_nothing:
  assumes "hm_wf (ap_nets a)" and "import_all W hosts save_ok rows uuid ck cfgs a = (res, a')"
  shows "case res of
      Inl e \<Rightarrow> a' = a
    | Inr ids \<Rightarrow> distinct ids \<and> set ids = nc_network_id ` set cfgs
        \<and> (\<forall>cfg \<in> set cfgs. \<exists>ns. map_of (ap_nets a') (nc_network_id cfg) = Some ns
             \<and> validate_network_with (w_ipnet W) hosts cfg = Inr (ns_cfg ns) \<and> db_cfg (ns_db ns) = Some (ns_cfg ns))
        \<and> (\<forall>i. i \<notin> set ids \<longrightarrow> map_of (ap_nets a') i = map_of (ap_nets a) i)
        \<and> secrets_unique a'"
proof (cases res)
  case (Inl e)
  with assms(2) show ?thesis by (auto simp: import_all_def Let_def split: sum.splits if_splits)
next
  case (Inr ids)
  obtain valid regs where v: "import_validate W hosts [] cfgs = Inr valid" "ids = map nc_network_id (sort_key nc_network_id valid)"
      "distinct (import_secrets (sort_key nc_network_id valid) a)" "length regs = length valid"
      "a' = fold (import_apply W ck) (import_order a (zip (sort_key nc_network_id valid) regs)) a"
    using import_all_Inr [OF assms(2) [unfolded Inr]] by metis
  define s where "s = sort_key nc_network_id valid"
  define z where "z = import_order a (zip s regs)"
  note val = import_validate_Inr [OF v(1)]
  have s: "set s = set valid" "distinct (map nc_network_id s)"
    using val by (simp_all add: s_def distinct_map)
  have len: "length s = length regs" using v(4) by (simp add: s_def)
  have "map (nc_network_id \<circ> fst) (zip s regs) = map nc_network_id s" using len by (simp flip: map_map)
  then have z: "distinct (map (nc_network_id \<circ> fst) z)" "set z = set (zip s regs)"
    using s(2) import_order_distinct [of "nc_network_id \<circ> fst" "zip s regs" a] import_order_set by (simp_all add: z_def)
  have fz: "fst ` set z = set s" using z(2) len by (metis list.set_map map_fst_zip)
  note ap = import_applied [OF z(1), of W ck a]
  have a': "a' = fold (import_apply W ck) z a" using v(5) by (simp add: z_def s_def)
  have at: "\<exists>ns. map_of (ap_nets a') (nc_network_id c) = Some ns \<and> ns_cfg ns = c \<and> db_cfg (ns_db ns) = Some c" if c: "c \<in> set s" for c
  proof -
    obtain x where x: "x \<in> set z" "fst x = c" using c unfolding fz [symmetric] by blast
    then show ?thesis using bspec [OF conjunct1 [OF ap] x(1)] unfolding a' by (cases x) auto
  qed
  have other: "map_of (ap_nets a') i = map_of (ap_nets a) i" if "i \<notin> nc_network_id ` set s" for i
  proof -
    have "i \<notin> (nc_network_id \<circ> fst) ` set z" using that unfolding image_comp [symmetric] fz .
    with ap show ?thesis unfolding a' by blast
  qed
  have ids: "nc_network_id ` set s = nc_network_id ` set cfgs" "set ids = nc_network_id ` set s"
    using import_validated(2) [OF v(1)] by (simp_all add: s(1) v(2))
  have uniq: "secrets_unique a'"
    by (rule import_secrets_unique [OF v(3) [folded s_def] assms(1)]) (use at other in force)+
  have each: "\<exists>ns. map_of (ap_nets a') (nc_network_id c) = Some ns \<and> validate_network_with (w_ipnet W) hosts c = Inr (ns_cfg ns)
      \<and> db_cfg (ns_db ns) = Some (ns_cfg ns)" if c: "c \<in> set cfgs" for c
  proof -
    obtain w where "w \<in> set s" "validate_network_with (w_ipnet W) hosts c = Inr w" "nc_network_id w = nc_network_id c"
      using import_validated(1) [OF v(1) c] s(1) by blast
    with at [of w] show ?thesis by auto
  qed
  have "distinct ids" using s(2) by (simp add: v(2) s_def)
  with Inr ids each other uniq show ?thesis by simp
qed

definition example_imported :: network_config where
  "example_imported = example_client\<lparr>nc_clients := []\<rparr>"

theorem import_all_or_nothing_witness:
  "\<exists>a'. import_all example_world example_hosts True (\<lambda>_. Inr None) (\<lambda>_. ''u'') \<lparr>ck_unix = 60, ck_ms = 600\<rparr> [example_imported]
      \<lparr>ap_nets = [], ap_keyring = example_keys, ap_control_port = 7\<rparr> = (Inr [''n''], a')
    \<and> map_of (ap_nets a') ''n'' \<noteq> None"
proof -
  let ?a = "\<lparr>ap_nets = [], ap_keyring = example_keys, ap_control_port = 7\<rparr> :: unit app_state"
  have st: "import_validate example_world example_hosts [] [example_imported] = Inr [example_imported]"
      "import_registries example_world 60 (\<lambda>_. Inr None) (\<lambda>_. ''u'') ?a [example_imported] = Inr [registry_new ''u'']"
      "import_secrets [example_imported] ?a = []" "nc_network_id example_imported = ''n''"
    by code_simp+
  define res where "res = import_all example_world example_hosts True (\<lambda>_. Inr None) (\<lambda>_. ''u'') \<lparr>ck_unix = 60, ck_ms = 600\<rparr>
      [example_imported] ?a"
  have "fst res = Inr [''n'']" using st by (simp add: res_def import_all_def Let_def)
  then obtain a' where r: "res = (Inr [''n''], a')" by (cases res) simp
  from import_all_or_nothing [OF _ r [unfolded res_def]] st(4) r show ?thesis by (auto simp: res_def)
qed

end
