(* ===== verification/Nq_Rate.thy ===== *)
theory Nq_Rate
  imports Nq_Coord
begin

text \<open>
  The limit on join and login attempts per source (\<open>crates/nqvpn-coord/src/state.rs\<close>): a fixed window
  of one minute per source, in a table of bounded size whose oldest entries make room for newcomers.
\<close>

section \<open>Keys\<close>

definition hex_char :: "nat \<Rightarrow> char" where
  "hex_char d = (if d < 10 then char_of (48 + d) else char_of (87 + d))"

fun show_hex :: "nat \<Rightarrow> string" where
  "show_hex n = (if n < 16 then [hex_char n] else show_hex (n div 16) @ [hex_char (n mod 16)])"

declare show_hex.simps [simp del]

text \<open>The \<open>i\<close>-th 16-bit segment of an IPv6 address.\<close>

definition segment :: "u128 \<Rightarrow> nat \<Rightarrow> nat" where
  "segment a i = unat (take_bit 16 (drop_bit (112 - 16 * i) a))"

definition rate_key :: "('sk, 'vk) world \<Rightarrow> string \<Rightarrow> string" where
  "rate_key W ip =
     (case map_option to_canonical (w_parse_ip W ip) of
        Some (A4 a) \<Rightarrow> w_show_ip W (A4 a)
      | Some (A6 a) \<Rightarrow> show_hex (segment a 0) @ '':'' @ show_hex (segment a 1) @ '':'' @ show_hex (segment a 2)
          @ '':'' @ show_hex (segment a 3) @ ''::/64''
      | None \<Rightarrow> ip)"

section \<open>The limiter\<close>

definition RATE_LIMIT_MAX_KEYS :: nat where "RATE_LIMIT_MAX_KEYS = 65536"

text \<open>\<open>rl_map\<close>: window, count and insertion number of a key; counts are \<open>u32\<close> and saturate, insertion numbers (\<open>u64\<close>) are not wrapped.\<close>

record rate_limiter =
  rl_map :: "(string, nat \<times> nat \<times> nat) hmap"
  rl_order :: "(nat, string) btree"
  rl_seq :: nat
  rl_evictions :: nat
  rl_evict_window :: nat

definition rate_limiter_default :: rate_limiter where
  "rate_limiter_default = \<lparr>rl_map = [], rl_order = [], rl_seq = 0, rl_evictions = 0, rl_evict_window = 0\<rparr>"

definition drop_key :: "string \<Rightarrow> rate_limiter \<Rightarrow> rate_limiter" where
  "drop_key k rl =
     (case map_of (rl_map rl) k of
        Some (_, _, sq) \<Rightarrow> rl\<lparr>rl_map := hm_remove k (rl_map rl), rl_order := bt_remove sq (rl_order rl)\<rparr>
      | None \<Rightarrow> rl)"

definition drop_stale :: "nat \<Rightarrow> rate_limiter \<Rightarrow> rate_limiter" where
  "drop_stale window rl = fold drop_key (map fst (filter (\<lambda>(_, w, _, _). w \<noteq> window) (rl_map rl))) rl"

definition pop_oldest :: "rate_limiter \<Rightarrow> rate_limiter" where
  "pop_oldest rl =
     (case rl_order rl of
        (_, oldest) # rest \<Rightarrow> rl\<lparr>rl_order := rest, rl_map := hm_remove oldest (rl_map rl),
                                 rl_evictions := rl_evictions rl + 1\<rparr>
      | [] \<Rightarrow> rl)"

text \<open>\<open>False\<close>: no room, and the table has been churned through once this window.\<close>

definition make_room :: "string \<Rightarrow> nat \<Rightarrow> rate_limiter \<Rightarrow> bool \<times> rate_limiter" where
  "make_room key window rl =
     (if map_of (rl_map rl) key = None \<and> length (rl_map rl) \<ge> RATE_LIMIT_MAX_KEYS then
        let rl = drop_stale window rl in
        if length (rl_map rl) \<ge> RATE_LIMIT_MAX_KEYS then
          if rl_evictions rl \<ge> RATE_LIMIT_MAX_KEYS then (False, rl) else (True, pop_oldest rl)
        else (True, rl)
      else (True, rl))"

definition add_key :: "string \<Rightarrow> nat \<Rightarrow> rate_limiter \<Rightarrow> rate_limiter" where
  "add_key key window rl =
     (if map_of (rl_map rl) key = None then
        rl\<lparr>rl_seq := rl_seq rl + 1, rl_order := bt_insert (rl_seq rl + 1) key (rl_order rl),
           rl_map := hm_insert key (window, 0, rl_seq rl + 1) (rl_map rl)\<rparr>
      else rl)"

definition sat_add32 :: "nat \<Rightarrow> nat" where
  "sat_add32 c = min (c + 1) (2 ^ 32 - 1)"

definition count_key :: "string \<Rightarrow> nat \<Rightarrow> nat \<Rightarrow> rate_limiter \<Rightarrow> bool \<times> rate_limiter" where
  "count_key key window limit rl =
     (case map_of (rl_map rl) key of
        Some (w, c, sq) \<Rightarrow>
          let c = sat_add32 (if w \<noteq> window then 0 else c)
          in (c \<le> limit, rl\<lparr>rl_map := hm_insert key (window, c, sq) (rl_map rl)\<rparr>)
      | None \<Rightarrow> (False, rl))"

definition rl_check :: "string \<Rightarrow> nat \<Rightarrow> nat \<Rightarrow> rate_limiter \<Rightarrow> bool \<times> rate_limiter" where
  "rl_check key limit now rl =
     (let window = now div 60;
          rl = (if rl_evict_window rl \<noteq> window then rl\<lparr>rl_evict_window := window, rl_evictions := 0\<rparr> else rl);
          (ok, rl) = make_room key window rl
      in if \<not> ok then (False, rl) else count_key key window limit (add_key key window rl))"

definition rl_refund :: "string \<Rightarrow> rate_limiter \<Rightarrow> rate_limiter" where
  "rl_refund key rl =
     (case map_of (rl_map rl) key of
        Some (w, c, sq) \<Rightarrow> rl\<lparr>rl_map := hm_insert key (w, c - 1, sq) (rl_map rl)\<rparr>
      | None \<Rightarrow> rl)"

definition rl_len :: "rate_limiter \<Rightarrow> nat" where
  "rl_len rl = length (rl_map rl)"

definition rl_is_empty :: "rate_limiter \<Rightarrow> bool" where
  "rl_is_empty rl \<longleftrightarrow> rl_map rl = []"

definition check_rate :: "('sk, 'vk) world \<Rightarrow> nat \<Rightarrow> nat \<Rightarrow> string \<Rightarrow> rate_limiter \<Rightarrow> (api_error + unit) \<times> rate_limiter" where
  "check_rate W limit now ip rl =
     (case rl_check (rate_key W ip) limit now rl of
        (True, rl) \<Rightarrow> (Inr (), rl)
      | (False, rl) \<Rightarrow> (Inl rate_limited, rl))"

section \<open>The table stays consistent and bounded\<close>

definition paired :: "(nat \<rightharpoonup> string) \<Rightarrow> (string \<rightharpoonup> nat \<times> nat \<times> nat) \<Rightarrow> bool" where
  "paired ord m \<longleftrightarrow> (\<forall>sq k. ord sq = Some k \<longleftrightarrow> (\<exists>w c. m k = Some (w, c, sq)))"

lemma pairedD:
  "paired ord m \<Longrightarrow> m k = Some (w, c, sq) \<Longrightarrow> ord sq = Some k"
  "paired ord m \<Longrightarrow> ord sq = Some k \<Longrightarrow> \<exists>w c. m k = Some (w, c, sq)"
  by (auto simp: paired_def)

lemma pairedI:
  "(\<And>sq k w c. m k = Some (w, c, sq) \<Longrightarrow> ord sq = Some k) \<Longrightarrow> (\<And>sq k. ord sq = Some k \<Longrightarrow> \<exists>w c. m k = Some (w, c, sq))
     \<Longrightarrow> paired ord m"
  by (auto simp: paired_def)

lemma paired_remove:
  assumes "paired ord m" and "m k = Some (w, c, sq)"
  shows "paired (ord(sq := None)) (m(k := None))"
proof (rule pairedI)
  note at = pairedD(1) [OF assms]
  show "(ord(sq := None)) s' = Some k'" if "(m(k := None)) k' = Some (w', c', s')" for s' k' w' c'
    using that pairedD(1) [OF assms(1), of k' w' c' s'] at by (auto split: if_splits)
  show "\<exists>w c. (m(k := None)) k' = Some (w, c, s')" if "(ord(sq := None)) s' = Some k'" for s' k'
    using that pairedD(2) [OF assms(1), of s' k'] assms(2) by (auto split: if_splits)
qed

lemma paired_add:
  assumes "paired ord m" and "ord sq = None" and "m k = None"
  shows "paired (ord(sq \<mapsto> k)) (m(k \<mapsto> (w, c, sq)))"
proof (rule pairedI)
  show "(ord(sq \<mapsto> k)) s' = Some k'" if "(m(k \<mapsto> (w, c, sq))) k' = Some (w', c', s')" for s' k' w' c'
    using that pairedD(1) [OF assms(1), of k' w' c' s'] assms(2) by (auto split: if_splits)
  show "\<exists>w' c'. (m(k \<mapsto> (w, c, sq))) k' = Some (w', c', s')" if "(ord(sq \<mapsto> k)) s' = Some k'" for s' k'
    using that pairedD(2) [OF assms(1), of s' k'] assms(3) by (auto split: if_splits)
qed

lemma paired_recount:
  assumes "paired ord m" and "m k = Some (w, c, sq)"
  shows "paired ord (m(k \<mapsto> (w', c', sq)))"
proof (rule pairedI)
  note at = pairedD(1) [OF assms]
  show "ord s' = Some k'" if "(m(k \<mapsto> (w', c', sq))) k' = Some (x, y, s')" for s' k' x y
    using that pairedD(1) [OF assms(1), of k' x y s'] at by (auto split: if_splits)
  show "\<exists>x y. (m(k \<mapsto> (w', c', sq))) k' = Some (x, y, s')" if "ord s' = Some k'" for s' k'
    using that pairedD(2) [OF assms(1), of s' k'] assms(2) by (auto split: if_splits)
qed

definition rl_wf :: "rate_limiter \<Rightarrow> bool" where
  "rl_wf rl \<longleftrightarrow> hm_wf (rl_map rl) \<and> bt_wf (rl_order rl) \<and> paired (map_of (rl_order rl)) (map_of (rl_map rl))
     \<and> (\<forall>sq. map_of (rl_order rl) sq \<noteq> None \<longrightarrow> sq \<le> rl_seq rl)"

lemma rl_wfD:
  assumes "rl_wf rl"
  shows "hm_wf (rl_map rl)" "bt_wf (rl_order rl)" "paired (map_of (rl_order rl)) (map_of (rl_map rl))"
    "rl_seq rl < sq \<Longrightarrow> map_of (rl_order rl) sq = None"
  using assms by (auto simp: rl_wf_def simp flip: not_le)

lemma hm_length: "hm_wf m \<Longrightarrow> length m = card (dom (map_of m))"
  by (metis distinct_card dom_map_of_conv_image_fst image_set length_map)

lemma hm_length_remove:
  assumes "hm_wf m" and "map_of m k \<noteq> None"
  shows "Suc (length (hm_remove k m)) = length m"
proof -
  have "dom (map_of (hm_remove k m)) = dom (map_of m) - {k}" by (simp add: dom_fun_upd)
  moreover have "k \<in> dom (map_of m)" using assms(2) by blast
  ultimately show ?thesis
    using hm_length [OF assms(1)] hm_length [OF hm_wf_remove [OF assms(1)], of k] card_Suc_Diff1 [OF finite_dom_map_of]
    by metis
qed

lemma hm_length_insert:
  assumes "hm_wf m"
  shows "length (hm_insert k v m) = (if map_of m k = None then Suc (length m) else length m)"
proof -
  have "dom (map_of (hm_insert k v m)) = insert k (dom (map_of m))" by simp
  then have "length (hm_insert k v m) = card (insert k (dom (map_of m)))"
    using hm_length [OF hm_wf_insert [OF assms]] by metis
  then show ?thesis
    using hm_length [OF assms] by (simp add: card_insert_if finite_dom_map_of domIff)
qed

lemma drop_key_wf:
  assumes "rl_wf rl"
  shows "rl_wf (drop_key k rl) \<and> length (rl_map (drop_key k rl)) \<le> length (rl_map rl)"
proof (cases "map_of (rl_map rl) k")
  case None
  with assms show ?thesis by (simp add: drop_key_def)
next
  case (Some e)
  obtain w c sq where e: "e = (w, c, sq)" by (rule prod_cases3)
  let ?rl = "rl\<lparr>rl_map := hm_remove k (rl_map rl), rl_order := bt_remove sq (rl_order rl)\<rparr>"
  have eq: "drop_key k rl = ?rl" by (simp only: drop_key_def Some e option.case prod.case)
  have "paired (map_of (rl_order ?rl)) (map_of (rl_map ?rl))"
    using paired_remove [OF rl_wfD(3) [OF assms] Some [unfolded e]] rl_wfD(2) [OF assms] by simp
  then have "rl_wf ?rl" using assms by (auto simp: rl_wf_def)
  moreover have "Suc (length (rl_map ?rl)) = length (rl_map rl)"
    using hm_length_remove [OF rl_wfD(1) [OF assms], of k] Some by simp
  ultimately show ?thesis unfolding eq by linarith
qed

lemma drop_stale_wf:
  assumes "rl_wf rl"
  shows "rl_wf (drop_stale window rl) \<and> length (rl_map (drop_stale window rl)) \<le> length (rl_map rl)"
proof -
  have "rl_wf (fold drop_key ks rl) \<and> length (rl_map (fold drop_key ks rl)) \<le> length (rl_map rl)" for ks
    using assms
  proof (induction ks arbitrary: rl)
    case (Cons k ks)
    from Cons.IH [of "drop_key k rl"] drop_key_wf [OF Cons.prems, of k] show ?case by (simp add: order_trans)
  qed simp
  then show ?thesis by (simp add: drop_stale_def)
qed

lemma pop_oldest_wf:
  assumes "rl_wf rl" and "rl_map rl \<noteq> []"
  shows "rl_wf (pop_oldest rl) \<and> Suc (length (rl_map (pop_oldest rl))) = length (rl_map rl)"
proof -
  note pr = rl_wfD(3) [OF assms(1)]
  obtain k w c sq where "map_of (rl_map rl) k = Some (w, c, sq)"
    using assms(2) by (cases "rl_map rl") (force, metis map_of_Cons_code(2) prod_cases4)
  then have "map_of (rl_order rl) sq = Some k" using pr unfolding paired_def by blast
  then obtain sq old rest where o: "rl_order rl = (sq, old) # rest" by (cases "rl_order rl") auto
  have wf: "bt_wf ((sq, old) # rest)" using rl_wfD(2) [OF assms(1)] o by simp
  have "map_of rest sq = None" using bt_wf_distinct [OF wf] by (simp add: map_of_eq_None_iff)
  then have at: "map_of rest = (map_of (rl_order rl))(sq := None)" using o by (auto simp: fun_eq_iff)
  have "map_of (rl_order rl) sq = Some old" using o by simp
  then obtain w c where m: "map_of (rl_map rl) old = Some (w, c, sq)" using pr unfolding paired_def by blast
  let ?rl = "rl\<lparr>rl_order := rest, rl_map := hm_remove old (rl_map rl), rl_evictions := rl_evictions rl + 1\<rparr>"
  have eq: "pop_oldest rl = ?rl" by (simp add: pop_oldest_def o)
  have "paired (map_of (rl_order ?rl)) (map_of (rl_map ?rl))" using paired_remove [OF pr m] at by simp
  moreover have "bt_wf rest" using wf by simp
  ultimately have "rl_wf ?rl" using assms(1) at by (auto simp: rl_wf_def split: if_splits)
  with hm_length_remove [OF rl_wfD(1) [OF assms(1)], of old] m show ?thesis unfolding eq by simp
qed

lemma add_key_wf:
  assumes "rl_wf rl"
  shows "rl_wf (add_key key window rl)" and "map_of (rl_map (add_key key window rl)) key \<noteq> None"
    and "length (rl_map (add_key key window rl)) = (if map_of (rl_map rl) key = None then Suc (length (rl_map rl)) else length (rl_map rl))"
proof -
  show "rl_wf (add_key key window rl)"
  proof (cases "map_of (rl_map rl) key")
    case None
    let ?sq = "rl_seq rl + 1"
    let ?rl = "rl\<lparr>rl_seq := ?sq, rl_order := bt_insert ?sq key (rl_order rl),
        rl_map := hm_insert key (window, 0, ?sq) (rl_map rl)\<rparr>"
    have "map_of (rl_order rl) ?sq = None" by (rule rl_wfD(4) [OF assms]) simp
    then have "paired (map_of (rl_order ?rl)) (map_of (rl_map ?rl))"
      using paired_add [OF rl_wfD(3) [OF assms] _ None] rl_wfD(2) [OF assms] by simp
    then have "rl_wf ?rl" using assms by (auto simp: rl_wf_def le_Suc_eq)
    with None show ?thesis by (simp add: add_key_def)
  qed (use assms in \<open>simp add: add_key_def\<close>)
  show "map_of (rl_map (add_key key window rl)) key \<noteq> None" by (simp add: add_key_def)
  show "length (rl_map (add_key key window rl)) = (if map_of (rl_map rl) key = None then Suc (length (rl_map rl)) else length (rl_map rl))"
    using hm_length_insert [OF rl_wfD(1) [OF assms]] by (simp add: add_key_def)
qed

lemma recount_wf:
  assumes "rl_wf rl" and "map_of (rl_map rl) key = Some (w, c, sq)"
  shows "rl_wf (rl\<lparr>rl_map := hm_insert key (w', c', sq) (rl_map rl)\<rparr>)
    \<and> length (hm_insert key (w', c', sq) (rl_map rl)) = length (rl_map rl)"
  using paired_recount [OF rl_wfD(3) [OF assms(1)] assms(2)] assms hm_length_insert [OF rl_wfD(1) [OF assms(1)]]
  by (simp add: rl_wf_def)

lemma count_key_wf:
  assumes "rl_wf rl"
  shows "rl_wf (snd (count_key key window limit rl)) \<and> length (rl_map (snd (count_key key window limit rl))) = length (rl_map rl)"
proof (cases "map_of (rl_map rl) key")
  case (Some e)
  obtain w c sq where "e = (w, c, sq)" by (rule prod_cases3)
  with Some recount_wf [OF assms] show ?thesis by (simp add: count_key_def Let_def)
qed (use assms in \<open>simp add: count_key_def\<close>)

lemma make_room_wf:
  assumes "rl_wf rl" and "length (rl_map rl) \<le> RATE_LIMIT_MAX_KEYS" and "make_room key window rl = (ok, rl')"
  shows "rl_wf rl'" and "length (rl_map rl') \<le> RATE_LIMIT_MAX_KEYS"
    and "ok \<Longrightarrow> map_of (rl_map rl') key = None \<Longrightarrow> length (rl_map rl') < RATE_LIMIT_MAX_KEYS"
proof -
  let ?s = "drop_stale window rl"
  have s: "rl_wf ?s" "length (rl_map ?s) \<le> RATE_LIMIT_MAX_KEYS"
    using drop_stale_wf [OF assms(1), of window] assms(2) by auto
  have ne: "rl_map ?s \<noteq> []" if "RATE_LIMIT_MAX_KEYS \<le> length (rl_map ?s)"
    using that by (auto simp: RATE_LIMIT_MAX_KEYS_def)
  have p: "rl_wf (pop_oldest ?s)" "length (rl_map (pop_oldest ?s)) < RATE_LIMIT_MAX_KEYS"
    if "RATE_LIMIT_MAX_KEYS \<le> length (rl_map ?s)"
    using pop_oldest_wf [OF s(1) ne [OF that]] s(2) by auto
  have "rl_wf rl' \<and> length (rl_map rl') \<le> RATE_LIMIT_MAX_KEYS
      \<and> (ok \<longrightarrow> map_of (rl_map rl') key = None \<longrightarrow> length (rl_map rl') < RATE_LIMIT_MAX_KEYS)"
    using assms s p by (auto simp: make_room_def Let_def not_le less_imp_le split: if_splits)
  then show "rl_wf rl'" and "length (rl_map rl') \<le> RATE_LIMIT_MAX_KEYS"
    and "ok \<Longrightarrow> map_of (rl_map rl') key = None \<Longrightarrow> length (rl_map rl') < RATE_LIMIT_MAX_KEYS"
    by blast+
qed

lemma rl_check_wf:
  assumes "rl_wf rl" and "length (rl_map rl) \<le> RATE_LIMIT_MAX_KEYS"
  shows "rl_wf (snd (rl_check key limit now rl)) \<and> length (rl_map (snd (rl_check key limit now rl))) \<le> RATE_LIMIT_MAX_KEYS"
proof -
  let ?w = "now div 60"
  let ?r = "if rl_evict_window rl \<noteq> ?w then rl\<lparr>rl_evict_window := ?w, rl_evictions := 0\<rparr> else rl"
  have r: "rl_wf ?r" "length (rl_map ?r) \<le> RATE_LIMIT_MAX_KEYS" using assms by (simp_all add: rl_wf_def)
  obtain ok rl' where m: "make_room key ?w ?r = (ok, rl')" by (rule prod.exhaust)
  note room = make_room_wf [OF r m]
  let ?a = "add_key key ?w rl'"
  have a: "rl_wf ?a" "ok \<Longrightarrow> length (rl_map ?a) \<le> RATE_LIMIT_MAX_KEYS"
    using add_key_wf(1,3) [OF room(1), of key ?w] room(2,3) by (auto simp: Suc_le_eq)
  have "snd (rl_check key limit now rl) = (if \<not> ok then rl' else snd (count_key key ?w limit ?a))"
    by (simp add: rl_check_def Let_def m)
  with room(1,2) a count_key_wf [OF a(1), of key ?w limit] show ?thesis by simp
qed

section \<open>Every source gets its allowance\<close>

text \<open>The limiter after a history of attempts, each with its time.\<close>

definition rl_after :: "nat \<Rightarrow> (string \<times> nat) list \<Rightarrow> rate_limiter" where
  "rl_after limit h = foldl (\<lambda>rl (k, t). snd (rl_check k limit t rl)) rate_limiter_default h"

definition attempts :: "(string \<times> nat) list \<Rightarrow> string \<Rightarrow> nat \<Rightarrow> nat" where
  "attempts h key w = length (filter (\<lambda>(k, t). k = key \<and> t div 60 = w) h)"

definition in_order :: "(string \<times> nat) list \<Rightarrow> bool" where
  "in_order h \<longleftrightarrow> sorted (map (\<lambda>(k, t). t div 60) h)"

definition rl_counts :: "(string \<times> nat) list \<Rightarrow> rate_limiter \<Rightarrow> bool" where
  "rl_counts h rl \<longleftrightarrow> rl_wf rl \<and> dom (map_of (rl_map rl)) = fst ` set h
     \<and> (\<forall>k w c sq. map_of (rl_map rl) k = Some (w, c, sq) \<longrightarrow>
          (\<forall>t. (k, t) \<in> set h \<longrightarrow> t div 60 \<le> w) \<and> (\<exists>t. (k, t) \<in> set h \<and> t div 60 = w) \<and> c = min (attempts h k w) (2 ^ 32 - 1))"

lemma attempts_none: "(\<And>t. (k, t) \<in> set h \<Longrightarrow> t div 60 \<noteq> w) \<Longrightarrow> attempts h k w = 0"
  by (auto simp: attempts_def filter_empty_conv)

lemma attempts_snoc:
  "attempts (h @ [(k, t)]) k' w = attempts h k' w + (if k' = k \<and> t div 60 = w then 1 else 0)"
  by (simp add: attempts_def)

lemma rl_check_counts:
  assumes "rl_counts h rl" and "in_order (h @ [(key, now)])"
    and "card (insert key (fst ` set h)) \<le> RATE_LIMIT_MAX_KEYS"
  shows "rl_counts (h @ [(key, now)]) (snd (rl_check key limit now rl))"
    and "fst (rl_check key limit now rl) \<longleftrightarrow> min (attempts h key (now div 60) + 1) (2 ^ 32 - 1) \<le> limit"
proof -
  let ?w = "now div 60"
  define r where "r = (if rl_evict_window rl \<noteq> ?w then rl\<lparr>rl_evict_window := ?w, rl_evictions := 0\<rparr> else rl)"
  have rm: "rl_map r = rl_map rl" by (simp add: r_def)
  have r: "rl_wf r" using assms(1) by (simp add: r_def rl_counts_def rl_wf_def)
  have dom: "dom (map_of (rl_map rl)) = fst ` set h" using assms(1) by (simp add: rl_counts_def)
  have room: "make_room key ?w r = (True, r)"
  proof (cases "map_of (rl_map rl) key")
    case None
    then have "key \<notin> fst ` set h" using dom by blast
    then have "length (rl_map rl) < RATE_LIMIT_MAX_KEYS"
      using assms(3) hm_length [OF rl_wfD(1) [OF r], unfolded rm] dom by simp
    then show ?thesis unfolding make_room_def rm by simp
  qed (unfold make_room_def rm, simp)
  let ?a = "add_key key ?w r"
  obtain w c sq where e: "map_of (rl_map ?a) key = Some (w, c, sq)"
    using add_key_wf(2) [OF r, of key ?w] by (cases "map_of (rl_map ?a) key") auto
  have cnt: "(if w \<noteq> ?w then 0 else c) = min (attempts h key ?w) (2 ^ 32 - 1)"
  proof (cases "map_of (rl_map rl) key")
    case None
    then have "key \<notin> fst ` set h" using dom by blast
    then have "attempts h key ?w = 0" by (intro attempts_none) force
    moreover have "w = ?w" "c = 0" using e None rm by (simp_all add: add_key_def)
    ultimately show ?thesis by simp
  next
    case (Some x)
    then have "map_of (rl_map rl) key = Some (w, c, sq)" using e rm by (simp add: add_key_def split: if_splits)
    then have old: "\<forall>t. (key, t) \<in> set h \<longrightarrow> t div 60 \<le> w" "c = min (attempts h key w) (2 ^ 32 - 1)"
        "\<exists>t. (key, t) \<in> set h \<and> t div 60 = w"
      using assms(1) unfolding rl_counts_def by blast+
    have "w \<le> ?w" using old(3) assms(2) by (auto simp: in_order_def sorted_append)
    have "attempts h key ?w = 0" if "w \<noteq> ?w"
      using old(1) that \<open>w \<le> ?w\<close> by (intro attempts_none) fastforce
    with old(2) show ?thesis by simp
  qed
  let ?c = "min (attempts h key ?w + 1) (2 ^ 32 - 1)"
  have sat: "sat_add32 (if w \<noteq> ?w then 0 else c) = ?c" unfolding cnt sat_add32_def by (simp add: min_def)
  have run: "rl_check key limit now rl = (?c \<le> limit, ?a\<lparr>rl_map := hm_insert key (?w, ?c, sq) (rl_map ?a)\<rparr>)"
    unfolding rl_check_def Let_def r_def [symmetric] room count_key_def by (simp only: e sat option.case prod.case Let_def simp_thms if_False)
  show "fst (rl_check key limit now rl) \<longleftrightarrow> ?c \<le> limit" by (simp add: run)
  have "rl_wf (snd (rl_check key limit now rl))"
    using recount_wf [OF add_key_wf(1) [OF r] e] by (simp add: run)
  moreover have "map_of (rl_map (snd (rl_check key limit now rl))) = (map_of (rl_map rl))(key \<mapsto> (?w, ?c, sq))"
    by (auto simp: run add_key_def rm)
  moreover have "in_order h" "\<forall>(k, t) \<in> set h. t div 60 \<le> ?w"
    using assms(2) by (auto simp: in_order_def sorted_append)
  ultimately show "rl_counts (h @ [(key, now)]) (snd (rl_check key limit now rl))"
    using assms(1) by (auto simp: rl_counts_def attempts_snoc)
qed

lemma rl_after_counts:
  "in_order h \<Longrightarrow> card (fst ` set h) \<le> RATE_LIMIT_MAX_KEYS \<Longrightarrow> rl_counts h (rl_after limit h)"
proof (induction h rule: rev_induct)
  case Nil
  show ?case by (simp add: rl_counts_def rl_after_def rate_limiter_default_def rl_wf_def paired_def)
next
  case (snoc e h)
  obtain k t where e: "e = (k, t)" by (cases e)
  have "card (fst ` set h) \<le> card (fst ` set (h @ [e]))" by (rule card_mono) auto
  with snoc have "rl_counts h (rl_after limit h)" by (simp add: in_order_def sorted_append)
  from rl_check_counts(1) [OF this, of k t limit] snoc.prems e show ?case by (simp add: rl_after_def)
qed

section \<open>Properties\<close>

text \<open>
  C35. The limiter is exact. While the clock does not go back and at most 65536 sources are seen, the
  attempt of a source passes exactly when it has made fewer than \<open>limit\<close> attempts in the same minute,
  whatever the other sources did.
\<close>

theorem rate_limit_exact:
  assumes "in_order (h @ [(key, now)])" and "card (insert key (fst ` set h)) \<le> RATE_LIMIT_MAX_KEYS"
    and "limit < 2 ^ 32 - 1"
  shows "fst (rl_check key limit now (rl_after limit h)) \<longleftrightarrow> attempts h key (now div 60) < limit"
proof -
  have "card (fst ` set h) \<le> RATE_LIMIT_MAX_KEYS" using assms(2) card_mono [of "insert key (fst ` set h)" "fst ` set h"]
    by (meson List.finite_set finite.insertI finite_imageI order_trans subset_insertI)
  moreover have "in_order h" using assms(1) by (simp add: in_order_def sorted_append)
  ultimately have "rl_counts h (rl_after limit h)" by (intro rl_after_counts)
  from rl_check_counts(2) [OF this assms(1,2), of limit] assms(3) show ?thesis by auto
qed

theorem rate_limit_exact_witness:
  "\<not> fst (rl_check ''a'' 2 61 (rl_after 2 [(''a'', 59), (''a'', 60), (''b'', 60), (''a'', 60)]))"
  using rate_limit_exact [of "[(''a'', 59), (''a'', 60), (''b'', 60), (''a'', 60)]" "''a''" 61 2]
  by (simp add: in_order_def attempts_def RATE_LIMIT_MAX_KEYS_def card_insert_if)

inductive rl_reach :: "rate_limiter \<Rightarrow> bool" where
  start: "rl_reach rate_limiter_default"
| check: "rl_reach rl \<Longrightarrow> rl_reach (snd (rl_check key limit now rl))"
| refund: "rl_reach rl \<Longrightarrow> rl_reach (rl_refund key rl)"

lemma rl_refund_wf:
  assumes "rl_wf rl"
  shows "rl_wf (rl_refund key rl) \<and> length (rl_map (rl_refund key rl)) = length (rl_map rl)"
proof (cases "map_of (rl_map rl) key")
  case (Some e)
  obtain w c sq where "e = (w, c, sq)" by (rule prod_cases3)
  with Some recount_wf [OF assms] show ?thesis by (simp add: rl_refund_def)
qed (use assms in \<open>simp add: rl_refund_def\<close>)

lemma rl_reach_wf: "rl_reach rl \<Longrightarrow> rl_wf rl \<and> length (rl_map rl) \<le> RATE_LIMIT_MAX_KEYS"
proof (induction rule: rl_reach.induct)
  case start
  show ?case by (simp add: rl_wf_def rate_limiter_default_def paired_def)
next
  case check
  then show ?case using rl_check_wf by blast
next
  case refund
  then show ?case using rl_refund_wf by simp
qed

text \<open>
  C36. Whatever is asked of it, in whatever order, the limiter tracks at most 65536 sources, and its two
  tables name the same ones.
\<close>

theorem rate_table_bounded:
  assumes "rl_reach rl"
  shows "rl_len rl \<le> 65536 \<and> set (map snd (rl_order rl)) = set (map fst (rl_map rl))"
proof -
  have wf: "rl_wf rl" and len: "length (rl_map rl) \<le> RATE_LIMIT_MAX_KEYS" using rl_reach_wf [OF assms] by simp_all
  note pr = rl_wfD(3) [OF wf]
  have "k \<in> set (map snd (rl_order rl)) \<longleftrightarrow> (\<exists>sq. map_of (rl_order rl) sq = Some k)" for k
    using snd_set_members [OF rl_wfD(2) [OF wf]] by simp
  moreover have "k \<in> set (map fst (rl_map rl)) \<longleftrightarrow> map_of (rl_map rl) k \<noteq> None" for k
    by (metis domIff dom_map_of_conv_image_fst set_map)
  moreover have "(\<exists>sq. map_of (rl_order rl) sq = Some k) \<longleftrightarrow> map_of (rl_map rl) k \<noteq> None" for k
    using pairedD [OF pr] by (metis not_None_eq prod_cases3)
  ultimately have "set (map snd (rl_order rl)) = set (map fst (rl_map rl))" by blast
  with len show ?thesis by (simp add: rl_len_def RATE_LIMIT_MAX_KEYS_def)
qed

theorem rate_table_bounded_witness:
  "rl_len (snd (rl_check ''a'' 2 61 rate_limiter_default)) \<le> 65536"
  using rate_table_bounded [OF rl_reach.check [OF rl_reach.start]] by simp

end
