(* ===== verification/Nq_Tables.thy ===== *)
theory Nq_Tables
  imports Nq_Frame
begin

text \<open>
  The relay's forwarding tables and the forwarding decision
  (\<open>crates/nqvpn-relay/src/tables.rs\<close>), with the counters kept per decision. The token bucket of that
  file works on floating-point numbers and wall-clock instants and is not modelled: its verdict is an
  argument of the definitions that consult it.
\<close>

section \<open>Routes and origins\<close>

datatype route = Local node_id | Mesh node_id | Me | Drop decision

fun route_decision :: "route \<Rightarrow> decision" where
  "route_decision (Local _) = DeliverLocal"
| "route_decision (Mesh _) = ForwardMesh"
| "route_decision Me = TerminateHere"
| "route_decision (Drop d) = d"

datatype origin = FromClient node_id | FromRelay node_id

section \<open>Tables\<close>

record tables =
  tb_my_node_id :: node_id
  tb_local :: "(node_id, unit) hmap"
  tb_attachments :: "(node_id, node_id) hmap"
  tb_mesh :: "(node_id, unit) hmap"

definition tables_new :: "node_id \<Rightarrow> tables" where
  "tables_new me = \<lparr>tb_my_node_id = me, tb_local = [], tb_attachments = [], tb_mesh = []\<rparr>"

definition set_local :: "node_id \<Rightarrow> bool \<Rightarrow> tables \<Rightarrow> tables" where
  "set_local n present t =
     t\<lparr>tb_local := (if present then hm_insert n () (tb_local t) else hm_remove n (tb_local t))\<rparr>"

definition set_mesh :: "node_id \<Rightarrow> bool \<Rightarrow> tables \<Rightarrow> tables" where
  "set_mesh r present t =
     t\<lparr>tb_mesh := (if present then hm_insert r () (tb_mesh t) else hm_remove r (tb_mesh t))\<rparr>"

text \<open>Collecting into a \<open>HashMap\<close>: a later entry with the same key replaces an earlier one.\<close>

definition hm_collect :: "('k \<times> 'v) list \<Rightarrow> ('k, 'v) hmap" where
  "hm_collect kvs = fold (\<lambda>e m. hm_insert (fst e) (snd e) m) kvs []"

definition replace_attachments :: "(node_id \<times> node_id) list \<Rightarrow> tables \<Rightarrow> tables" where
  "replace_attachments es t = t\<lparr>tb_attachments := hm_collect es\<rparr>"

definition local_count :: "tables \<Rightarrow> nat" where "local_count t = length (tb_local t)"
definition mesh_count :: "tables \<Rightarrow> nat" where "mesh_count t = length (tb_mesh t)"

definition has_key :: "('k, 'v) hmap \<Rightarrow> 'k \<Rightarrow> bool" where
  "has_key m k \<longleftrightarrow> map_of m k \<noteq> None"

definition spoofed :: "tables \<Rightarrow> origin \<Rightarrow> node_id \<Rightarrow> bool" where
  "spoofed t org src_id =
     (case org of
        FromClient session_node \<Rightarrow> session_node \<noteq> src_id
      | FromRelay relay \<Rightarrow> src_id \<noteq> relay \<and> map_of (tb_attachments t) src_id \<noteq> Some relay)"

definition route_for :: "tables \<Rightarrow> origin \<Rightarrow> node_id \<Rightarrow> node_id \<Rightarrow> route" where
  "route_for t org src_id dst_id =
     (if spoofed t org src_id then Drop DropSrcSpoofed
      else if dst_id = tb_my_node_id t then Me
      else if has_key (tb_local t) dst_id then Local dst_id
      else case org of
        FromRelay _ \<Rightarrow> Drop DropNoSecondHop
      | FromClient _ \<Rightarrow>
          if has_key (tb_mesh t) dst_id then Mesh dst_id
          else case map_of (tb_attachments t) dst_id of
            Some relay \<Rightarrow> if has_key (tb_mesh t) relay then Mesh relay else Drop DropMeshLinkDown
          | None \<Rightarrow> Drop DropDstUnknown)"

section \<open>Counters\<close>

type_synonym counters = "u64 list"

definition counters_default :: counters where
  "counters_default = replicate (length decision_ALL) 0"

fun position :: "('a \<Rightarrow> bool) \<Rightarrow> 'a list \<Rightarrow> nat option" where
  "position P [] = None"
| "position P (x # xs) = (if P x then Some 0 else map_option Suc (position P xs))"

definition counters_note :: "decision \<Rightarrow> counters \<Rightarrow> counters" where
  "counters_note d c =
     (case position (\<lambda>x. x = d) decision_ALL of Some i \<Rightarrow> c[i := c ! i + 1] | None \<Rightarrow> c)"

definition counters_get :: "counters \<Rightarrow> decision \<Rightarrow> u64" where
  "counters_get c d = (case position (\<lambda>x. x = d) decision_ALL of Some i \<Rightarrow> c ! i | None \<Rightarrow> 0)"

definition counters_snapshot :: "counters \<Rightarrow> (string \<times> u64) list" where
  "counters_snapshot c = map (\<lambda>d. (decision_as_str d, counters_get c d)) decision_ALL"

record byte_counter =
  bc_bytes :: u64
  bc_pkts :: u64

definition byte_counter_default :: byte_counter where
  "byte_counter_default = \<lparr>bc_bytes = 0, bc_pkts = 0\<rparr>"

definition bc_add :: "u64 \<Rightarrow> byte_counter \<Rightarrow> byte_counter" where
  "bc_add n c = c\<lparr>bc_bytes := bc_bytes c + n, bc_pkts := bc_pkts c + 1\<rparr>"

record link_counters =
  lc_tx :: byte_counter
  lc_rx :: byte_counter

definition link_counters_default :: link_counters where
  "link_counters_default = \<lparr>lc_tx = byte_counter_default, lc_rx = byte_counter_default\<rparr>"

section \<open>Lemmas\<close>

lemma has_key_dom: "has_key m k \<longleftrightarrow> k \<in> dom (map_of m)"
  by (auto simp: has_key_def)

lemma has_key_update [simp]:
  "has_key (hm_insert k v m) j \<longleftrightarrow> j = k \<or> has_key m j"
  "has_key (hm_remove k m) j \<longleftrightarrow> j \<noteq> k \<and> has_key m j"
  "\<not> has_key [] j"
  by (auto simp: has_key_def)

lemma map_of_hm_collect: "map_of (hm_collect kvs) = map_of (rev kvs)"
proof -
  have "map_of (fold (\<lambda>e m. hm_insert (fst e) (snd e) m) kvs m) = map_of m ++ map_of (rev kvs)" for m
    by (induction kvs arbitrary: m) (auto simp: map_add_def fun_eq_iff split: option.splits)
  then show ?thesis by (simp add: hm_collect_def)
qed

lemma tables_simps [simp]:
  "tb_local (set_local n b t) = (if b then hm_insert n () (tb_local t) else hm_remove n (tb_local t))"
  "tb_mesh (set_local n b t) = tb_mesh t"
  "tb_attachments (set_local n b t) = tb_attachments t"
  "tb_my_node_id (set_local n b t) = tb_my_node_id t"
  "tb_mesh (set_mesh n b t) = (if b then hm_insert n () (tb_mesh t) else hm_remove n (tb_mesh t))"
  "tb_local (set_mesh n b t) = tb_local t"
  "tb_attachments (set_mesh n b t) = tb_attachments t"
  "tb_my_node_id (set_mesh n b t) = tb_my_node_id t"
  "tb_local (replace_attachments es t) = tb_local t"
  "tb_mesh (replace_attachments es t) = tb_mesh t"
  "tb_my_node_id (replace_attachments es t) = tb_my_node_id t"
  "tb_attachments (replace_attachments es t) = hm_collect es"
  by (simp_all add: set_local_def set_mesh_def replace_attachments_def)

lemma route_from_relay:
  "route_for t (FromRelay r) s d \<in> {Me, Local d, Drop DropSrcSpoofed, Drop DropNoSecondHop}"
  by (simp add: route_for_def)

lemma route_Mesh:
  "route_for t org s d = Mesh r \<Longrightarrow> org = FromClient s \<and> has_key (tb_mesh t) r
     \<and> (r = d \<or> map_of (tb_attachments t) d = Some r)"
  by (auto simp: route_for_def spoofed_def split: if_splits origin.splits option.splits)

lemma route_Local: "route_for t org s d = Local n \<Longrightarrow> n = d \<and> has_key (tb_local t) d"
  by (auto simp: route_for_def split: if_splits origin.splits option.splits)

lemma position_ALL: "\<exists>i. position (\<lambda>x. x = d) decision_ALL = Some i \<and> i < 12 \<and> decision_ALL ! i = d"
  by (cases d) (simp_all add: decision_ALL_def)

lemma position_ALL_inj:
  "position (\<lambda>x. x = d) decision_ALL = Some i \<Longrightarrow> position (\<lambda>x. x = d') decision_ALL = Some i \<Longrightarrow> d = d'"
  using position_ALL [of d] position_ALL [of d'] by auto

lemma counters_get_note:
  assumes "length c = 12"
  shows "counters_get (counters_note d c) d' = counters_get c d' + (if d = d' then 1 else 0)"
proof -
  obtain i j where "position (\<lambda>x. x = d) decision_ALL = Some i" "i < 12"
    "position (\<lambda>x. x = d') decision_ALL = Some j" "j < 12" "i = j \<longleftrightarrow> d = d'"
    using position_ALL [of d] position_ALL [of d'] position_ALL_inj by metis
  then show ?thesis using assms by (auto simp: counters_get_def counters_note_def)
qed

lemma length_counters_note [simp]: "length (counters_note d c) = length c"
  by (simp add: counters_note_def split: option.splits)

lemma length_counters_default [simp]: "length counters_default = 12"
  by (simp add: counters_default_def decision_ALL_def)

end
