(* ===== verification/Nq_Relay.thy ===== *)
theory Nq_Relay
  imports Nq_Tables Nq_Link Nq_Credential Nq_Net
begin

text \<open>
  One network as a relay sees it (\<open>crates/nqvpn-relay/src/net.rs\<close>): the sessions it holds, the data
  plane, admission, and reconciliation with the coordinator's view. An operation returns the effects
  it has on the outside (frames sent, sessions closed, dialers started) and the next state. A session
  is known by its connection; whether a channel takes a frame, the parsing of signing keys and the
  signature check are parameters.
\<close>

section \<open>State\<close>

definition S_CLOSE_REPLACED :: u32 where "S_CLOSE_REPLACED = 8"
definition S_CLOSE_EVICTED :: u32 where "S_CLOSE_EVICTED = 9"
definition S_CLOSE_STALE_LOGIN :: u32 where "S_CLOSE_STALE_LOGIN = 11"
definition COORD_ISS :: string where "COORD_ISS = ''nqvpn-coord''"
definition FRAME_SLACK :: nat where "FRAME_SLACK = ROUTED_HEADER_LEN + 8 + 16 + 256"
definition NO_VIEW_GRACE :: nat where "NO_VIEW_GRACE = 20"
definition TRACE_NOTES_PER_SEC :: u32 where "TRACE_NOTES_PER_SEC = 64"

record sess =
  se_conn :: nat
  se_node_id :: node_id
  se_login_gen :: u64
  se_peer_fp :: string

record held =
  he_id :: u64
  he_session :: sess
  he_dialed :: bool

record note_budget =
  nb_window :: nat
  nb_used :: u32

definition note_budget_new :: "nat \<Rightarrow> note_budget" where
  "note_budget_new now = \<lparr>nb_window = now, nb_used = 0\<rparr>"

text \<open>Times in milliseconds.\<close>

definition note_allow :: "nat \<Rightarrow> note_budget \<Rightarrow> bool \<times> note_budget" where
  "note_allow now b =
     (let b = (if now - nb_window b \<ge> 1000 then \<lparr>nb_window = now, nb_used = 0\<rparr> else b);
          b = b\<lparr>nb_used := nb_used b + 1\<rparr>
      in (nb_used b \<le> TRACE_NOTES_PER_SEC, b))"

datatype chaos = Duplicate | Corrupt u64 | ChaosDrop u64

record 'vk relay_net =
  rn_network_id :: string
  rn_network_uuid :: string
  rn_my_node_id :: node_id
  rn_view :: view
  rn_link :: link_handle
  rn_credential :: string
  rn_keys :: "(string \<times> 'vk) list"
  rn_tables :: tables
  rn_clients :: "(node_id, held) hmap"
  rn_mesh :: "(node_id, held) hmap"
  rn_dialers :: "(node_id, string) hmap"
  rn_session_seq :: u64
  rn_counters :: counters
  rn_traffic :: "(node_id, link_counters) hmap"
  rn_local_switched :: byte_counter
  rn_terminated :: byte_counter
  rn_endpoint :: bool
  rn_chaos :: "chaos option"
  rn_chaos_seq :: u64
  rn_exit_designated :: bool
  rn_exit_ready :: "exit_readiness option"
  rn_created :: nat
  rn_mtu_ceiling :: u32
  rn_max_frame :: u32

datatype effect =
    Send nat bytes
  | SendOn nat bytes u8
  | Deliver bytes
  | Close nat u32 string
  | Spawn relay_endpoint
  | Abort node_id
  | Present nat string
  | SyncEndpoint snapshot

definition relay_net_new :: "string \<Rightarrow> string \<Rightarrow> node_id \<Rightarrow> string \<Rightarrow> nat \<Rightarrow> 'vk relay_net" where
  "relay_net_new network_id network_uuid me cred now = \<lparr>
     rn_network_id = network_id, rn_network_uuid = network_uuid, rn_my_node_id = me,
     rn_view = view_new, rn_link = handle_default, rn_credential = cred, rn_keys = [],
     rn_tables = tables_new me, rn_clients = [], rn_mesh = [], rn_dialers = [], rn_session_seq = 1,
     rn_counters = counters_default, rn_traffic = [], rn_local_switched = byte_counter_default,
     rn_terminated = byte_counter_default, rn_endpoint = False, rn_chaos = None, rn_chaos_seq = 0,
     rn_exit_designated = False, rn_exit_ready = None, rn_created = now, rn_mtu_ceiling = 0,
     rn_max_frame = 0\<rparr>"

section \<open>Settings\<close>

definition set_exit_designated :: "ip_net list \<Rightarrow> 'vk relay_net \<Rightarrow> 'vk relay_net" where
  "set_exit_designated granted net =
     (let is_exit = (\<exists>c \<in> set granted. prefix_len c = 0);
          net = net\<lparr>rn_exit_designated := is_exit\<rparr>
      in if \<not> is_exit then net\<lparr>rn_exit_ready := None\<rparr> else net)"

text \<open>\<open>detected\<close> is what the self-check returns (\<open>None\<close> when its task failed), \<open>still\<close> whether the
  designation still stands when it does.\<close>

definition refresh_exit_readiness ::
    "exit_readiness option \<Rightarrow> bool \<Rightarrow> 'vk relay_net \<Rightarrow> 'vk relay_net" where
  "refresh_exit_readiness detected still net =
     net\<lparr>rn_exit_ready := (if rn_exit_designated net \<and> still then detected else None)\<rparr>"

definition set_mtu_ceiling :: "u16 \<Rightarrow> 'vk relay_net \<Rightarrow> 'vk relay_net" where
  "set_mtu_ceiling mtu net = net\<lparr>rn_mtu_ceiling := ucast mtu\<rparr>"

definition set_exit_readiness :: "exit_readiness \<Rightarrow> 'vk relay_net \<Rightarrow> 'vk relay_net" where
  "set_exit_readiness reading net =
     (if rn_exit_designated net then net\<lparr>rn_exit_ready := Some reading\<rparr> else net)"

definition set_chaos :: "chaos option \<Rightarrow> 'vk relay_net \<Rightarrow> 'vk relay_net" where
  "set_chaos m net = net\<lparr>rn_chaos := m\<rparr>"

definition close_all :: "(node_id, held) hmap \<Rightarrow> u32 \<Rightarrow> string \<Rightarrow> effect list" where
  "close_all m code why = map (\<lambda>e. Close (se_conn (he_session (snd e))) code why) m"

definition suspend :: "string \<Rightarrow> 'vk relay_net \<Rightarrow> effect list" where
  "suspend why net =
     close_all (rn_clients net) S_CLOSE_EVICTED why @ close_all (rn_mesh net) S_CLOSE_EVICTED why"

definition is_retired :: "'vk relay_net \<Rightarrow> bool" where
  "is_retired net \<longleftrightarrow> stop_reason (rn_link net) \<noteq> None"

definition retire :: "string \<Rightarrow> 'vk relay_net \<Rightarrow> effect list \<times> 'vk relay_net" where
  "retire why net =
     (map (\<lambda>e. Abort (fst e)) (rn_dialers net)
        @ (if rn_clients net \<noteq> [] \<or> rn_mesh net \<noteq> [] then suspend why net else []),
      net\<lparr>rn_dialers := []\<rparr>)"

text \<open>\<open>ours\<close> is the login generation of our own credential, when it can be read.\<close>

definition peer_says_stale :: "u64 option \<Rightarrow> string \<Rightarrow> 'vk relay_net \<Rightarrow> 'vk relay_net" where
  "peer_says_stale ours reason net =
     (case (ours, map_option pi_login_gen (snapshot_member (vw_snap (rn_view net)) (rn_my_node_id net))) of
        (Some o', Some published) \<Rightarrow>
          if published > o' then net\<lparr>rn_link := handle_replaced reason (rn_link net)\<rparr>
          else net\<lparr>rn_link := handle_kick (rn_link net)\<rparr>
      | _ \<Rightarrow> net\<lparr>rn_link := handle_kick (rn_link net)\<rparr>)"

definition close_mesh :: "node_id \<Rightarrow> 'vk relay_net \<Rightarrow> bool \<times> effect list" where
  "close_mesh peer net =
     (case map_of (rn_mesh net) peer of
        Some h \<Rightarrow> (True, [Close (se_conn (he_session h)) S_CLOSE_EVICTED ''link cut''])
      | None \<Rightarrow> (False, []))"

definition set_signing_keys :: "(string \<Rightarrow> 'vk option) \<Rightarrow> key_info list \<Rightarrow> 'vk relay_net \<Rightarrow> 'vk relay_net" where
  "set_signing_keys parse_key infos net =
     net\<lparr>rn_keys := List.map_filter (\<lambda>k. map_option (\<lambda>v. (ki_kid k, v)) (parse_key (ki_key k))) infos\<rparr>"

definition set_credential :: "string \<Rightarrow> 'vk relay_net \<Rightarrow> effect list \<times> 'vk relay_net" where
  "set_credential cred net =
     (map (\<lambda>e. Present (se_conn (he_session (snd e))) cred) (filter (\<lambda>e. he_dialed (snd e)) (rn_mesh net)),
      net\<lparr>rn_credential := cred\<rparr>)"

definition set_endpoint :: "'vk relay_net \<Rightarrow> 'vk relay_net" where
  "set_endpoint net = net\<lparr>rn_endpoint := True\<rparr>"

definition has_mesh :: "'vk relay_net \<Rightarrow> node_id \<Rightarrow> bool" where
  "has_mesh net peer = has_key (rn_mesh net) peer"

definition local_clients :: "'vk relay_net \<Rightarrow> node_id list" where
  "local_clients net = sort (map fst (rn_clients net))"

definition mesh_peers :: "'vk relay_net \<Rightarrow> node_id list" where
  "mesh_peers net = sort (map fst (rn_mesh net))"

section \<open>Session registration\<close>

record registration =
  rg_node :: node_id
  rg_id :: u64
  rg_mesh :: bool

definition reg_insert ::
    "node_id \<Rightarrow> sess \<Rightarrow> bool \<Rightarrow> bool \<Rightarrow> 'vk relay_net \<Rightarrow> registration \<times> effect list \<times> 'vk relay_net" where
  "reg_insert node session dialed mesh net =
     (let i = rn_session_seq net;
          net = net\<lparr>rn_session_seq := i + 1\<rparr>;
          h = \<lparr>he_id = i, he_session = session, he_dialed = dialed\<rparr>;
          old = map_of (if mesh then rn_mesh net else rn_clients net) node;
          net = (if mesh then net\<lparr>rn_mesh := hm_insert node h (rn_mesh net),
                                  rn_tables := set_mesh node True (rn_tables net)\<rparr>
                 else net\<lparr>rn_clients := hm_insert node h (rn_clients net),
                          rn_tables := set_local node True (rn_tables net)\<rparr>);
          eff = (case old of
              Some o' \<Rightarrow> [Close (se_conn (he_session o')) S_CLOSE_REPLACED
                (if mesh then ''replaced by a newer mesh session'' else ''replaced by a newer session'')]
            | None \<Rightarrow> []);
          net = net\<lparr>rn_link := handle_kick (rn_link net)\<rparr>
      in (\<lparr>rg_node = node, rg_id = i, rg_mesh = mesh\<rparr>, eff, net))"

definition reg_drop :: "registration \<Rightarrow> 'vk relay_net \<Rightarrow> 'vk relay_net" where
  "reg_drop r net =
     (case map_of (if rg_mesh r then rn_mesh net else rn_clients net) (rg_node r) of
        Some h \<Rightarrow>
          if he_id h = rg_id r then
            (if rg_mesh r
             then net\<lparr>rn_mesh := hm_remove (rg_node r) (rn_mesh net),
                      rn_tables := set_mesh (rg_node r) False (rn_tables net),
                      rn_link := handle_kick (rn_link net)\<rparr>
             else net\<lparr>rn_clients := hm_remove (rg_node r) (rn_clients net),
                      rn_tables := set_local (rg_node r) False (rn_tables net),
                      rn_link := handle_kick (rn_link net)\<rparr>)
          else net
      | None \<Rightarrow> net)"

section \<open>The data plane\<close>

definition with_link_counters ::
    "node_id \<Rightarrow> (link_counters \<Rightarrow> link_counters) \<Rightarrow> 'vk relay_net \<Rightarrow> 'vk relay_net" where
  "with_link_counters peer f net =
     net\<lparr>rn_traffic := hm_insert peer
       (f (case map_of (rn_traffic net) peer of Some c \<Rightarrow> c | None \<Rightarrow> link_counters_default))
       (rn_traffic net)\<rparr>"

definition net_note :: "decision \<Rightarrow> 'vk relay_net \<Rightarrow> 'vk relay_net" where
  "net_note d net = net\<lparr>rn_counters := counters_note d (rn_counters net)\<rparr>"

definition channel_for :: "'vk relay_net \<Rightarrow> route \<Rightarrow> nat option" where
  "channel_for net r =
     (case r of
        Local i \<Rightarrow> map_option (\<lambda>h. se_conn (he_session h)) (map_of (rn_clients net) i)
      | Mesh i \<Rightarrow> map_option (\<lambda>h. se_conn (he_session h)) (map_of (rn_mesh net) i)
      | _ \<Rightarrow> None)"

definition relay_trace ::
    "'vk relay_net \<Rightarrow> routed_header \<Rightarrow> u8 \<Rightarrow> nat option \<Rightarrow> decision \<Rightarrow> u32 \<Rightarrow> effect list" where
  "relay_trace net h hop arrived_on d detail =
     (if \<not> rh_traced h then []
      else
        let note = trace_note_encode \<lparr>tn_origin = rh_src_id h, tn_trace = rh_trace h, tn_hop = hop,
              tn_relay_id = rn_my_node_id net, tn_decision = d, tn_detail = detail\<rparr>
        in case arrived_on of
             Some chan \<Rightarrow> [Send chan note]
           | None \<Rightarrow> if rn_endpoint net then [Deliver note] else [])"

text \<open>What fault injection does to a frame about to be sent: nothing of it, or its bytes.\<close>

definition chaos_frame :: "'vk relay_net \<Rightarrow> u64 \<Rightarrow> bytes \<Rightarrow> bytes option" where
  "chaos_frame net seq buf =
     (case rn_chaos net of
        Some (ChaosDrop n) \<Rightarrow> if n > 0 \<and> seq mod n = 0 then None else Some buf
      | Some (Corrupt n) \<Rightarrow>
          Some (if n > 0 \<and> seq mod n = 0 \<and> buf \<noteq> []
                then buf[length buf - 1 := last buf + (1 + ucast (rn_my_node_id net mod 200))]
                else buf)
      | _ \<Rightarrow> Some buf)"

definition count_sent :: "route \<Rightarrow> origin \<Rightarrow> u64 \<Rightarrow> 'vk relay_net \<Rightarrow> 'vk relay_net" where
  "count_sent r org n net =
     (case (r, org) of
        (Mesh i, _) \<Rightarrow> with_link_counters i (\<lambda>c. c\<lparr>lc_tx := bc_add n (lc_tx c)\<rparr>) net
      | (Local _, FromClient _) \<Rightarrow> net\<lparr>rn_local_switched := bc_add n (rn_local_switched net)\<rparr>
      | _ \<Rightarrow> net)"

text \<open>
  A frame routed to a session: \<open>accepts\<close> says whether the channel takes it.
\<close>

definition forward_send ::
    "(nat \<Rightarrow> bool) \<Rightarrow> origin \<Rightarrow> nat option \<Rightarrow> routed_header \<Rightarrow> u8 \<Rightarrow> route \<Rightarrow> node_id \<Rightarrow> bytes \<Rightarrow> u8
      \<Rightarrow> 'vk relay_net \<Rightarrow> effect list \<times> 'vk relay_net" where
  "forward_send accepts org arrived_on h hop r detail buf lane net =
     (let seq = rn_chaos_seq net;
          net = net\<lparr>rn_chaos_seq := seq + 1\<rparr>
      in case chaos_frame net seq buf of
           None \<Rightarrow> ([], net)
         | Some frame \<Rightarrow>
           (case channel_for net r of
              Some c \<Rightarrow>
                if accepts c then
                  ((if rn_chaos net = Some Duplicate then [SendOn c frame lane] else [])
                     @ [SendOn c frame lane]
                     @ relay_trace net h hop arrived_on (route_decision r) detail,
                   count_sent r org (of_nat (length buf)) net)
                else (relay_trace net h hop arrived_on DropSendFailed detail, net_note DropSendFailed net)
            | None \<Rightarrow> (relay_trace net h hop arrived_on DropSendFailed detail, net_note DropSendFailed net)))"

definition forward_routed ::
    "(nat \<Rightarrow> bool) \<Rightarrow> origin \<Rightarrow> nat option \<Rightarrow> routed_header \<Rightarrow> u8 \<Rightarrow> bytes \<Rightarrow> u8
      \<Rightarrow> 'vk relay_net \<Rightarrow> effect list \<times> 'vk relay_net" where
  "forward_routed accepts org arrived_on h hop buf lane net =
     (let r = route_for (rn_tables net) org (rh_src_id h) (rh_dst_id h);
          net = net_note (route_decision r) net
      in case r of
           Local i \<Rightarrow> forward_send accepts org arrived_on h hop r i buf lane net
         | Mesh i \<Rightarrow> forward_send accepts org arrived_on h hop r i buf lane net
         | Me \<Rightarrow>
             if rn_endpoint net then
               (relay_trace net h hop arrived_on TerminateHere (rn_my_node_id net) @ [Deliver buf],
                net\<lparr>rn_terminated := bc_add (of_nat (length buf)) (rn_terminated net)\<rparr>)
             else (relay_trace net h hop arrived_on DropNoEndpoint 0, net_note DropNoEndpoint net)
         | Drop d \<Rightarrow> (relay_trace net h hop arrived_on d 0, net))"

text \<open>A trace note travelling back to the node that asked for it.\<close>

definition forward_note :: "origin \<Rightarrow> bytes \<Rightarrow> 'vk relay_net \<Rightarrow> effect list" where
  "forward_note org datagram net =
     (case (org, trace_note_parse datagram) of
        (FromRelay peer, Some note) \<Rightarrow>
          if tn_relay_id note \<noteq> peer then []
          else if tn_origin note = rn_my_node_id net then
            (if rn_endpoint net then [Deliver datagram] else [])
          else (case channel_for net (Local (tn_origin note)) of
                  Some c \<Rightarrow> [Send c datagram] | None \<Rightarrow> [])
      | _ \<Rightarrow> [])"

definition forward ::
    "(nat \<Rightarrow> bool) \<Rightarrow> origin \<Rightarrow> nat option \<Rightarrow> bytes \<Rightarrow> u8 \<Rightarrow> 'vk relay_net \<Rightarrow> effect list \<times> 'vk relay_net" where
  "forward accepts org arrived_on datagram lane net =
     (let net = (case org of
            FromRelay peer \<Rightarrow>
              with_link_counters peer (\<lambda>c. c\<lparr>lc_rx := bc_add (of_nat (length datagram)) (lc_rx c)\<rparr>) net
          | FromClient _ \<Rightarrow> net);
          max = unat (rn_max_frame net)
      in if max > 0 \<and> length datagram > max then ([], net_note DropMalformed net)
         else if datagram \<noteq> [] \<and> hd datagram = T_TRACE_NOTE then (forward_note org datagram net, net)
         else case rh_parse datagram of
           None \<Rightarrow> ([], net_note DropMalformed net)
         | Some h \<Rightarrow>
           (case bump_hop datagram of
              (None, _) \<Rightarrow> (relay_trace net h (rh_hop h) arrived_on DropTooManyHops 0,
                            net_note DropTooManyHops net)
            | (Some hop, buf) \<Rightarrow> forward_routed accepts org arrived_on h hop buf lane net))"

text \<open>\<open>allowed\<close> is the token bucket's verdict (\<open>True\<close> when there is no bucket).\<close>

definition forward_limited ::
    "bool \<Rightarrow> (nat \<Rightarrow> bool) \<Rightarrow> origin \<Rightarrow> nat option \<Rightarrow> bytes \<Rightarrow> u8 \<Rightarrow> 'vk relay_net
      \<Rightarrow> effect list \<times> 'vk relay_net" where
  "forward_limited allowed accepts org arrived_on datagram lane net =
     (if \<not> allowed then ([], net_note DropRateLimited net)
      else forward accepts org arrived_on datagram lane net)"

text \<open>
  What a mesh session does with a packet: trace notes are paid from the session's budget. \<open>now\<close> is
  the clock the budget reads, \<open>chan\<close> the session's own channel.
\<close>

definition mesh_receive ::
    "nat \<Rightarrow> (nat \<Rightarrow> bool) \<Rightarrow> node_id \<Rightarrow> nat \<Rightarrow> bytes \<Rightarrow> u8 \<Rightarrow> note_budget \<Rightarrow> 'vk relay_net
      \<Rightarrow> (effect list \<times> 'vk relay_net) \<times> note_budget" where
  "mesh_receive now accepts peer chan d lane b net =
     (if d \<noteq> [] \<and> hd d = T_TRACE_NOTE then
        (let (ok, b) = note_allow now b in
         (if \<not> ok then ([], net) else forward accepts (FromRelay peer) (Some chan) d lane net, b))
      else (forward accepts (FromRelay peer) (Some chan) d lane net, b))"

definition client_receive ::
    "bool \<Rightarrow> (nat \<Rightarrow> bool) \<Rightarrow> node_id \<Rightarrow> nat \<Rightarrow> bytes \<Rightarrow> u8 \<Rightarrow> 'vk relay_net
      \<Rightarrow> effect list \<times> 'vk relay_net" where
  "client_receive allowed accepts node chan d lane net =
     forward_limited allowed accepts (FromClient node) (Some chan) d lane net"

text \<open>After a mesh session ended and its registration was dropped.\<close>

definition mesh_ended ::
    "u64 option \<Rightarrow> bool \<Rightarrow> (u32 \<times> string) option \<Rightarrow> 'vk relay_net \<Rightarrow> 'vk relay_net" where
  "mesh_ended ours dialed close_reason net =
     (case (dialed, close_reason) of
        (True, Some (code, reason)) \<Rightarrow>
          if code = S_CLOSE_STALE_LOGIN then peer_says_stale ours reason net else net
      | _ \<Rightarrow> net)"

section \<open>Dialers\<close>

text \<open>
  One turn of the dialer of a peer: done, idle for some seconds, or dial the peer's address pinned to
  its fingerprint, presenting our credential. \<open>own\<close> is \<open>own_claims\<close> of that credential.
\<close>

datatype dialer_turn = DialDone | DialIdle nat | Dial string string string claims

definition dialer_next :: "claims option \<Rightarrow> relay_endpoint \<Rightarrow> 'vk relay_net \<Rightarrow> dialer_turn" where
  "dialer_next own entry net =
     (if is_retired net then DialDone
      else if is_refused (rn_link net) \<or> has_mesh net (re_relay_id entry) then DialIdle 5
      else case own of
             None \<Rightarrow> DialIdle 5
           | Some cl \<Rightarrow> Dial (re_addr entry) (re_cert_fp entry) (rn_credential net) cl)"

text \<open>
  A dial that failed: \<open>refused\<close> is the far end's close, when it was a deliberate refusal. Returns how
  long to sleep and the delay of the next failure (a dial that succeeds resets it to 1).
\<close>

definition dialer_failed ::
    "u64 option \<Rightarrow> (u32 \<times> string) option \<Rightarrow> nat \<Rightarrow> 'vk relay_net \<Rightarrow> nat \<times> nat \<times> 'vk relay_net" where
  "dialer_failed ours refused delay net =
     (delay, min (delay * 2) 30,
      case refused of
        Some (code, reason) \<Rightarrow>
          if code = S_CLOSE_STALE_LOGIN then peer_says_stale ours reason net else net
      | None \<Rightarrow> net)"

section \<open>Reports\<close>

definition relay_traffic_report :: "'vk relay_net \<Rightarrow> traffic_report \<times> 'vk relay_net" where
  "relay_traffic_report net =
     (let missing = filter (\<lambda>p. \<not> has_key (rn_traffic net) p) (map fst (rn_mesh net));
          net = net\<lparr>rn_traffic := fold (\<lambda>p m. hm_insert p link_counters_default m) missing (rn_traffic net)\<rparr>;
          links = map (\<lambda>(peer, c). \<lparr>lt_peer_id = peer,
              lt_tx_bytes = bc_bytes (lc_tx c), lt_tx_pkts = bc_pkts (lc_tx c),
              lt_rx_bytes = bc_bytes (lc_rx c), lt_rx_pkts = bc_pkts (lc_rx c),
              lt_up = has_key (rn_mesh net) peer\<rparr>) (rn_traffic net)
      in (\<lparr>tr_links = sort_key lt_peer_id links,
           tr_local_bytes = bc_bytes (rn_local_switched net), tr_local_pkts = bc_pkts (rn_local_switched net),
           tr_terminated_bytes = bc_bytes (rn_terminated net), tr_terminated_pkts = bc_pkts (rn_terminated net)\<rparr>,
          net))"

definition relay_heartbeat :: "'vk relay_net \<Rightarrow> heartbeat \<times> 'vk relay_net" where
  "relay_heartbeat net =
     (let attached = map (\<lambda>(n, h). \<lparr>ac_node_id = n, ac_session_id = he_id h\<rparr>) (rn_clients net);
          (traffic, net') = relay_traffic_report net
      in (\<lparr>hb_gen = 0, hb_digest = 0, hb_attached = attached, hb_mesh_up = mesh_peers net,
           hb_attached_to = None, hb_usable_mtu = 0, hb_traffic = Some traffic\<rparr>, net'))"

definition relay_exit_readiness :: "'vk relay_net \<Rightarrow> exit_readiness option" where
  "relay_exit_readiness net = rn_exit_ready net"

section \<open>Admission\<close>

datatype verify_error =
    NoKeys | Rejected cred_error | FpMismatch | SelfConnect | RelayRefused | RelayRetired
  | StaleLogin | RoleMismatch | NotInFleet | NotInView | NoViewYet

definition relay_verify ::
    "('sk, 'vk) jose \<Rightarrow> u64 \<Rightarrow> nat \<Rightarrow> string \<Rightarrow> string \<Rightarrow> 'vk relay_net \<Rightarrow> verify_error + claims" where
  "relay_verify J now instant cred presented_fp net =
     (if rn_keys net = [] then Inl NoKeys
      else case cred_verify J cred (rn_keys net)
          \<lparr>ex_iss = COORD_ISS, ex_network_id = rn_network_id net, ex_network_uuid = rn_network_uuid net\<rparr> now of
        Inl e \<Rightarrow> Inl (Rejected e)
      | Inr cl \<Rightarrow>
          if cl_cert_fp cl \<noteq> presented_fp then Inl FpMismatch
          else if cl_node_id cl = rn_my_node_id net then Inl SelfConnect
          else if is_refused (rn_link net) then Inl RelayRefused
          else if is_retired net then Inl RelayRetired
          else
            let s = vw_snap (rn_view net);
                known = (sn_members s \<noteq> []);
                in_fleet = (\<exists>r \<in> set (sn_relays s). re_relay_id r = cl_node_id cl)
            in case snapshot_member s (cl_node_id cl) of
                 Some m \<Rightarrow>
                   if cl_login_gen cl < pi_login_gen m then Inl StaleLogin
                   else if pi_role m \<noteq> cl_role cl then Inl RoleMismatch
                   else if cl_role cl = Relay \<and> \<not> in_fleet then Inl NotInFleet
                   else Inr cl
               | None \<Rightarrow>
                   if known then Inl NotInView
                   else if instant - rn_created net < NO_VIEW_GRACE then Inr cl
                   else Inl NoViewYet)"

section \<open>Reconciliation\<close>

text \<open>Why a held session is evicted under a view, if it is.\<close>

definition eviction :: "snapshot \<Rightarrow> held \<Rightarrow> (u32 \<times> string) option" where
  "eviction view h =
     (let node = se_node_id (he_session h) in
      case snapshot_member view node of
        None \<Rightarrow> Some (S_CLOSE_EVICTED, ''no longer a member'')
      | Some m \<Rightarrow>
          if he_dialed h then
            (case find (\<lambda>r. re_relay_id r = node) (sn_relays view) of
               Some r \<Rightarrow> if re_cert_fp r \<noteq> se_peer_fp (he_session h)
                         then Some (S_CLOSE_EVICTED, ''relay certificate changed'') else None
             | None \<Rightarrow> None)
          else if se_login_gen (he_session h) < pi_login_gen m
            then Some (S_CLOSE_STALE_LOGIN, ''replaced by a newer join'')
          else None)"

definition evictions :: "snapshot \<Rightarrow> 'vk relay_net \<Rightarrow> effect list" where
  "evictions view net =
     (if sn_members view = [] then []
      else List.map_filter (\<lambda>h. map_option (\<lambda>(code, why). Close (se_conn (he_session h)) code why) (eviction view h))
        (map snd (rn_clients net) @ map snd (rn_mesh net)))"

definition close_peer :: "'vk relay_net \<Rightarrow> node_id \<Rightarrow> string \<Rightarrow> effect list" where
  "close_peer net i why =
     (case map_of (rn_mesh net) i of
        Some h \<Rightarrow> [Close (se_conn (he_session h)) S_CLOSE_EVICTED why] | None \<Rightarrow> [])"

definition dialer_sig :: "relay_endpoint \<Rightarrow> string" where
  "dialer_sig r = re_addr r @ ''|'' @ re_cert_fp r"

definition wanted_dialers :: "snapshot \<Rightarrow> node_id \<Rightarrow> (node_id, relay_endpoint) hmap" where
  "wanted_dialers view me =
     hm_collect (map (\<lambda>r. (re_relay_id r, r)) (filter (\<lambda>r. re_relay_id r > me) (sn_relays view)))"

definition stop_dialer :: "node_id \<Rightarrow> effect list \<times> 'vk relay_net \<Rightarrow> effect list \<times> 'vk relay_net" where
  "stop_dialer i = (\<lambda>(eff, net).
     (eff @ (if has_key (rn_dialers net) i then [Abort i] else []) @ close_peer net i ''relay left the fleet'',
      net\<lparr>rn_dialers := hm_remove i (rn_dialers net)\<rparr>))"

definition start_dialer ::
    "node_id \<times> relay_endpoint \<Rightarrow> effect list \<times> 'vk relay_net \<Rightarrow> effect list \<times> 'vk relay_net" where
  "start_dialer w = (\<lambda>(eff, net).
     (case w of (i, entry) \<Rightarrow>
        if map_of (rn_dialers net) i = Some (dialer_sig entry) then (eff, net)
        else
          (eff @ (if has_key (rn_dialers net) i
                  then Abort i # close_peer net i ''relay address changed'' else [])
             @ [Spawn entry],
           net\<lparr>rn_dialers := hm_insert i (dialer_sig entry) (rn_dialers net)\<rparr>)))"

definition reconcile_dialers :: "snapshot \<Rightarrow> 'vk relay_net \<Rightarrow> effect list \<times> 'vk relay_net" where
  "reconcile_dialers view net =
     (let wanted = wanted_dialers view (rn_my_node_id net);
          gone = filter (\<lambda>i. \<not> has_key wanted i) (map fst (rn_dialers net))
      in fold start_dialer wanted (fold stop_dialer gone ([], net)))"

definition drop_unlisted :: "snapshot \<Rightarrow> 'vk relay_net \<Rightarrow> effect list" where
  "drop_unlisted view net =
     (if sn_relays view = [] then []
      else map (\<lambda>e. Close (se_conn (he_session (snd e))) S_CLOSE_EVICTED ''relay left the fleet'')
        (filter (\<lambda>e. fst e \<notin> re_relay_id ` set (sn_relays view)) (rn_mesh net)))"

definition prune_traffic :: "'vk relay_net \<Rightarrow> 'vk relay_net" where
  "prune_traffic net =
     net\<lparr>rn_traffic := filter (\<lambda>e. has_key (rn_clients net) (fst e) \<or> has_key (rn_mesh net) (fst e))
       (rn_traffic net)\<rparr>"

definition reconcile ::
    "(string \<Rightarrow> 'vk option) \<Rightarrow> snapshot \<Rightarrow> 'vk relay_net \<Rightarrow> effect list \<times> 'vk relay_net" where
  "reconcile parse_key view net =
     (let net = (if sn_keys view \<noteq> [] then set_signing_keys parse_key (sn_keys view) net else net) in
      if is_retired net then retire ''this relay was replaced in this network'' net
      else
        let net = net\<lparr>rn_tables := replace_attachments (map ae_pair (sn_attachments view)) (rn_tables net)\<rparr>;
            mtu = max (rn_mtu_ceiling net) (ucast (nm_mtu (sn_mtu view)));
            net = net\<lparr>rn_max_frame := (if mtu > 0 then mtu + of_nat FRAME_SLACK else 0)\<rparr>;
            evicted = evictions view net;
            (dialed, net) = reconcile_dialers view net;
            dropped = drop_unlisted view net;
            net = prune_traffic net
        in (evicted @ dialed @ dropped @ (if rn_endpoint net then [SyncEndpoint view] else []), net))"

end
