(* ===== verification/Nq_Mesh.thy ===== *)
theory Nq_Mesh
  imports Nq_Relay
begin

text \<open>
  Relays together: what one relay sends, another receives. A frame crosses at most one mesh link
  whatever the tables say, and reaches its destination when they agree.
\<close>

section \<open>What one relay sends\<close>

lemma chaos_frame_irrelevant [simp]:
  "chaos_frame (net\<lparr>rn_chaos_seq := x\<rparr>) seq buf = chaos_frame net seq buf"
  "chaos_frame (net_note d net) seq buf = chaos_frame net seq buf"
  "chaos_frame (with_link_counters p f net) seq buf = chaos_frame net seq buf"
  by (simp_all add: chaos_frame_def net_note_def with_link_counters_def split: option.split chaos.split)

lemma channel_for_irrelevant [simp]:
  "channel_for (net\<lparr>rn_chaos_seq := x\<rparr>) r = channel_for net r"
  "channel_for (net_note d net) r = channel_for net r"
  "channel_for (with_link_counters p f net) r = channel_for net r"
  by (simp_all add: channel_for_def net_note_def with_link_counters_def split: route.split)

lemma channel_for_none [simp]: "channel_for net Me = None" "channel_for net (Drop d) = None"
  by (simp_all add: channel_for_def)

lemma net_irrelevant [simp]:
  "rn_tables (net_note d net) = rn_tables net"
  "rn_tables (with_link_counters p f net) = rn_tables net"
  "rn_max_frame (with_link_counters p f net) = rn_max_frame net"
  "rn_chaos_seq (net_note d net) = rn_chaos_seq net"
  "rn_chaos_seq (with_link_counters p f net) = rn_chaos_seq net"
  "rn_chaos (net_note d net) = rn_chaos net"
  "rn_chaos (with_link_counters p f net) = rn_chaos net"
  "rn_endpoint (net_note d net) = rn_endpoint net"
  "rn_endpoint (with_link_counters p f net) = rn_endpoint net"
  by (simp_all add: net_note_def with_link_counters_def)

lemma SendOn_trace [simp]: "SendOn c b l \<notin> set (relay_trace net h hop a d detail)"
  by (auto simp: relay_trace_def Let_def split: option.splits)

lemma SendOn_note [simp]: "SendOn c b l \<notin> set (forward_note org d net)"
  by (auto simp: forward_note_def split: origin.splits option.splits)

lemma forward_send_SendOn:
  "SendOn c b l \<in> set (fst (forward_send accepts org a h hop r detail buf lane net)) \<Longrightarrow>
     channel_for net r = Some c \<and> accepts c \<and> l = lane
     \<and> chaos_frame net (rn_chaos_seq net) buf = Some b"
  by (auto simp: forward_send_def Let_def split: option.splits if_splits)

lemma forward_routed_SendOn:
  "SendOn c b l \<in> set (fst (forward_routed accepts org a h hop buf lane net)) \<Longrightarrow>
     channel_for net (route_for (rn_tables net) org (rh_src_id h) (rh_dst_id h)) = Some c
     \<and> chaos_frame net (rn_chaos_seq net) buf = Some b"
  by (auto simp: forward_routed_def Let_def split: route.splits if_splits
      dest!: forward_send_SendOn)

lemma forward_SendOn:
  assumes "SendOn c b l \<in> set (fst (forward accepts org a d lane net))"
  obtains h hop buf where "rh_parse d = Some h" "bump_hop d = (Some hop, buf)"
    "channel_for net (route_for (rn_tables net) org (rh_src_id h) (rh_dst_id h)) = Some c"
    "chaos_frame net (rn_chaos_seq net) buf = Some b"
  using assms
  by (cases "bump_hop d"; cases org)
    (auto simp: forward_def Let_def split: if_splits option.splits dest!: forward_routed_SendOn)

section \<open>Mesh links\<close>

definition conns :: "(node_id, held) hmap \<Rightarrow> nat set" where
  "conns m = (\<lambda>e. se_conn (he_session (snd e))) ` set m"

text \<open>Client and mesh sessions run over different connections.\<close>

definition conns_apart :: "'vk relay_net \<Rightarrow> bool" where
  "conns_apart net \<longleftrightarrow> conns (rn_clients net) \<inter> conns (rn_mesh net) = {}"

lemma channel_for_conns:
  "channel_for net (Local i) = Some c \<Longrightarrow> c \<in> conns (rn_clients net)"
  "channel_for net (Mesh i) = Some c \<Longrightarrow> c \<in> conns (rn_mesh net)"
  by (auto simp: channel_for_def conns_def image_iff dest!: map_of_SomeD
      intro!: bexI [where x = "(_, _)"])

text \<open>
  A frame in flight: the relay it arrives at, the session it arrives on, its bytes. One relay passes
  it on over the session it holds with a mesh peer, where it arrives as that relay's frame.
\<close>

type_synonym flight = "node_id \<times> origin \<times> bytes"

inductive mesh_hop :: "(node_id \<Rightarrow> 'vk relay_net) \<Rightarrow> flight \<Rightarrow> flight \<Rightarrow> bool"
  for nets :: "node_id \<Rightarrow> 'vk relay_net" where
  hop: "map_of (rn_mesh (nets r)) p = Some h
    \<Longrightarrow> SendOn (se_conn (he_session h)) b l \<in> set (fst (forward accepts org a d lane (nets r)))
    \<Longrightarrow> mesh_hop nets (r, org, d) (p, FromRelay r, b)"

inductive_cases mesh_hopE: "mesh_hop nets (r, org, d) y"

lemma mesh_hop_route:
  assumes "mesh_hop nets (r, org, d) y" and "conns_apart (nets r)"
  obtains h i where "rh_parse d = Some h" "org = FromClient (rh_src_id h)"
    "route_for (rn_tables (nets r)) org (rh_src_id h) (rh_dst_id h) = Mesh i"
proof -
  from assms(1) obtain p hd b l accepts a lane where
    m: "map_of (rn_mesh (nets r)) p = Some hd" and
    s: "SendOn (se_conn (he_session hd)) b l \<in> set (fst (forward accepts org a d lane (nets r)))"
    by (rule mesh_hopE)
  let ?c = "se_conn (he_session hd)"
  from s obtain h where h: "rh_parse d = Some h"
    and ch: "channel_for (nets r) (route_for (rn_tables (nets r)) org (rh_src_id h) (rh_dst_id h)) = Some ?c"
    by (rule forward_SendOn)
  have "?c \<in> conns (rn_mesh (nets r))"
    using map_of_SomeD [OF m] by (force simp: conns_def)
  then have "?c \<notin> conns (rn_clients (nets r))"
    using assms(2) by (auto simp: conns_apart_def)
  with ch obtain i where rt: "route_for (rn_tables (nets r)) org (rh_src_id h) (rh_dst_id h) = Mesh i"
    by (cases "route_for (rn_tables (nets r)) org (rh_src_id h) (rh_dst_id h)")
      (auto dest: channel_for_conns)
  from route_Mesh [OF rt] have "org = FromClient (rh_src_id h)" by simp
  with h rt that show ?thesis by blast
qed

lemma no_second_mesh_hop:
  assumes "mesh_hop nets x y" and "conns_apart (nets (fst y))"
  shows "\<not> mesh_hop nets y z"
proof
  assume z: "mesh_hop nets y z"
  from assms(1) obtain r p b where y: "y = (p, FromRelay r, b)" by (auto elim: mesh_hop.cases)
  from z assms(2) show False unfolding y
    by (auto elim: mesh_hop_route)
qed

section \<open>End to end\<close>

lemma forward_send_sends:
  "channel_for net r = Some c \<Longrightarrow> accepts c \<Longrightarrow> rn_chaos net = None
     \<Longrightarrow> SendOn c buf lane \<in> set (fst (forward_send accepts org a h hop r i buf lane net))"
  by (simp add: forward_send_def chaos_frame_def Let_def)

lemma forward_routed_sends:
  assumes "route_for (rn_tables net) org (rh_src_id h) (rh_dst_id h) = r" and "r = Local i \<or> r = Mesh i"
    and "channel_for net r = Some c" and "accepts c" and "rn_chaos net = None"
  shows "SendOn c buf lane \<in> set (fst (forward_routed accepts org a h hop buf lane net))"
  using assms by (auto simp: forward_routed_def Let_def intro!: forward_send_sends)

lemma forward_sends:
  assumes "rh_parse d = Some h" and "rh_hop h < 2" and "rn_chaos net = None"
    and "unat (rn_max_frame net) = 0 \<or> length d \<le> unat (rn_max_frame net)"
    and "route_for (rn_tables net) org (rh_src_id h) (rh_dst_id h) = r" and "r = Local i \<or> r = Mesh i"
    and "channel_for net r = Some c" and "accepts c"
  shows "\<exists>b. SendOn c b lane \<in> set (fst (forward accepts org a d lane net))
    \<and> rh_parse b = Some (h\<lparr>rh_hop := rh_hop h + 1\<rparr>)
    \<and> drop ROUTED_HEADER_LEN b = drop ROUTED_HEADER_LEN d \<and> length b = length d"
proof -
  from assms(1) obtain rest where k: "rh_kind h = T_DATA \<or> rh_kind h = T_HANDSHAKE"
    and d: "d = rh_write h [] @ rest" by (auto simp: rh_parse_iff)
  let ?b = "rh_write (h\<lparr>rh_hop := rh_hop h + 1\<rparr>) [] @ rest"
  have bump: "bump_hop d = (Some (rh_hop h + 1), ?b)"
    using assms(2) by (simp add: d bump_hop_write)
  have "d \<noteq> []" "hd d = rh_kind h" by (simp_all add: d rh_write_def)
  with k have not_note: "hd d \<noteq> T_TRACE_NOTE" by (auto simp: frame_consts)
  obtain net' where "forward accepts org a d lane net =
      forward_routed accepts org a h (rh_hop h + 1) ?b lane net'"
    "rn_tables net' = rn_tables net" "channel_for net' r = channel_for net r" "rn_chaos net' = rn_chaos net"
    using assms(1,4) not_note bump
    by (cases org) (auto simp: forward_def Let_def)
  then have "SendOn c ?b lane \<in> set (fst (forward accepts org a d lane net))"
    using assms forward_routed_sends [of net' org h r i c accepts ?b lane a "rh_hop h + 1"] by simp
  moreover have "rh_parse ?b = Some (h\<lparr>rh_hop := rh_hop h + 1\<rparr>)"
    unfolding rh_parse_iff using k by auto
  ultimately show ?thesis by (auto simp: d intro!: exI [where x = ?b])
qed

section \<open>Sessions and tables\<close>

text \<open>Operations that leave the session maps and the tables built from them alone.\<close>

definition same_sessions :: "'vk relay_net \<Rightarrow> 'vk relay_net \<Rightarrow> bool" where
  "same_sessions net net' \<longleftrightarrow> rn_clients net' = rn_clients net \<and> rn_mesh net' = rn_mesh net
     \<and> rn_session_seq net' = rn_session_seq net
     \<and> tb_local (rn_tables net') = tb_local (rn_tables net) \<and> tb_mesh (rn_tables net') = tb_mesh (rn_tables net)"

named_theorems same_sessions \<open>operations that leave the session maps alone\<close>

lemma same_sessions_refl [same_sessions, simp]: "same_sessions net net"
  by (simp add: same_sessions_def)

lemma same_sessions_trans:
  "same_sessions a b \<Longrightarrow> same_sessions b c \<Longrightarrow> same_sessions a c"
  by (simp add: same_sessions_def)

lemma same_sessions_note [same_sessions]: "same_sessions net (net_note d net)"
  by (simp add: same_sessions_def net_note_def)

lemma same_sessions_counters [same_sessions]: "same_sessions net (with_link_counters p f net)"
  by (simp add: same_sessions_def with_link_counters_def)

lemma same_sessions_sent [same_sessions]: "same_sessions net (count_sent r org n net)"
  by (simp add: count_sent_def same_sessions_def with_link_counters_def split: route.splits origin.splits)

lemma same_sessions_send [same_sessions]:
  "same_sessions net (snd (forward_send accepts org a h hop r i buf lane net))"
proof -
  have "same_sessions net (net\<lparr>rn_chaos_seq := x\<rparr>)" for x by (simp add: same_sessions_def)
  then show ?thesis
    by (auto simp: forward_send_def Let_def split: option.splits
        intro: same_sessions_trans same_sessions)
qed

lemma same_sessions_routed [same_sessions]:
  "same_sessions net (snd (forward_routed accepts org a h hop buf lane net))"
proof -
  have "same_sessions net (net\<lparr>rn_terminated := x\<rparr>)" for x net by (simp add: same_sessions_def)
  then show ?thesis
    by (auto simp: forward_routed_def Let_def split: route.splits
        intro: same_sessions_trans [OF same_sessions_note] same_sessions)
qed

lemma same_sessions_forward [same_sessions]:
  "same_sessions net (snd (forward accepts org a d lane net))"
proof -
  define net1 where "net1 = (case org of
      FromRelay peer \<Rightarrow> with_link_counters peer (\<lambda>c. c\<lparr>lc_rx := bc_add (of_nat (length d)) (lc_rx c)\<rparr>) net
    | FromClient _ \<Rightarrow> net)"
  have "same_sessions net net1"
    by (simp add: net1_def same_sessions split: origin.split)
  moreover have "same_sessions net1 (snd (forward accepts org a d lane net))"
    unfolding forward_def Let_def net1_def [symmetric]
    by (simp add: same_sessions split: option.split prod.split)
  ultimately show ?thesis by (rule same_sessions_trans)
qed

lemma same_sessions_heartbeat [same_sessions]: "same_sessions net (snd (relay_heartbeat net))"
  by (simp add: relay_heartbeat_def relay_traffic_report_def same_sessions_def Let_def)

lemma same_sessions_fold:
  "(\<And>x e n. same_sessions n (snd (f x (e, n)))) \<Longrightarrow> same_sessions net (snd (fold f xs (eff, net)))"
proof (induction xs arbitrary: eff net)
  case (Cons x xs)
  obtain e n where en: "f x (eff, net) = (e, n)" by (cases "f x (eff, net)")
  with Cons.prems have "same_sessions net n" by (metis snd_conv)
  with Cons.IH [of n e] Cons.prems show ?case by (auto simp: en intro: same_sessions_trans)
qed simp

lemma same_sessions_dialers [same_sessions]: "same_sessions net (snd (reconcile_dialers view net))"
proof -
  have a: "same_sessions n (snd (stop_dialer x (e, n)))" for x e and n :: "'a relay_net"
    by (simp add: stop_dialer_def same_sessions_def)
  have b: "same_sessions n (snd (start_dialer x (e, n)))" for x e and n :: "'a relay_net"
    by (cases x) (simp add: start_dialer_def same_sessions_def)
  define gone where "gone = filter (\<lambda>i. \<not> has_key (wanted_dialers view (rn_my_node_id net)) i)
    (map fst (rn_dialers net))"
  obtain e n where en: "fold stop_dialer gone ([], net) = (e, n)" by (rule prod.exhaust)
  have "same_sessions net (snd (fold stop_dialer gone ([], net)))" by (rule same_sessions_fold [OF a])
  then have "same_sessions net n" by (simp add: en)
  moreover have "same_sessions n (snd (reconcile_dialers view net))"
    unfolding reconcile_dialers_def Let_def gone_def [symmetric] en by (rule same_sessions_fold [OF b])
  ultimately show ?thesis by (rule same_sessions_trans)
qed

lemma same_sessions_reconcile [same_sessions]: "same_sessions net (snd (reconcile pk view net))"
proof -
  define net1 where "net1 = (if sn_keys view \<noteq> [] then set_signing_keys pk (sn_keys view) net else net)"
  have 1: "same_sessions net net1" by (simp add: net1_def set_signing_keys_def same_sessions_def)
  show ?thesis
  proof (cases "is_retired net1")
    case True
    then show ?thesis using 1
      by (simp add: reconcile_def Let_def flip: net1_def) (simp add: retire_def same_sessions_def)
  next
    case False
    define mtu where "mtu = max (rn_mtu_ceiling net1) (ucast (nm_mtu (sn_mtu view)))"
    define net2 where "net2 = net1\<lparr>
      rn_tables := replace_attachments (map ae_pair (sn_attachments view)) (rn_tables net1),
      rn_max_frame := if mtu > 0 then mtu + of_nat FRAME_SLACK else 0\<rparr>"
    have 2: "same_sessions net1 net2" by (simp add: net2_def same_sessions_def)
    have r: "snd (reconcile pk view net) = prune_traffic (snd (reconcile_dialers view net2))"
      using False by (simp add: reconcile_def Let_def split_beta net2_def mtu_def flip: net1_def)
    have "same_sessions n (prune_traffic n)" for n :: "'a relay_net"
      by (simp add: prune_traffic_def same_sessions_def)
    with 1 2 r show ?thesis by (metis same_sessions_dialers same_sessions_trans)
  qed
qed

text \<open>The setters of the network: what a join, a timer, a test or the end of a mesh session changes.\<close>

inductive setting :: "'vk relay_net \<Rightarrow> 'vk relay_net \<Rightarrow> bool" where
  "setting net (set_exit_designated granted net)"
| "setting net (refresh_exit_readiness detected still net)"
| "setting net (set_mtu_ceiling mtu net)"
| "setting net (set_exit_readiness reading net)"
| "setting net (set_chaos m net)"
| "setting net (set_signing_keys pk infos net)"
| "setting net (snd (set_credential cred net))"
| "setting net (set_endpoint net)"
| "setting net (snd (retire why net))"
| "setting net (mesh_ended ours dialed reason net)"
| "setting net (snd (snd (dialer_failed ours refused delay net)))"

lemma same_sessions_stale: "same_sessions net (peer_says_stale ours reason net)"
  by (simp add: peer_says_stale_def same_sessions_def split: option.split)

lemma same_sessions_setting [same_sessions]: "setting net net' \<Longrightarrow> same_sessions net net'"
  by (induction rule: setting.induct)
    (auto simp: set_exit_designated_def refresh_exit_readiness_def set_mtu_ceiling_def
      set_exit_readiness_def set_chaos_def set_signing_keys_def set_credential_def set_endpoint_def
      retire_def mesh_ended_def dialer_failed_def Let_def same_sessions_stale
      same_sessions_def [of _ "_\<lparr>rn_exit_ready := _\<rparr>"] same_sessions_def [of _ "_\<lparr>rn_exit_designated := _\<rparr>"]
      same_sessions_def [of _ "_\<lparr>rn_mtu_ceiling := _\<rparr>"] same_sessions_def [of _ "_\<lparr>rn_chaos := _\<rparr>"]
      same_sessions_def [of _ "_\<lparr>rn_keys := _\<rparr>"] same_sessions_def [of _ "_\<lparr>rn_credential := _\<rparr>"]
      same_sessions_def [of _ "_\<lparr>rn_endpoint := _\<rparr>"] same_sessions_def [of _ "_\<lparr>rn_dialers := _\<rparr>"]
      split: option.split bool.split)

text \<open>
  The life of a relay's network: session tasks open over fresh connections and end, frames arrive,
  views are installed and reconciled, heartbeats go out. \<open>R\<close> is the set of registrations of the
  session tasks still running. The session counter is assumed not to have gone through all 64-bit
  values.
\<close>

type_synonym 'vk relay_state = "'vk relay_net \<times> registration set"

inductive relay_step :: "'vk relay_state \<Rightarrow> 'vk relay_state \<Rightarrow> bool" where
  opened: "reg_insert (se_node_id s) s dialed mesh net = (rg, eff, net')
    \<Longrightarrow> se_conn s \<notin> conns (rn_clients net) \<union> conns (rn_mesh net) \<Longrightarrow> rn_session_seq net \<noteq> - 1
    \<Longrightarrow> relay_step (net, R) (net', insert rg R)"
| ended: "rg \<in> R \<Longrightarrow> relay_step (net, R) (reg_drop rg net, R - {rg})"
| framed: "relay_step (net, R) (snd (forward accepts org a d lane net), R)"
| limited: "relay_step (net, R) (net_note DropRateLimited net, R)"
| viewed: "relay_step (net, R) (net\<lparr>rn_view := v, rn_link := l\<rparr>, R)"
| reconciled: "relay_step (net, R) (snd (reconcile pk view net), R)"
| reported: "relay_step (net, R) (snd (relay_heartbeat net), R)"
| configured: "setting net net' \<Longrightarrow> relay_step (net, R) (net', R)"

inductive relay_reachable :: "'vk relay_net \<Rightarrow> 'vk relay_state \<Rightarrow> bool" for start where
  init: "relay_reachable start (start, {})"
| step: "relay_reachable start st \<Longrightarrow> relay_step st st' \<Longrightarrow> relay_reachable start st'"

abbreviation reg_of :: "bool \<Rightarrow> node_id \<Rightarrow> held \<Rightarrow> registration" where
  "reg_of mesh n h \<equiv> \<lparr>rg_node = n, rg_id = he_id h, rg_mesh = mesh\<rparr>"

definition sessions_inv :: "'vk relay_state \<Rightarrow> bool" where
  "sessions_inv st \<longleftrightarrow> (case st of (net, R) \<Rightarrow>
     hm_wf (rn_clients net) \<and> hm_wf (rn_mesh net) \<and> conns_apart net
     \<and> (\<forall>n. has_key (tb_local (rn_tables net)) n = has_key (rn_clients net) n)
     \<and> (\<forall>n. has_key (tb_mesh (rn_tables net)) n = has_key (rn_mesh net) n)
     \<and> (\<forall>n h. map_of (rn_clients net) n = Some h \<longrightarrow> reg_of False n h \<in> R)
     \<and> (\<forall>n h. map_of (rn_mesh net) n = Some h \<longrightarrow> reg_of True n h \<in> R)
     \<and> (\<forall>rg \<in> R. rg_id rg < rn_session_seq net))"

lemma sessions_inv_same:
  "sessions_inv (net, R) \<Longrightarrow> same_sessions net net' \<Longrightarrow> sessions_inv (net', R)"
  by (simp add: sessions_inv_def same_sessions_def conns_apart_def)

lemma conns_insert: "conns (hm_insert k h m) \<subseteq> insert (se_conn (he_session h)) (conns m)"
proof -
  have "set (hm_insert k h m) \<subseteq> insert (k, h) (set m)" by (induction m) auto
  then show ?thesis by (force simp: conns_def)
qed

lemma conns_remove: "conns (hm_remove k m) \<subseteq> conns m"
  by (auto simp: conns_def AList.delete_eq)

lemma succ_less: "(x :: 'a::len word) \<noteq> - 1 \<Longrightarrow> x < x + 1"
proof -
  assume "x \<noteq> - 1"
  then have "1 + x \<noteq> 0" by (metis add.commute eq_neg_iff_add_eq_0)
  then show ?thesis by (simp add: word_less_nat_alt unatSuc add.commute)
qed

lemma sessions_inv_insert:
  assumes inv: "sessions_inv (net, R)" and ins: "reg_insert n s dialed mesh net = (rg, eff, net')"
    and fresh: "se_conn s \<notin> conns (rn_clients net) \<union> conns (rn_mesh net)"
    and seq: "rn_session_seq net \<noteq> - 1"
  shows "sessions_inv (net', insert rg R)"
proof -
  let ?i = "rn_session_seq net"
  let ?h = "\<lparr>he_id = ?i, he_session = s, he_dialed = dialed\<rparr>"
  have apart: "conns (hm_insert n ?h m) \<inter> conns m' = {}"
    if "conns m \<inter> conns m' = {}" "se_conn s \<notin> conns m'" for m m'
    using conns_insert [of n ?h m] that by auto
  have lt: "\<forall>r \<in> insert rg R. rg_id r < ?i + 1"
    using inv ins succ_less [OF seq] by (auto simp: sessions_inv_def reg_insert_def Let_def intro: less_trans)
  show ?thesis
  proof (cases mesh)
    case True
    have "conns (rn_clients net) \<inter> conns (hm_insert n ?h (rn_mesh net)) = {}"
      using apart [of "rn_mesh net" "rn_clients net"] inv fresh
      by (auto simp: sessions_inv_def conns_apart_def)
    with True ins inv lt show ?thesis
      by (auto simp: sessions_inv_def reg_insert_def Let_def conns_apart_def
          simp del: map_of_eq_Some_iff split: if_splits)
  next
    case False
    have "conns (hm_insert n ?h (rn_clients net)) \<inter> conns (rn_mesh net) = {}"
      using apart [of "rn_clients net" "rn_mesh net"] inv fresh
      by (auto simp: sessions_inv_def conns_apart_def)
    with False ins inv lt show ?thesis
      by (auto simp: sessions_inv_def reg_insert_def Let_def conns_apart_def
          simp del: map_of_eq_Some_iff split: if_splits)
  qed
qed

lemma sessions_inv_drop:
  assumes "sessions_inv (net, R)"
  shows "sessions_inv (reg_drop rg net, R - {rg})"
  using assms conns_remove [of "rg_node rg" "rn_mesh net"] conns_remove [of "rg_node rg" "rn_clients net"]
  by (cases rg; cases "rg_mesh rg")
    (auto simp: sessions_inv_def reg_drop_def conns_apart_def has_key_def
      simp del: map_of_eq_Some_iff split: option.splits if_splits)

lemma sessions_inv_step: "relay_step st st' \<Longrightarrow> sessions_inv st \<Longrightarrow> sessions_inv st'"
proof (induction rule: relay_step.induct)
  case (opened s dialed mesh net rg eff net' R)
  then show ?case by (blast intro: sessions_inv_insert)
next
  case (ended rg R net)
  then show ?case by (blast intro: sessions_inv_drop)
next
  case (viewed net R l v)
  have "same_sessions net (net\<lparr>rn_view := v, rn_link := l\<rparr>)" by (simp add: same_sessions_def)
  with viewed show ?case by (rule sessions_inv_same)
qed (blast intro: sessions_inv_same same_sessions)+

lemma sessions_inv_new: "sessions_inv (relay_net_new nid uuid me cred now, {})"
  by (simp add: sessions_inv_def relay_net_new_def tables_new_def conns_apart_def conns_def)

lemma sessions_inv_reachable:
  "relay_reachable start st \<Longrightarrow> start = relay_net_new nid uuid me cred now \<Longrightarrow> sessions_inv st"
  by (induction rule: relay_reachable.induct) (auto intro: sessions_inv_new sessions_inv_step)

section \<open>Dialers\<close>

lemma dialers_stop:
  "map_of (rn_dialers (snd (fold stop_dialer gone st))) =
     (\<lambda>i. if i \<in> set gone then None else map_of (rn_dialers (snd st)) i)"
  by (induction gone arbitrary: st) (auto simp: stop_dialer_def split_beta fun_eq_iff)

lemma dialers_start:
  "map_of (rn_dialers (snd (fold start_dialer ws st))) =
     map_of (rn_dialers (snd st)) ++ map_of (rev (map (\<lambda>(i, e). (i, dialer_sig e)) ws))"
proof (induction ws arbitrary: st)
  case (Cons w ws)
  obtain i e where w: "w = (i, e)" by (cases w)
  have "map_of (rn_dialers (snd (start_dialer w st))) = (map_of (rn_dialers (snd st)))(i \<mapsto> dialer_sig e)"
    by (cases st) (auto simp: start_dialer_def w fun_eq_iff)
  with Cons [of "start_dialer w st"] show ?case
    by (auto simp: w map_add_def fun_eq_iff split: option.splits)
qed simp

lemma hm_wf_collect: "hm_wf (hm_collect kvs)"
proof -
  have "hm_wf m \<Longrightarrow> hm_wf (fold (\<lambda>e m. hm_insert (fst e) (snd e) m) kvs m)" for m
    by (induction kvs arbitrary: m) auto
  then show ?thesis by (simp add: hm_collect_def)
qed

lemma reconcile_dialers_exact:
  "map_of (rn_dialers (snd (reconcile_dialers view net))) i =
     map_option dialer_sig (map_of (wanted_dialers view (rn_my_node_id net)) i)"
proof -
  let ?w = "wanted_dialers view (rn_my_node_id net)"
  let ?sigs = "map (\<lambda>(i, e). (i, dialer_sig e)) ?w"
  have "hm_wf ?w" by (simp add: wanted_dialers_def hm_wf_collect)
  then have "hm_wf ?sigs" by (simp add: comp_def split_beta)
  then have "map_of (rev ?sigs) = map_of ?sigs" by (rule map_of_rev_distinct)
  moreover have "map_of ?sigs i = map_option dialer_sig (map_of ?w i)"
    by (induction ?w) (auto simp: map_of_map)
  moreover have "map_of (rn_dialers net) i = None" if "i \<notin> fst ` set (rn_dialers net)"
    using that by (simp add: map_of_eq_None_iff)
  ultimately show ?thesis
    unfolding reconcile_dialers_def Let_def
    by (cases "map_of ?w i")
      (auto simp: dialers_start dialers_stop map_add_def has_key_def split: option.split)
qed

lemma start_dialer_settled:
  "\<forall>w \<in> set ws. map_of (rn_dialers net) (fst w) = Some (dialer_sig (snd w))
     \<Longrightarrow> fold start_dialer ws (eff, net) = (eff, net)"
  by (induction ws) (auto simp: start_dialer_def split_beta)

lemma rn_my_node_id_dialers: "rn_my_node_id (snd (reconcile_dialers view net)) = rn_my_node_id net"
proof -
  have a: "rn_my_node_id (snd (fold stop_dialer gone st)) = rn_my_node_id (snd st)" for gone st
    by (induction gone arbitrary: st) (auto simp: stop_dialer_def split_beta)
  have b: "rn_my_node_id (snd (fold start_dialer ws st)) = rn_my_node_id (snd st)" for ws st
    by (induction ws arbitrary: st) (auto simp: start_dialer_def split_beta)
  show ?thesis by (simp add: reconcile_dialers_def Let_def a b)
qed

lemma reconcile_dialers_idem:
  assumes "reconcile_dialers view net = (eff, net')"
  shows "reconcile_dialers view net' = ([], net')"
proof -
  let ?w = "wanted_dialers view (rn_my_node_id net')"
  have me: "rn_my_node_id net' = rn_my_node_id net" using rn_my_node_id_dialers [of view net] assms by simp
  have d: "map_of (rn_dialers net') i = map_option dialer_sig (map_of ?w i)" for i
    using reconcile_dialers_exact [of view net i] assms me by simp
  have "has_key ?w i" if "i \<in> fst ` set (rn_dialers net')" for i
    using that d [of i] by (cases "map_of ?w i") (auto simp: has_key_def map_of_eq_None_iff)
  then have gone: "filter (\<lambda>i. \<not> has_key ?w i) (map fst (rn_dialers net')) = []"
    by (auto simp: filter_empty_conv)
  have "hm_wf ?w" by (simp add: wanted_dialers_def hm_wf_collect)
  then have "\<forall>w \<in> set ?w. map_of (rn_dialers net') (fst w) = Some (dialer_sig (snd w))"
    by (auto simp: d)
  then show ?thesis
    by (simp add: reconcile_dialers_def Let_def gone start_dialer_settled del: filter_map)
qed

section \<open>Properties\<close>

text \<open>
  C1. A frame crosses at most one mesh link, whatever the forwarding tables of the relays hold: when
  one relay passes a frame to another, that relay never passes it to a third one.
\<close>

theorem one_mesh_link:
  assumes "relay_reachable (relay_net_new nid uuid (fst y) cred now) (nets (fst y), R)"
    and "mesh_hop nets x y"
  shows "\<not> mesh_hop nets y z"
  using sessions_inv_reachable [OF assms(1) refl] no_second_mesh_hop [OF assms(2)]
  by (simp add: sessions_inv_def)

theorem one_mesh_link_witness:
  "let s = (\<lambda>n c. \<lparr>se_conn = c, se_node_id = n, se_login_gen = 0, se_peer_fp = ''f''\<rparr>);
       a = (relay_net_new ''n'' ''u'' 1 ''c'' 0 :: nat relay_net)
             \<lparr>rn_mesh := [(2, \<lparr>he_id = 1, he_session = s 2 10, he_dialed = True\<rparr>)],
              rn_tables := \<lparr>tb_my_node_id = 1, tb_local = [], tb_attachments = [(6, 2)], tb_mesh = [(2, ())]\<rparr>\<rparr>;
       b = snd (snd (reg_insert 1 (s 1 20) False True (relay_net_new ''n'' ''u'' 2 ''c'' 0)));
       nets = (\<lambda>r. if r = 1 then a else b)
   in \<exists>f. mesh_hop nets (1, FromClient 5, [1, 0,0,0,5, 0,0,0,6, 0, 0, 0,0,0,0, 99]) (2, FromRelay 1, f)
        \<and> (\<forall>z. \<not> mesh_hop nets (2, FromRelay 1, f) z)"
proof -
  define s where "s = (\<lambda>n c. \<lparr>se_conn = c, se_node_id = n, se_login_gen = 0, se_peer_fp = ''f''\<rparr>)"
  define a where "a = (relay_net_new ''n'' ''u'' 1 ''c'' 0 :: nat relay_net)
             \<lparr>rn_mesh := [(2, \<lparr>he_id = 1, he_session = s 2 10, he_dialed = True\<rparr>)],
              rn_tables := \<lparr>tb_my_node_id = 1, tb_local = [], tb_attachments = [(6, 2)], tb_mesh = [(2, ())]\<rparr>\<rparr>"
  define b :: "nat relay_net" where
    "b = snd (snd (reg_insert 1 (s 1 20) False True (relay_net_new ''n'' ''u'' 2 ''c'' 0)))"
  define nets where "nets = (\<lambda>r :: node_id. if r = 1 then a else b)"
  let ?d = "[1, 0,0,0,5, 0,0,0,6, 0, 0, 0,0,0,0, 99] :: bytes"
  let ?f = "[1, 0,0,0,5, 0,0,0,6, 0, 1, 0,0,0,0, 99] :: bytes"
  have "SendOn 10 ?f 0 \<in> set (fst (forward (\<lambda>_. True) (FromClient 5) None ?d 0 a))"
    by (simp add: forward_def a_def s_def relay_net_new_def rh_parse_def bump_hop_def frame_consts
        sat_add8_def from_be_list forward_routed_def route_for_def spoofed_def has_key_def net_note_def
        forward_send_def chaos_frame_def channel_for_def Let_def)
  then have hop: "mesh_hop nets (1, FromClient 5, ?d) (2, FromRelay 1, ?f)"
    by (intro mesh_hop.hop [of nets 1 2 "\<lparr>he_id = 1, he_session = s 2 10, he_dialed = True\<rparr>" ?f 0])
      (simp_all add: nets_def a_def s_def)
  obtain rg eff where ins: "reg_insert (se_node_id (s 1 20)) (s 1 20) False True (relay_net_new ''n'' ''u'' 2 ''c'' 0)
      = (rg, eff, b)"
    by (cases "reg_insert 1 (s 1 20) False True (relay_net_new ''n'' ''u'' 2 ''c'' 0 :: nat relay_net)")
      (simp add: b_def s_def)
  have "relay_reachable (relay_net_new ''n'' ''u'' 2 ''c'' 0) (b, {rg})"
    using relay_step.opened [OF ins, of "{}"]
    by (auto intro!: relay_reachable.step [OF relay_reachable.init]
        simp: relay_net_new_def conns_def)
  then have none: "\<not> mesh_hop nets (2, FromRelay 1, ?f) z" for z
    using one_mesh_link [OF _ hop, of "''n''" "''u''" "''c''" 0 "{rg}" z] by (simp add: nets_def)
  show ?thesis
    unfolding Let_def s_def [symmetric] a_def [symmetric] b_def [symmetric] nets_def [symmetric]
    using hop none by blast
qed

text \<open>
  C17. The session maps and the forwarding tables never disagree: in every state a relay can reach by
  opening and ending sessions, forwarding frames, reconciling with views and reporting, the tables
  list exactly the clients and mesh peers it holds a session with, every held session belongs to a
  task still running, and once no task runs nothing is held.
\<close>

theorem sessions_tables_agree:
  assumes "relay_reachable (relay_net_new nid uuid me cred now) (net, R)"
  shows "(\<forall>n. has_key (tb_local (rn_tables net)) n = has_key (rn_clients net) n)
    \<and> (\<forall>n. has_key (tb_mesh (rn_tables net)) n = has_key (rn_mesh net) n)
    \<and> (\<forall>n h. map_of (rn_clients net) n = Some h \<longrightarrow> reg_of False n h \<in> R)
    \<and> (\<forall>n h. map_of (rn_mesh net) n = Some h \<longrightarrow> reg_of True n h \<in> R)
    \<and> (R = {} \<longrightarrow> rn_clients net = [] \<and> rn_mesh net = [])"
proof -
  have inv: "sessions_inv (net, R)" by (rule sessions_inv_reachable [OF assms refl])
  have empty: "m = []" if "\<forall>n h. map_of m n \<noteq> Some h" for m :: "(node_id, held) hmap"
  proof (cases m)
    case (Cons e m')
    with that show ?thesis by (cases e) (metis map_of_Cons_code(2))
  qed
  have "rn_clients net = [] \<and> rn_mesh net = []" if "R = {}"
    using inv that by (intro conjI empty) (auto simp: sessions_inv_def)
  with inv show ?thesis unfolding sessions_inv_def prod.case by blast
qed

theorem sessions_tables_agree_witness:
  "let s = \<lparr>se_conn = 7, se_node_id = 5, se_login_gen = 0, se_peer_fp = ''f''\<rparr>;
       (rg, eff, net) = reg_insert 5 s False False (relay_net_new ''n'' ''u'' 1 ''c'' 0 :: nat relay_net)
   in has_key (tb_local (rn_tables net)) 5 \<and> reg_of False 5 \<lparr>he_id = 1, he_session = s, he_dialed = False\<rparr> \<in> {rg}"
proof -
  define s where "s = \<lparr>se_conn = 7, se_node_id = 5 :: node_id, se_login_gen = 0, se_peer_fp = ''f''\<rparr>"
  obtain rg eff net where ins: "reg_insert (se_node_id s) s False False (relay_net_new ''n'' ''u'' 1 ''c'' 0 :: nat relay_net)
      = (rg, eff, net)" by (rule prod_cases3)
  have "relay_reachable (relay_net_new ''n'' ''u'' 1 ''c'' 0) (net, {rg})"
    using relay_step.opened [OF ins, of "{}"]
    by (auto intro!: relay_reachable.step [OF relay_reachable.init] simp: relay_net_new_def conns_def)
  from sessions_tables_agree [OF this]
  have "has_key (tb_local (rn_tables net)) 5 = has_key (rn_clients net) 5"
    "\<And>h. map_of (rn_clients net) 5 = Some h \<Longrightarrow> reg_of False 5 h \<in> {rg}" by blast+
  moreover have "map_of (rn_clients net) 5 = Some \<lparr>he_id = 1, he_session = s, he_dialed = False\<rparr>"
    using ins by (auto simp: reg_insert_def Let_def relay_net_new_def s_def)
  ultimately have "has_key (tb_local (rn_tables net)) 5
      \<and> reg_of False 5 \<lparr>he_id = 1, he_session = s, he_dialed = False\<rparr> \<in> {rg}"
    by (auto simp: has_key_def)
  with ins show ?thesis by (simp add: s_def)
qed

text \<open>
  C26. The newest session wins: when a member opens a session while an older one of the same kind is
  still registered, the older session's teardown, whenever it comes, changes nothing any more.
\<close>

theorem stale_teardown_harmless:
  assumes "relay_reachable (relay_net_new nid uuid me cred now) (net, R)" and "old \<in> R"
    and "reg_insert (rg_node old) s dialed (rg_mesh old) net = (new, eff, net')"
  shows "reg_drop old net' = net'"
proof -
  have "rg_id old < rn_session_seq net"
    using sessions_inv_reachable [OF assms(1) refl] assms(2) by (auto simp: sessions_inv_def)
  with assms(3) show ?thesis
    by (cases "rg_mesh old") (auto simp: reg_insert_def reg_drop_def Let_def)
qed

theorem stale_teardown_harmless_witness:
  "let s = (\<lambda>c. \<lparr>se_conn = c, se_node_id = 5, se_login_gen = 0, se_peer_fp = ''f''\<rparr>);
       (old, _, net) = reg_insert 5 (s 7) False False (relay_net_new ''n'' ''u'' 1 ''c'' 0 :: nat relay_net);
       (new, eff, net') = reg_insert 5 (s 8) False False net
   in eff = [Close 7 8 ''replaced by a newer session''] \<and> reg_drop old net' = net'
      \<and> has_key (rn_clients net') 5"
proof -
  define s where "s = (\<lambda>c. \<lparr>se_conn = c, se_node_id = 5 :: node_id, se_login_gen = 0, se_peer_fp = ''f''\<rparr>)"
  obtain old e net where ins: "reg_insert (se_node_id (s 7)) (s 7) False False
      (relay_net_new ''n'' ''u'' 1 ''c'' 0 :: nat relay_net) = (old, e, net)" by (rule prod_cases3)
  obtain new eff net' where ins2: "reg_insert 5 (s 8) False False net = (new, eff, net')" by (rule prod_cases3)
  have r: "relay_reachable (relay_net_new ''n'' ''u'' 1 ''c'' 0) (net, {old})"
    using relay_step.opened [OF ins, of "{}"]
    by (auto intro!: relay_reachable.step [OF relay_reachable.init] simp: relay_net_new_def conns_def)
  have old: "rg_node old = 5" "\<not> rg_mesh old"
    using ins by (auto simp: reg_insert_def Let_def s_def)
  have "reg_drop old net' = net'"
    using stale_teardown_harmless [OF r, of old "s 8" False] ins2 old by simp
  moreover have "eff = [Close 7 8 ''replaced by a newer session'']" "has_key (rn_clients net') 5"
    using ins ins2 by (auto simp: reg_insert_def Let_def s_def relay_net_new_def S_CLOSE_REPLACED_def has_key_def)
  ultimately show ?thesis using ins ins2 by (simp add: s_def)
qed

text \<open>
  C21. End to end through two relays: when client \<open>src\<close> is attached to relay \<open>a\<close> and client \<open>dst\<close> to
  relay \<open>b\<close>, the relays' tables say so, their mesh session is up and the channels take the frame, a
  data frame \<open>src\<close> sends leaves \<open>b\<close> on the session of \<open>dst\<close> with two hops counted and every other byte
  of it unchanged.
\<close>

theorem two_relay_delivery:
  assumes "rh_parse d = Some h" and "rh_hop h = 0" and "rh_src_id h = src" and "rh_dst_id h = dst"
    and "rn_chaos na = None" and "unat (rn_max_frame na) = 0 \<or> length d \<le> unat (rn_max_frame na)"
    and "dst \<noteq> tb_my_node_id (rn_tables na)" and "\<not> has_key (tb_local (rn_tables na)) dst"
    and "\<not> has_key (tb_mesh (rn_tables na)) dst" and "map_of (tb_attachments (rn_tables na)) dst = Some b"
    and "has_key (tb_mesh (rn_tables na)) b" and "map_of (rn_mesh na) b = Some hb"
    and "rn_chaos nb = None" and "unat (rn_max_frame nb) = 0 \<or> length d \<le> unat (rn_max_frame nb)"
    and "map_of (tb_attachments (rn_tables nb)) src = Some a"
    and "dst \<noteq> tb_my_node_id (rn_tables nb)" and "has_key (tb_local (rn_tables nb)) dst"
    and "map_of (rn_clients nb) dst = Some hd'"
    and "acc_a (se_conn (he_session hb))" and "acc_b (se_conn (he_session hd'))"
  shows "\<exists>d1 d2. SendOn (se_conn (he_session hb)) d1 lane \<in> set (fst (forward acc_a (FromClient src) on_a d lane na))
    \<and> SendOn (se_conn (he_session hd')) d2 lane \<in> set (fst (forward acc_b (FromRelay a) on_b d1 lane nb))
    \<and> rh_parse d2 = Some (h\<lparr>rh_hop := 2\<rparr>) \<and> drop ROUTED_HEADER_LEN d2 = drop ROUTED_HEADER_LEN d"
proof -
  have ra: "route_for (rn_tables na) (FromClient src) (rh_src_id h) (rh_dst_id h) = Mesh b"
    using assms by (simp add: route_for_def spoofed_def)
  have ca: "channel_for na (Mesh b) = Some (se_conn (he_session hb))"
    using assms(12) by (simp add: channel_for_def)
  obtain d1 where 1: "SendOn (se_conn (he_session hb)) d1 lane \<in> set (fst (forward acc_a (FromClient src) on_a d lane na))"
    "rh_parse d1 = Some (h\<lparr>rh_hop := 1\<rparr>)" "drop ROUTED_HEADER_LEN d1 = drop ROUTED_HEADER_LEN d" "length d1 = length d"
    using forward_sends [of d h na "FromClient src" "Mesh b" b _ acc_a lane on_a] assms(1,2,5,6,19) ra ca
    by auto
  have rb: "route_for (rn_tables nb) (FromRelay a) (rh_src_id (h\<lparr>rh_hop := 1\<rparr>)) (rh_dst_id (h\<lparr>rh_hop := 1\<rparr>)) = Local dst"
    using assms by (simp add: route_for_def spoofed_def)
  have cb: "channel_for nb (Local dst) = Some (se_conn (he_session hd'))"
    using assms(18) by (simp add: channel_for_def)
  obtain d2 where "SendOn (se_conn (he_session hd')) d2 lane \<in> set (fst (forward acc_b (FromRelay a) on_b d1 lane nb))"
    "rh_parse d2 = Some (h\<lparr>rh_hop := 2\<rparr>)" "drop ROUTED_HEADER_LEN d2 = drop ROUTED_HEADER_LEN d1"
    using forward_sends [of d1 "h\<lparr>rh_hop := 1\<rparr>" nb "FromRelay a" "Local dst" dst _ acc_b lane on_b]
      assms(13,14,20) 1(2,4) rb cb by auto
  with 1 show ?thesis by auto
qed

theorem two_relay_delivery_witness:
  "let s = (\<lambda>n c. \<lparr>he_id = 1, he_session = \<lparr>se_conn = c, se_node_id = n, se_login_gen = 0, se_peer_fp = ''f''\<rparr>,
                   he_dialed = True\<rparr>);
       na = (relay_net_new ''n'' ''u'' 1 ''c'' 0 :: nat relay_net)\<lparr>rn_mesh := [(2, s 2 10)],
              rn_tables := \<lparr>tb_my_node_id = 1, tb_local = [], tb_attachments = [(6, 2)], tb_mesh = [(2, ())]\<rparr>\<rparr>;
       nb = (relay_net_new ''n'' ''u'' 2 ''c'' 0 :: nat relay_net)\<lparr>rn_clients := [(6, s 6 21)],
              rn_tables := \<lparr>tb_my_node_id = 2, tb_local = [(6, ())], tb_attachments = [(5, 1)], tb_mesh = [(1, ())]\<rparr>\<rparr>
   in \<exists>d1 d2. SendOn 10 d1 3 \<in> set (fst (forward (\<lambda>_. True) (FromClient 5) None [1, 0,0,0,5, 0,0,0,6, 0, 0, 0,0,0,0, 99] 3 na))
     \<and> SendOn 21 d2 3 \<in> set (fst (forward (\<lambda>_. True) (FromRelay 1) None d1 3 nb))
     \<and> drop ROUTED_HEADER_LEN d2 = [99]"
proof -
  define s where "s = (\<lambda>n c. \<lparr>he_id = 1, he_session = \<lparr>se_conn = c, se_node_id = n, se_login_gen = 0, se_peer_fp = ''f''\<rparr>,
                   he_dialed = True\<rparr>)"
  define na where "na = (relay_net_new ''n'' ''u'' 1 ''c'' 0 :: nat relay_net)\<lparr>rn_mesh := [(2, s 2 10)],
              rn_tables := \<lparr>tb_my_node_id = 1, tb_local = [], tb_attachments = [(6, 2)], tb_mesh = [(2, ())]\<rparr>\<rparr>"
  define nb where "nb = (relay_net_new ''n'' ''u'' 2 ''c'' 0 :: nat relay_net)\<lparr>rn_clients := [(6, s 6 21)],
              rn_tables := \<lparr>tb_my_node_id = 2, tb_local = [(6, ())], tb_attachments = [(5, 1)], tb_mesh = [(1, ())]\<rparr>\<rparr>"
  let ?d = "[1, 0,0,0,5, 0,0,0,6, 0, 0, 0,0,0,0, 99] :: bytes"
  have "rh_parse ?d = Some \<lparr>rh_kind = 1, rh_src_id = 5, rh_dst_id = 6, rh_flags = 0, rh_hop = 0, rh_trace = 0\<rparr>"
    by (simp add: rh_parse_def frame_consts from_be_list)
  note D = two_relay_delivery [OF this, of 5 6 na 2 "s 2 10" nb 1 "s 6 21" "\<lambda>_. True" "\<lambda>_. True" 3 None None]
  have conn: "se_conn (he_session (s n c)) = c" for n c by (simp add: s_def)
  have "\<exists>d1 d2. SendOn 10 d1 3 \<in> set (fst (forward (\<lambda>_. True) (FromClient 5) None ?d 3 na))
     \<and> SendOn 21 d2 3 \<in> set (fst (forward (\<lambda>_. True) (FromRelay 1) None d1 3 nb))
     \<and> drop ROUTED_HEADER_LEN d2 = drop ROUTED_HEADER_LEN ?d"
    using D [unfolded conn] by (simp add: na_def nb_def relay_net_new_def has_key_def) blast
  then show ?thesis
    unfolding Let_def s_def [symmetric] na_def [symmetric] nb_def [symmetric]
    by (simp add: ROUTED_HEADER_LEN_def)
qed

text \<open>
  C19. Admission: a relay admits a session only on a credential that verifies for this network under a
  key it trusts, binds the certificate presented and is not its own, while it is neither refused nor
  replaced. With a view, the member must be listed in it, in the same role and with no newer login,
  and a relay must be in the published fleet; without one, admission ends with the grace period.
\<close>

theorem relay_admission:
  assumes "relay_verify J now instant cred fp net = Inr cl"
    and "canonical (vw_snap (rn_view net))"
  shows "cred_verify J cred (rn_keys net) \<lparr>ex_iss = COORD_ISS, ex_network_id = rn_network_id net,
      ex_network_uuid = rn_network_uuid net\<rparr> now = Inr cl
    \<and> cl_cert_fp cl = fp \<and> cl_node_id cl \<noteq> rn_my_node_id net
    \<and> \<not> is_refused (rn_link net) \<and> \<not> is_retired net
    \<and> (if sn_members (vw_snap (rn_view net)) = [] then instant - rn_created net < NO_VIEW_GRACE
       else \<exists>m \<in> set (sn_members (vw_snap (rn_view net))). pi_node_id m = cl_node_id cl
         \<and> pi_role m = cl_role cl \<and> pi_login_gen m \<le> cl_login_gen cl
         \<and> (cl_role cl = Relay \<longrightarrow> cl_node_id cl \<in> re_relay_id ` set (sn_relays (vw_snap (rn_view net)))))"
proof -
  let ?s = "vw_snap (rn_view net)"
  have m: "m \<in> set (sn_members ?s) \<and> pi_node_id m = i" if "snapshot_member ?s i = Some m" for i m
    using that by (auto simp: snapshot_member_map_of [OF assms(2)] dest!: map_of_keyed_Some)
  show ?thesis
    using assms(1) m [of "cl_node_id cl"]
    by (auto simp: relay_verify_def Let_def not_less split: if_splits sum.splits option.splits)
      (metis image_eqI)
qed

theorem relay_admission_witness:
  "let cl = \<lparr>cl_iss = ''nqvpn-coord'', cl_aud = ''nqvpn-v1'', cl_network_id = ''n'', cl_network_uuid = ''u'', cl_node_id = 7,
             cl_sub = ''s'', cl_role = Client, cl_pubkey = ''k'', cl_cert_fp = ''f'', cl_prefixes = [],
             cl_login_gen = 3, cl_iat = 1000, cl_exp = 2000\<rparr>;
       J = \<lparr>b64_encode = (\<lambda>_. []), b64_decode = (\<lambda>_. Some (replicate 64 0)),
            header_to_vec = (\<lambda>_. []), header_from_slice = (\<lambda>_. Some (sign_header ''k1'')),
            claims_to_vec = (\<lambda>_. []), claims_from_slice = (\<lambda>_. Some cl),
            ed_sign = (\<lambda>() _. []), ed_verify_strict = (\<lambda>k m b. k = (1::nat)),
            json_u64 = (\<lambda>_ _. None), json_str = (\<lambda>_ _. None)\<rparr>;
       m = \<lparr>pi_node_id = 7, pi_name = ''s'', pi_role = Client, pi_prefixes = [], pi_pubkey = ''k'',
            pi_online = True, pi_login_gen = 3\<rparr>;
       net = (relay_net_new ''n'' ''u'' 1 ''c'' 0)\<lparr>rn_keys := [(''k1'', 1)],
               rn_view := \<lparr>vw_snap = snapshot_default\<lparr>sn_members := [m]\<rparr>, vw_changed = 0\<rparr>\<rparr>
   in relay_verify J 1500 60 ''x.y.z'' ''f'' net = Inr cl \<and> pi_login_gen m \<le> cl_login_gen cl"
proof -
  define cl where "cl = \<lparr>cl_iss = ''nqvpn-coord'', cl_aud = ''nqvpn-v1'', cl_network_id = ''n'', cl_network_uuid = ''u'', cl_node_id = 7,
             cl_sub = ''s'', cl_role = Client, cl_pubkey = ''k'', cl_cert_fp = ''f'', cl_prefixes = [],
             cl_login_gen = 3, cl_iat = 1000, cl_exp = 2000\<rparr>"
  define J where "J = \<lparr>b64_encode = (\<lambda>_. []), b64_decode = (\<lambda>_. Some (replicate 64 0)),
            header_to_vec = (\<lambda>_. []), header_from_slice = (\<lambda>_. Some (sign_header ''k1'')),
            claims_to_vec = (\<lambda>_. []), claims_from_slice = (\<lambda>_. Some cl),
            ed_sign = (\<lambda>() _. []), ed_verify_strict = (\<lambda>k m b. k = (1::nat)),
            json_u64 = (\<lambda>_ _. None), json_str = (\<lambda>_ _. None)\<rparr>"
  define m where "m = \<lparr>pi_node_id = 7, pi_name = ''s'', pi_role = Client, pi_prefixes = [], pi_pubkey = ''k'',
            pi_online = True, pi_login_gen = 3\<rparr>"
  define net where "net = (relay_net_new ''n'' ''u'' 1 ''c'' 0)\<lparr>rn_keys := [(''k1'', 1 :: nat)],
               rn_view := \<lparr>vw_snap = snapshot_default\<lparr>sn_members := [m]\<rparr>, vw_changed = 0\<rparr>\<rparr>"
  have "snapshot_member (snapshot_default\<lparr>sn_members := [m]\<rparr>) 7 = Some m"
    by (simp add: snapshot_member_def binary_search_by_key_def bsearch_base.simps m_def snapshot_default_def)
  then have v: "relay_verify J 1500 60 ''x.y.z'' ''f'' net = Inr cl"
    by (simp add: relay_verify_def net_def relay_net_new_def cred_verify_def J_def cl_def check_claims_def
        AUD_def COORD_ISS_def LEEWAY_SECS_def word_sat_add_def is_refused_def is_retired_def stop_reason_def
        handle_default_def m_def)
  have "canonical (vw_snap (rn_view net))" by (simp add: net_def canonical_def snapshot_default_def)
  from relay_admission [OF v this] have "pi_login_gen m \<le> cl_login_gen cl"
    by (simp add: net_def snapshot_default_def)
  with v show ?thesis
    unfolding Let_def cl_def [symmetric] J_def [symmetric] m_def [symmetric] net_def [symmetric] by blast
qed


end
