(* ===== verification/Spec2Isabelle.thy ===== *)
theory Spec2Isabelle
  imports Nq_Prelude Nq_Net Nq_Frame Nq_Envelope Nq_Flow Nq_View Nq_Credential Nq_Seal Nq_Link Nq_Leases
    Nq_Config Nq_Registry Nq_Ipam Nq_Directory Nq_Coord Nq_Join Nq_Sync Nq_Token Nq_Admin
    Nq_Operator Nq_Import Nq_Rate Nq_Tables Nq_Relay Nq_Mesh
begin

text \<open>
  Verification of nqvpn, a mesh VPN made of a coordinator, relays and clients.

  \<^bold>\<open>The program.\<close> The wire formats and the rules every node shares are in \<open>crates/nqvpn-proto\<close>. The
  coordinator (\<open>crates/nqvpn-coord\<close>) owns the configuration of each network, its registry of members,
  addresses and leases; from these it derives one view per network, which it publishes as snapshots and
  deltas over control sessions. Members keep a copy of the view through \<open>crates/nqvpn-sync\<close>. Relays
  (\<open>crates/nqvpn-relay\<close>) hold data sessions and forward sealed frames by their routed header, over at
  most one link to another relay. Endpoints (\<open>crates/nqvpn-endpoint\<close>, used by relays and by
  \<open>crates/nqvpn-client\<close>) seal packets end to end, filter what arrives, and program routes.

  \<^bold>\<open>How the code is modelled.\<close> A struct is a record whose fields carry a short prefix, an enum a
  datatype, a method a function that takes the state and returns the new one, \<open>Result\<close> the sum type with
  the error on the left, \<open>Option\<close> an option. \<open>u8\<close> to \<open>u128\<close> are words of that width where they can wrap
  or are compared bitwise; times in seconds and milliseconds are natural numbers, with the saturating
  operations of the source written out. A \<open>BTreeMap\<close> is an association list sorted by key, a \<open>HashMap\<close> an
  association list in any order. A mutex-protected operation is one step. The clock, random values and
  third-party packages (ipnet, prefix-trie, snow, bincode, base64, serde, ed25519) are arguments; what
  is used of them is a named predicate (\<open>ipnet_ok\<close>, \<open>jose_ok\<close>, \<open>peek_ok\<close>) that a concrete
  instance satisfies.

  \<^bold>\<open>The theories, and what they show.\<close>
  \<^item> \<open>Nq_Prelude\<close>: words, saturating arithmetic, results, the two maps and their
    laws, shared by all.
  \<^item> \<open>Nq_Net\<close>: addresses and prefixes; the ipnet parameter with its laws and a
    concrete instance.
  \<^item> \<open>Nq_Frame\<close>: routed headers, probes, decisions and trace notes
    (\<open>proto/frame.rs\<close>, \<open>types.rs\<close>): parsing is exact for writing, and a
    relay counts a hop and changes nothing else.
  \<^item> \<open>Nq_Envelope\<close>: control envelopes and their kinds
    (\<open>proto/envelope.rs\<close>): decoding is exact, and a cut-off buffer is recognised as
    such.
  \<^item> \<open>Nq_Flow\<close>: flow hashing (\<open>proto/flow.rs\<close>): packets of one flow
    share lane and trace id.
  \<^item> \<open>Nq_View\<close>: snapshots, deltas, digests (\<open>proto/control.rs\<close>):
    canonical order, diff and apply as a round trip, and the locale \<open>versioned_copy\<close> of
    copies kept current by deltas, interpreted as \<open>snap\<close>.
  \<^item> \<open>Nq_Credential\<close>: signed credentials (\<open>proto/credential.rs\<close>):
    round trip, and only signed and current ones pass.
  \<^item> \<open>Nq_Seal\<close>: end-to-end sessions (\<open>proto/seal.rs\<close>): the replay
    bitmap refines the set of counters seen (locale \<open>replay_filter\<close>, interpreted as
    \<open>rw\<close>), so that a counter opens at most once.
  \<^item> \<open>Nq_Link\<close>: the member side of a control session
    (\<open>sync/link.rs\<close>): the view never goes back and converges.
  \<^item> \<open>Nq_Leases\<close>: liveness and attachments (\<open>coord/leases.rs\<close>): the
    attachment table holds the most recent standing declarations, and expiry detaches no client.
  \<^item> \<open>Nq_Config\<close>: configurations, their validation, error codes, secrets
    (\<open>coord/config.rs\<close>, \<open>error.rs\<close>, \<open>secrets.rs\<close>): what a
    validated network guarantees.
  \<^item> \<open>Nq_Registry\<close>: member records, ids, generation marks and route registrations
    (\<open>coord/registry.rs\<close>): ids are found, generations after a restart are new.
  \<^item> \<open>Nq_Ipam\<close>: address allocation (\<open>coord/ipam.rs\<close>): what is
    granted is free and inside, and failure means exhaustion.
  \<^item> \<open>Nq_Directory\<close>: the published view (\<open>coord/directory.rs\<close>): each
    publication is the view of the present state, prefixes are owned by the living, and the ring of
    deltas serves any recent member (histories by the relation \<open>dir_run\<close>).
  \<^item> \<open>Nq_Coord\<close>: one network of the coordinator and its control plane
    (\<open>coord/state.rs\<close>, \<open>control.rs\<close>, \<open>signer.rs\<close>): join,
    publish, commit, sessions, heartbeats, refresh, sweep.
  \<^item> \<open>Nq_Join\<close>: joins: durable before visible, addresses held once, the
    credential accepted, a replaced instance locked out, a failed join without trace.
  \<^item> \<open>Nq_Sync\<close>: coordinator and members together, as the step relation
    \<open>sync_run\<close> over the operations of \<open>Nq_Coord\<close>: a synced session carries
    its member to exactly the published view.
  \<^item> \<open>Nq_Token\<close>: the member token (\<open>proto/token.rs\<close>): what is
    encoded is read back.
  \<^item> \<open>Nq_Admin\<close>: operator changes (\<open>coord/admin.rs\<close>): networks,
    members, secrets, export and import.
  \<^item> \<open>Nq_Operator\<close>: every operation on a network together, as the relation
    \<open>net_reach\<close>: tables stay well formed; edits are validated; rotated, disabled and
    deleted members are shut out.
  \<^item> \<open>Nq_Import\<close>: import is all or nothing and keeps secrets unique.
  \<^item> \<open>Nq_Rate\<close>: the rate limiter of joins and logins
    (\<open>coord/state.rs\<close>): exact counting, and a table of bounded size.
  \<^item> \<open>Nq_Tables\<close>: the relay forwarding tables and decision
    (\<open>relay/tables.rs\<close>).
  \<^item> \<open>Nq_Relay\<close>: one network of a relay (\<open>relay/net.rs\<close>): admission,
    sessions, reconciliation, traces.
  \<^item> \<open>Nq_Mesh\<close>: relays together: one mesh link at most, delivery over two relays,
    tables that agree with the sessions in every reachable state.

  \<^bold>\<open>Bounds.\<close> All loops of the sources are structural recursions over the data they walk, except these:
  the search for an unused node id runs one step more than there are members, which is shown to be
  enough; the scan for an address visits each host of the range once; the IPv6 scan stops after the
  source's own cap of 65536 candidates. Generations follow the clock in milliseconds; statements about
  runs leave out the single generation \<open>2^64 - 1\<close>, and statements about node ids the id \<open>2^32 - 1\<close>.

  \<^bold>\<open>Not modelled.\<close>
  \<^item> Sockets, QUIC and TLS set-up, HTTP and WebSocket handlers, SQLite, key files and process
    start-up: input and output, or calls into packages.
  \<^item> The heartbeat budget of the control plane and the token bucket of the relay tables: they
    count in floating point.
  \<^item> The operating-system calls that program routes, devices, interfaces and firewalls,
    self-update, the UDP forwarder and the benchmark.
\<close>

end
